(* ===== verification/Prelude.thy ===== *)
theory Prelude
  imports Main "HOL-Library.Word"
begin

text \<open>
  Shared vocabulary of the libnvmmio development.

  \<^item> Results: every operation that can end in \<^verbatim>\<open>HANDLE_ERROR\<close> (src/src/debug.h,
    which prints and calls \<^verbatim>\<open>exit(EXIT_FAILURE)\<close>), in undefined behaviour, or in waiting
    forever returns a value of \<open>'a res\<close>; \<open>bindE\<close> sequences such operations.
  \<^item> C integers: \<^verbatim>\<open>unsigned long\<close>, \<^verbatim>\<open>size_t\<close> and addresses are \<open>nat\<close>, with the
    reduction modulo \<open>2 ^ 64\<close> written out (\<open>ul\<close>, \<open>ul_sub\<close>) where the code can wrap;
    \<^verbatim>\<open>int\<close> and \<^verbatim>\<open>off_t\<close> are \<open>int\<close>, with the conversion to 32 bits written
    out (\<open>c_int\<close>). Bit manipulation that needs a fixed width is done on \<open>64 word\<close>.
  \<^item> Memory: bytes at addresses together with the list of mapped regions; an access
    outside every region is undefined behaviour.
  \<^item> The environment: the code the library calls and that is not part of the repository
    (PMDK and the memory-mapping system calls) is a record of functions, \<open>env\<close>.
\<close>

unbundle bit_operations_syntax

named_theorems layout_simps \<open>size and shift constants of config.h and radixlog.h\<close>
named_theorems mem_simps \<open>reading memory after a copy\<close>

subsection \<open>Types and results\<close>

type_synonym byte = "8 word"
type_synonym addr = nat
type_synonym ptr = nat
type_synonym tid = nat

text \<open>
  \<open>Exit\<close> is \<^verbatim>\<open>HANDLE_ERROR\<close>; \<open>UB\<close> is undefined behaviour of C or of the library
  called (a bad address, a bad shift, a null pointer); \<open>Blocked\<close> is a thread that waits
  for a lock nobody will release.
\<close>

datatype error = Exit string | UB string | Blocked

type_synonym 'a res = "error + 'a"

definition bindE :: "'e + 'a \<Rightarrow> ('a \<Rightarrow> 'e + 'b) \<Rightarrow> 'e + 'b" where
  "bindE r f = (case r of Inl e \<Rightarrow> Inl e | Inr x \<Rightarrow> f x)"

lemma bindE_Inl [simp]: "bindE (Inl e) f = Inl e"
  by (simp add: bindE_def)

lemma bindE_Inr [simp]: "bindE (Inr x) f = f x"
  by (simp add: bindE_def)

lemma bindE_assoc: "bindE (bindE r f) g = bindE r (\<lambda>x. bindE (f x) g)"
  by (cases r) simp_all

lemma bindE_eq_Inr: "bindE r f = Inr y \<longleftrightarrow> (\<exists>x. r = Inr x \<and> f x = Inr y)"
  by (cases r) auto

lemma bindE_InlE:
  assumes "bindE m f = Inl e"
  obtains (first) "m = Inl e" | (second) x where "m = Inr x" and "f x = Inl e"
  using assms by (cases m) auto

lemma bindE_InrE:
  assumes "bindE r f = Inr y"
  obtains x where "r = Inr x" and "f x = Inr y"
  using assms by (auto simp: bindE_eq_Inr)

text \<open>Run a fallible step over a list, stopping at the first failure.\<close>

fun foldE :: "('x \<Rightarrow> 's \<Rightarrow> 'e + 's) \<Rightarrow> 'x list \<Rightarrow> 's \<Rightarrow> 'e + 's" where
  "foldE f [] s = Inr s"
| "foldE f (x # xs) s = bindE (f x s) (foldE f xs)"

lemma foldE_append: "foldE f (xs @ ys) s = bindE (foldE f xs s) (foldE f ys)"
proof (induction xs arbitrary: s)
  case Nil
  then show ?case by simp
next
  case (Cons x xs)
  then show ?case by (cases "f x s") simp_all
qed

lemma foldE_invariant:
  assumes "foldE f xs s = Inr s'" and "P s"
    and "\<And>x s s'. x \<in> set xs \<Longrightarrow> P s \<Longrightarrow> f x s = Inr s' \<Longrightarrow> P s'"
  shows "P s'"
  using assms
proof (induction xs arbitrary: s)
  case Nil
  then show ?case by simp
next
  case (Cons x xs)
  from Cons.prems(1) obtain t where t: "f x s = Inr t" "foldE f xs t = Inr s'"
    by (auto simp: bindE_eq_Inr)
  have "P t" using Cons.prems(2,3) t(1) by (metis list.set_intros(1))
  then show ?case using Cons.IH t(2) Cons.prems(3) by (metis list.set_intros(2))
qed

lemma foldE_total:
  assumes "P s"
    and "\<And>x s. x \<in> set xs \<Longrightarrow> P s \<Longrightarrow> \<exists>s'. f x s = Inr s' \<and> P s'"
  shows "\<exists>s'. foldE f xs s = Inr s' \<and> P s'"
  using assms
proof (induction xs arbitrary: s)
  case Nil
  then show ?case by simp
next
  case (Cons x xs)
  obtain t where "f x s = Inr t" "P t"
    using Cons.prems by (meson list.set_intros(1))
  with Cons show ?case by auto
qed

subsection \<open>C integers\<close>

text \<open>Conversion to \<^verbatim>\<open>unsigned long\<close>, subtraction in it, and conversion to \<^verbatim>\<open>int\<close>.\<close>

definition ul :: "nat \<Rightarrow> nat" where
  "ul x = x mod 2 ^ 64"

definition ul_sub :: "nat \<Rightarrow> nat \<Rightarrow> nat" where
  "ul_sub a b = nat ((int a - int b) mod 2 ^ 64)"

definition c_int :: "int \<Rightarrow> int" where
  "c_int x = (x + 2 ^ 31) mod 2 ^ 32 - 2 ^ 31"

lemma ul_small [simp]: "x < 2 ^ 64 \<Longrightarrow> ul x = x"
  by (simp add: ul_def)

lemma ul_less [simp]: "ul x < 2 ^ 64"
  by (simp add: ul_def)

lemma ul_sub_ge: "b \<le> a \<Longrightarrow> a < 2 ^ 64 \<Longrightarrow> ul_sub a b = a - b"
  by (simp add: ul_sub_def nat_mod_as_int of_nat_diff flip: of_nat_diff)

lemma ul_sub_wrap: "a < b \<Longrightarrow> b \<le> 2 ^ 64 \<Longrightarrow> ul_sub a b = 2 ^ 64 - (b - a)"
proof -
  assume a: "a < b" "b \<le> 2 ^ 64"
  have "(int a - int b) mod 2 ^ 64 = (int a - int b + 2 ^ 64) mod 2 ^ 64" by simp
  also have "\<dots> = int a - int b + 2 ^ 64"
    using a by (intro mod_pos_pos_trivial) (auto simp flip: of_nat_power)
  finally show ?thesis using a by (simp add: ul_sub_def nat_diff_distrib' of_nat_diff)
qed

lemma c_int_small: "- (2 ^ 31) \<le> x \<Longrightarrow> x < 2 ^ 31 \<Longrightarrow> c_int x = x"
  by (simp add: c_int_def)

lemma c_int_range: "- (2 ^ 31) \<le> c_int x \<and> c_int x < 2 ^ 31"
  using pos_mod_bound [of "2 ^ 32 :: int" "x + 2 ^ 31"] by (simp add: c_int_def)

text \<open>Masking with \<^verbatim>\<open>(1 << k) - 1\<close> is the remainder modulo a power of two.\<close>

lemma and_pow2_minus_1: "(x::nat) AND (2 ^ k - 1) = x mod 2 ^ k"
proof -
  have "x AND (2 ^ k - 1) = take_bit k x" by (simp only: take_bit_eq_mask mask_eq_exp_minus_1)
  then show ?thesis by (simp add: take_bit_eq_mod)
qed

lemma drop_bit_div: "drop_bit k (x::nat) = x div 2 ^ k"
  by (simp add: drop_bit_eq_div)

subsection \<open>Memory\<close>

record memory =
  bytes :: "addr \<Rightarrow> byte"
  regions :: "(addr \<times> nat) list"

definition accessible :: "memory \<Rightarrow> addr \<Rightarrow> nat \<Rightarrow> bool" where
  "accessible m a n \<longleftrightarrow> n = 0 \<or> list_ex (\<lambda>(b, l). b \<le> a \<and> a + n \<le> b + l) (regions m)"

lemma accessible_0 [simp]: "accessible m a 0"
  by (simp add: accessible_def)

lemma accessible_sub:
  assumes "accessible m a n" and "a \<le> b" and "b + k \<le> a + n"
  shows "accessible m b k"
  using assms by (force simp: accessible_def list_ex_iff)

lemma accessible_bytes_update [simp]: "accessible (m\<lparr>bytes := f\<rparr>) a n = accessible m a n"
  by (simp add: accessible_def)

text \<open>\<^verbatim>\<open>memcpy(dst, src, n)\<close> of the C library, on the bytes.\<close>

definition mcpy :: "addr \<Rightarrow> addr \<Rightarrow> nat \<Rightarrow> (addr \<Rightarrow> byte) \<Rightarrow> addr \<Rightarrow> byte" where
  "mcpy dst src n b = (\<lambda>a. if dst \<le> a \<and> a < dst + n then b (src + (a - dst)) else b a)"

lemma mcpy_0 [simp, mem_simps]: "mcpy dst src 0 b = b"
  by (rule ext) (auto simp: mcpy_def)

lemma mcpy_in [mem_simps]: "dst \<le> a \<Longrightarrow> a < dst + n \<Longrightarrow> mcpy dst src n b a = b (src + (a - dst))"
  by (simp add: mcpy_def)

lemma mcpy_out [mem_simps]: "a < dst \<or> dst + n \<le> a \<Longrightarrow> mcpy dst src n b a = b a"
  by (auto simp: mcpy_def)

text \<open>A region of memory that a copy does not touch.\<close>

definition disjoint_ranges :: "addr \<Rightarrow> nat \<Rightarrow> addr \<Rightarrow> nat \<Rightarrow> bool" where
  "disjoint_ranges a n b k \<longleftrightarrow> a + n \<le> b \<or> b + k \<le> a"

lemma disjoint_ranges_sym: "disjoint_ranges a n b k = disjoint_ranges b k a n"
  by (auto simp: disjoint_ranges_def)

lemma disjoint_ranges_sub:
  "disjoint_ranges a n b k \<Longrightarrow> a \<le> a' \<Longrightarrow> a' + n' \<le> a + n \<Longrightarrow> b \<le> b' \<Longrightarrow> b' + k' \<le> b + k \<Longrightarrow>
   disjoint_ranges a' n' b' k'"
  by (auto simp: disjoint_ranges_def)

text \<open>Overlaying a file image (bytes by offset) with \<open>n\<close> bytes taken from memory.\<close>

definition overlay :: "(nat \<Rightarrow> byte) \<Rightarrow> nat \<Rightarrow> nat \<Rightarrow> (nat \<Rightarrow> byte) \<Rightarrow> nat \<Rightarrow> byte" where
  "overlay f off n src = (\<lambda>i. if off \<le> i \<and> i < off + n then src (i - off) else f i)"

definition c_memcpy :: "addr \<Rightarrow> addr \<Rightarrow> nat \<Rightarrow> memory \<Rightarrow> memory res" where
  "c_memcpy dst src n m =
     (if accessible m dst n \<and> accessible m src n
      then Inr (m\<lparr>bytes := mcpy dst src n (bytes m)\<rparr>) else Inl (UB ''bad address''))"

subsection \<open>The environment\<close>

text \<open>
  What the library calls and this repository does not contain: PMDK's
  \<^verbatim>\<open>pmem_memcpy_nodrain\<close>, and the system calls that change the address space and the
  size of a file. \<open>None\<close> is \<^verbatim>\<open>MAP_FAILED\<close>; an \<open>int\<close> result is the return code.
\<close>

record env =
  pmem_memcpy_nodrain :: "addr \<Rightarrow> addr \<Rightarrow> nat \<Rightarrow> (addr \<Rightarrow> byte) \<Rightarrow> addr \<Rightarrow> byte"
  posix_fallocate :: "int \<Rightarrow> nat \<Rightarrow> nat \<Rightarrow> int"
  mremap :: "addr \<Rightarrow> nat \<Rightarrow> nat \<Rightarrow> memory \<Rightarrow> (addr \<times> memory) option"

text \<open>PMDK documents \<^verbatim>\<open>pmem_memcpy_nodrain\<close> as a copy of \<open>n\<close> bytes from src to dst.\<close>

definition pmem_copies :: "env \<Rightarrow> bool" where
  "pmem_copies E \<longleftrightarrow> (\<forall>dst src n b. pmem_memcpy_nodrain E dst src n b = mcpy dst src n b)"

end
