(* ===== verification/Slist.thy ===== *)
theory Slist
  imports Prelude
begin

text \<open>
  The intrusive singly linked list of src/src/slist.h, on an explicit heap of next pointers.
  A \<^verbatim>\<open>struct slist_head\<close> is an address; \<open>h p\<close> is its \<^verbatim>\<open>next\<close> field, \<open>None\<close> for NULL.
  The relation \<open>slist h head xs\<close> says that the list anchored at \<open>head\<close> holds the nodes
  \<open>xs\<close>. The lemmas show that each operation implements the list operation its clients
  (the free lists of allocator.c, the locked entries of mmio.c) rely on, and leaves every
  list on other nodes alone.
\<close>

type_synonym sheap = "ptr \<Rightarrow> ptr option"

subsection \<open>Operations\<close>

definition slist_push :: "ptr \<Rightarrow> ptr \<Rightarrow> sheap \<Rightarrow> sheap" where
  "slist_push new_node head h =
     (let h1 = h(new_node := h head) in h1(head := Some new_node))"

definition slist_del :: "ptr \<Rightarrow> ptr option \<Rightarrow> sheap \<Rightarrow> sheap" where
  "slist_del head nxt h = h(head := nxt)"

text \<open>Popping an empty list dereferences NULL.\<close>

definition slist_pop :: "ptr \<Rightarrow> sheap \<Rightarrow> (ptr \<times> sheap) res" where
  "slist_pop head h =
     (case h head of
        None \<Rightarrow> Inl (UB ''slist_pop: NULL'')
      | Some entry \<Rightarrow>
          (let h1 = slist_del head (h entry) h; h2 = h1(entry := None) in Inr (entry, h2)))"

definition slist_empty :: "ptr \<Rightarrow> sheap \<Rightarrow> bool" where
  "slist_empty head h \<longleftrightarrow> h head = None"

definition slist_cut_splice :: "ptr \<Rightarrow> ptr \<Rightarrow> ptr \<Rightarrow> sheap \<Rightarrow> sheap" where
  "slist_cut_splice head node new_head h =
     (let tmp = h head;
          h1 = h(head := h node);
          h2 = h1(node := h1 new_head)
      in h2(new_head := tmp))"

text \<open>
  \<^verbatim>\<open>SLIST_FOR_EACH_ENTRY\<close>: the nodes visited from \<open>p\<close> on, or \<open>None\<close> when the walk has
  not met NULL after \<open>fuel\<close> nodes.
\<close>

fun slist_walk :: "nat \<Rightarrow> sheap \<Rightarrow> ptr option \<Rightarrow> ptr list option" where
  "slist_walk fuel h None = Some []"
| "slist_walk 0 h (Some p) = None"
| "slist_walk (Suc fuel) h (Some p) = map_option (\<lambda>ps. p # ps) (slist_walk fuel h (h p))"

subsection \<open>The list a heap represents\<close>

fun chain :: "sheap \<Rightarrow> ptr option \<Rightarrow> ptr list \<Rightarrow> bool" where
  "chain h p [] \<longleftrightarrow> p = None"
| "chain h p (x # xs) \<longleftrightarrow> p = Some x \<and> chain h (h x) xs"

definition slist :: "sheap \<Rightarrow> ptr \<Rightarrow> ptr list \<Rightarrow> bool" where
  "slist h head xs \<longleftrightarrow> chain h (h head) xs \<and> distinct (head # xs)"

lemma chain_cong: "(\<And>x. x \<in> set xs \<Longrightarrow> h x = h' x) \<Longrightarrow> chain h p xs = chain h' p xs"
  by (induction xs arbitrary: p) auto

lemma chain_upd [simp]: "x \<notin> set xs \<Longrightarrow> chain (h(x := q)) p xs = chain h p xs"
  by (rule chain_cong) auto

lemma chain_functional: "chain h p xs \<Longrightarrow> chain h p ys \<Longrightarrow> xs = ys"
proof (induction xs arbitrary: p ys)
  case Nil
  then show ?case by (cases ys) auto
next
  case (Cons x xs)
  then show ?case by (cases ys) auto
qed

lemma chain_append_node:
  "chain h p (xs @ n # ys) \<Longrightarrow> chain h (h n) ys"
  by (induction xs arbitrary: p) auto

lemma chain_cut:
  "chain h p (xs @ n # ys) \<Longrightarrow> n \<notin> set xs \<Longrightarrow> chain h q zs \<Longrightarrow> n \<notin> set zs \<Longrightarrow>
   chain (h(n := q)) p (xs @ n # zs)"
  by (induction xs arbitrary: p) auto

lemma slist_frame:
  assumes "slist h head xs" and "\<And>p. p \<in> set (head # xs) \<Longrightarrow> h' p = h p"
  shows "slist h' head xs"
  using assms chain_cong [of xs h h'] by (auto simp: slist_def)

subsection \<open>Each operation implements its list operation\<close>

lemma slist_empty_iff: "slist h head xs \<Longrightarrow> slist_empty head h \<longleftrightarrow> xs = []"
  by (cases xs) (auto simp: slist_def slist_empty_def)

lemma slist_push_refines:
  assumes "slist h head xs" and "n \<notin> set (head # xs)"
  shows "slist (slist_push n head h) head (n # xs)"
  using assms by (auto simp: slist_def slist_push_def Let_def)

lemma slist_pop_refines:
  assumes "slist h head (x # xs)"
  obtains h' where "slist_pop head h = Inr (x, h')" and "slist h' head xs"
    and "h' x = None" and "\<And>p. p \<notin> {head, x} \<Longrightarrow> h' p = h p"
proof -
  let ?h = "(h(head := h x))(x := None)"
  have "slist_pop head h = Inr (x, ?h)"
    using assms by (simp add: slist_def slist_pop_def slist_del_def)
  moreover have "slist ?h head xs"
    using assms by (auto simp: slist_def)
  ultimately show ?thesis using that [of ?h] by simp
qed

lemma slist_pop_empty: "slist h head [] \<Longrightarrow> slist_pop head h = Inl (UB ''slist_pop: NULL'')"
  by (simp add: slist_def slist_pop_def)

lemma slist_cut_splice_result:
  assumes l: "slist h head (xs @ n # ys)" and g: "slist h new_head zs"
    and disj: "set (head # xs @ n # ys) \<inter> set (new_head # zs) = {}"
  shows "slist (slist_cut_splice head n new_head h) head ys"
    and "slist (slist_cut_splice head n new_head h) new_head (xs @ n # zs)"
proof -
  let ?h = "((h(head := h n))(n := h new_head))(new_head := h head)"
  have eq: "slist_cut_splice head n new_head h = ?h"
    using disj by (auto simp: slist_cut_splice_def Let_def fun_eq_iff)
  have d: "distinct (head # xs @ n # ys)" "distinct (new_head # zs)"
    using l g by (simp_all add: slist_def)
  have "chain h (h n) ys" using l by (auto simp: slist_def dest: chain_append_node)
  then have "chain ?h (?h head) ys" using d disj by auto
  then show "slist (slist_cut_splice head n new_head h) head ys"
    using d by (simp add: slist_def eq)
  have "chain (h(n := h new_head)) (h head) (xs @ n # zs)"
    using l g d disj by (intro chain_cut) (auto simp: slist_def)
  then have "chain ?h (?h new_head) (xs @ n # zs)"
    using d disj chain_cong [of "xs @ n # zs" "h(n := h new_head)" ?h "h head"] by fastforce
  then show "slist (slist_cut_splice head n new_head h) new_head (xs @ n # zs)"
    using d disj by (auto simp: slist_def eq)
qed

lemma slist_walk_enough:
  "chain h p xs \<Longrightarrow> length xs \<le> fuel \<Longrightarrow> slist_walk fuel h p = Some xs"
proof (induction xs arbitrary: p fuel)
  case Nil
  then show ?case by simp
next
  case (Cons x xs)
  then show ?case by (cases fuel) auto
qed

lemma slist_walk_self_loop: "h x = Some x \<Longrightarrow> slist_walk fuel h (Some x) = None"
  by (induction fuel) auto

text \<open>
  C29: cutting the prefix of a list that ends in a node and splicing it in front of another
  list (the move of a whole batch of free nodes between the global and a local free list)
  leaves the rest in the first list and puts exactly the prefix, in order, in front of the
  second.
\<close>

theorem slist_cut_splice_refines:
  assumes "slist h head (xs @ n # ys)" and "slist h new_head zs"
    and "set (head # xs @ n # ys) \<inter> set (new_head # zs) = {}"
  shows "slist (slist_cut_splice head n new_head h) head ys \<and>
         slist (slist_cut_splice head n new_head h) new_head (xs @ n # zs)"
  using slist_cut_splice_result [OF assms] by simp

theorem slist_cut_splice_refines_witness:
  "slist (slist_cut_splice 0 2 9 ((\<lambda>_. None)(0 := Some 1, 1 := Some 2, 2 := Some 3, 9 := Some 7))) 9 [1, 2, 7]"
  using slist_cut_splice_refines
    [of "(\<lambda>_. None)(0 := Some 1, 1 := Some 2, 2 := Some 3, 9 := Some 7)" 0 "[1]" 2 "[3]" 9 "[7]"]
  by (simp add: slist_def)

text \<open>
  The laws a client needs of a list head, stated once as an interface, and the heap
  operations as an instance of it.
\<close>

locale linked_stack =
  fixes push :: "'n \<Rightarrow> 'a \<Rightarrow> 'h \<Rightarrow> 'h"
    and pop :: "'a \<Rightarrow> 'h \<Rightarrow> ('n \<times> 'h) res"
    and is_empty :: "'a \<Rightarrow> 'h \<Rightarrow> bool"
    and node_at :: "'n \<Rightarrow> 'a \<Rightarrow> bool"
    and rep :: "'h \<Rightarrow> 'a \<Rightarrow> 'n list \<Rightarrow> bool"
  assumes rep_push: "rep h a xs \<Longrightarrow> n \<notin> set xs \<Longrightarrow> \<not> node_at n a \<Longrightarrow> rep (push n a h) a (n # xs)"
    and rep_pop: "rep h a (x # xs) \<Longrightarrow> \<exists>h'. pop a h = Inr (x, h') \<and> rep h' a xs"
    and rep_empty: "rep h a xs \<Longrightarrow> is_empty a h = (xs = [])"
begin

lemma pop_push:
  assumes "rep h a xs" and "n \<notin> set xs" and "\<not> node_at n a"
  shows "\<exists>h'. pop a (push n a h) = Inr (n, h') \<and> rep h' a xs"
  using rep_pop [OF rep_push [OF assms]] .

lemma push_all:
  assumes "rep h a xs" and "distinct ns" and "set ns \<inter> set xs = {}" and "\<And>n. n \<in> set ns \<Longrightarrow> \<not> node_at n a"
  shows "rep (fold (\<lambda>n. push n a) ns h) a (rev ns @ xs)"
  using assms
proof (induction ns arbitrary: h xs)
  case Nil
  then show ?case by simp
next
  case (Cons n ns)
  have "rep (push n a h) a (n # xs)" using Cons.prems by (intro rep_push) auto
  then have "rep (fold (\<lambda>n. push n a) ns (push n a h)) a (rev ns @ n # xs)"
    using Cons.prems by (intro Cons.IH) auto
  then show ?case by simp
qed

lemma not_empty_after_push:
  assumes "rep h a xs" and "n \<notin> set xs" and "\<not> node_at n a"
  shows "\<not> is_empty a (push n a h)"
  using rep_empty [OF rep_push [OF assms]] by simp

end

interpretation sl: linked_stack slist_push slist_pop slist_empty "(=)" slist
proof unfold_locales
  show "slist (slist_push n a h) a (n # xs)"
    if "slist h a xs" "n \<notin> set xs" "n \<noteq> a" for h a xs n
    using that by (intro slist_push_refines) auto
  show "\<exists>h'. slist_pop a h = Inr (x, h') \<and> slist h' a xs" if "slist h a (x # xs)" for h a x xs
    using that by (metis slist_pop_refines)
  show "slist_empty a h = (xs = [])" if "slist h a xs" for h a xs
    using that by (rule slist_empty_iff)
qed

end
