(* ===== verification/Linked_List.thy ===== *)
theory Linked_List
  imports Prelude
begin

text \<open>
  The circular doubly linked list of src/src/list.h (the buckets of the file hash), on an
  explicit heap of \<^verbatim>\<open>struct list_head\<close> cells. \<open>dlist h head xs\<close> says that the list
  anchored at \<open>head\<close> holds the nodes \<open>xs\<close>, with consistent links in both directions.
\<close>

record list_head =
  nxt :: ptr
  prv :: ptr

type_synonym lheap = "ptr \<Rightarrow> list_head"

definition set_nxt :: "ptr \<Rightarrow> ptr \<Rightarrow> lheap \<Rightarrow> lheap" where
  "set_nxt p v h = h(p := (h p)\<lparr>nxt := v\<rparr>)"

definition set_prv :: "ptr \<Rightarrow> ptr \<Rightarrow> lheap \<Rightarrow> lheap" where
  "set_prv p v h = h(p := (h p)\<lparr>prv := v\<rparr>)"

subsection \<open>Operations\<close>

definition INIT_LIST_HEAD :: "ptr \<Rightarrow> lheap \<Rightarrow> lheap" where
  "INIT_LIST_HEAD l h = set_nxt l l (set_prv l l h)"

definition list_add_between :: "ptr \<Rightarrow> ptr \<Rightarrow> ptr \<Rightarrow> lheap \<Rightarrow> lheap" where
  "list_add_between entry prev next h =
     (let h1 = set_prv next entry h;
          h2 = set_nxt entry next h1;
          h3 = set_prv entry prev h2
      in set_nxt prev entry h3)"

definition list_add :: "ptr \<Rightarrow> ptr \<Rightarrow> lheap \<Rightarrow> lheap" where
  "list_add entry head h = list_add_between entry head (nxt (h head)) h"

definition list_add_tail :: "ptr \<Rightarrow> ptr \<Rightarrow> lheap \<Rightarrow> lheap" where
  "list_add_tail entry head h = list_add_between entry (prv (h head)) head h"

definition list_del_between :: "ptr \<Rightarrow> ptr \<Rightarrow> lheap \<Rightarrow> lheap" where
  "list_del_between prev next h = (let h1 = set_prv next prev h in set_nxt prev next h1)"

definition list_del :: "ptr \<Rightarrow> lheap \<Rightarrow> lheap" where
  "list_del entry h = list_del_between (prv (h entry)) (nxt (h entry)) h"

definition list_del_init :: "ptr \<Rightarrow> lheap \<Rightarrow> lheap" where
  "list_del_init entry h =
     INIT_LIST_HEAD entry (list_del_between (prv (h entry)) (nxt (h entry)) h)"

definition list_move_tail :: "ptr \<Rightarrow> ptr \<Rightarrow> lheap \<Rightarrow> lheap" where
  "list_move_tail l head h =
     list_add_tail l head (list_del_between (prv (h l)) (nxt (h l)) h)"

definition list_empty :: "ptr \<Rightarrow> lheap \<Rightarrow> bool" where
  "list_empty head h \<longleftrightarrow> nxt (h head) = head"

text \<open>
  \<^verbatim>\<open>LIST_FOR_EACH_ENTRY\<close>: the nodes visited from \<open>pos\<close> until the head is met again, or
  \<open>None\<close> when \<open>fuel\<close> nodes were not enough.
\<close>

fun list_walk :: "nat \<Rightarrow> lheap \<Rightarrow> ptr \<Rightarrow> ptr \<Rightarrow> ptr list option" where
  "list_walk 0 h head pos = (if pos = head then Some [] else None)"
| "list_walk (Suc fuel) h head pos =
     (if pos = head then Some []
      else map_option (\<lambda>ps. pos # ps) (list_walk fuel h head (nxt (h pos))))"

subsection \<open>The list a heap represents\<close>

fun dseg :: "lheap \<Rightarrow> ptr \<Rightarrow> ptr list \<Rightarrow> ptr \<Rightarrow> bool" where
  "dseg h a [] b \<longleftrightarrow> nxt (h a) = b \<and> prv (h b) = a"
| "dseg h a (x # xs) b \<longleftrightarrow> nxt (h a) = x \<and> prv (h x) = a \<and> dseg h x xs b"

definition dlist :: "lheap \<Rightarrow> ptr \<Rightarrow> ptr list \<Rightarrow> bool" where
  "dlist h head xs \<longleftrightarrow> dseg h head xs head \<and> distinct (head # xs)"

lemma dseg_append:
  "dseg h a (xs @ y # ys) b \<longleftrightarrow> dseg h a xs y \<and> dseg h y ys b"
  by (induction xs arbitrary: a) auto

lemma dseg_cong:
  assumes "\<And>p. p \<in> insert a (set xs) \<Longrightarrow> nxt (h' p) = nxt (h p)"
    and "\<And>p. p \<in> insert b (set xs) \<Longrightarrow> prv (h' p) = prv (h p)"
  shows "dseg h' a xs b = dseg h a xs b"
  using assms by (induction xs arbitrary: a) auto

lemma set_sel [simp]:
  "nxt (set_nxt p v h q) = (if q = p then v else nxt (h q))"
  "prv (set_nxt p v h q) = prv (h q)"
  "nxt (set_prv p v h q) = nxt (h q)"
  "prv (set_prv p v h q) = (if q = p then v else prv (h q))"
  by (simp_all add: set_nxt_def set_prv_def)

lemma dseg_last: "dseg h a xs b \<Longrightarrow> prv (h b) = last (a # xs)"
  by (induction xs arbitrary: a) auto

lemma dseg_first: "dseg h a xs b \<Longrightarrow> nxt (h a) = hd (xs @ [b])"
  by (cases xs) auto

lemma dlist_frame:
  assumes "dlist h head xs" and "\<And>p. p \<in> set (head # xs) \<Longrightarrow> h' p = h p"
  shows "dlist h' head xs"
  using assms dseg_cong [of head xs h' h head] by (simp add: dlist_def)

text \<open>A list splits at any point into the part before and the part after.\<close>

lemma dlist_split:
  "dlist h head (ys @ zs) \<longleftrightarrow>
     dseg h head ys (hd (zs @ [head])) \<and> dseg h (last (head # ys)) zs head \<and>
     distinct (head # ys @ zs)"
proof (cases zs)
  case Nil
  then show ?thesis using dseg_last dseg_first
    by (cases ys rule: rev_cases) (auto simp: dlist_def dseg_append)
next
  case (Cons z zs')
  then show ?thesis
    by (cases ys rule: rev_cases) (auto simp: dlist_def dseg_append)
qed

subsection \<open>Each operation implements its list operation\<close>

lemma list_empty_iff: "dlist h head xs \<Longrightarrow> list_empty head h \<longleftrightarrow> xs = []"
  by (cases xs) (auto simp: dlist_def list_empty_def)

lemma INIT_LIST_HEAD_refines: "dlist (INIT_LIST_HEAD l h) l []"
  by (simp add: dlist_def INIT_LIST_HEAD_def)

lemma add_between_sel:
  assumes "e \<noteq> p" and "e \<noteq> n"
  shows "nxt (list_add_between e p n h q) = (if q = p then e else if q = e then n else nxt (h q))"
    and "prv (list_add_between e p n h q) = (if q = e then p else if q = n then e else prv (h q))"
  using assms by (simp_all add: list_add_between_def Let_def)

lemma list_add_between_refines:
  assumes l: "dlist h head (ys @ zs)" and e: "e \<notin> set (head # ys @ zs)"
    and p: "p = last (head # ys)" and n: "n = hd (zs @ [head])"
  shows "dlist (list_add_between e p n h) head (ys @ e # zs)"
proof -
  let ?h = "list_add_between e p n h"
  have pin: "p \<in> set (head # ys)" using p by (metis last_in_set list.distinct(1))
  have nin: "n \<in> set (zs @ [head])" using n by (metis hd_in_set snoc_eq_iff_butlast)
  have ne: "e \<noteq> p" "e \<noteq> n" using pin nin e by auto
  note sel = add_between_sel [OF ne, of h]
  have s: "dseg h head ys n" "dseg h p zs head" "distinct (head # ys @ zs)"
    using l by (simp_all add: dlist_split p n)
  have "dseg ?h head ys e"
  proof (cases ys rule: rev_cases)
    case Nil
    then have hp: "head = p" using p by simp
    show ?thesis unfolding Nil hp by (simp add: sel)
  next
    case (snoc ys' y)
    then have "y = p" using p by simp
    have "dseg h head ys' p" using s(1) snoc \<open>y = p\<close> by (simp add: dseg_append)
    moreover have "dseg ?h head ys' p = dseg h head ys' p"
      using s(3) snoc \<open>y = p\<close> ne nin e by (intro dseg_cong) (auto simp: sel)
    ultimately show ?thesis using snoc \<open>y = p\<close> ne by (simp add: dseg_append sel)
  qed
  moreover have "dseg ?h e zs head"
  proof (cases zs)
    case Nil
    then have hn: "head = n" using n by simp
    show ?thesis unfolding Nil hn using ne by (simp add: sel)
  next
    case (Cons z zs')
    then have "z = n" using n by simp
    have "dseg h n zs' head" using s(2) Cons \<open>z = n\<close> by simp
    moreover have "dseg ?h n zs' head = dseg h n zs' head"
      using s(3) Cons \<open>z = n\<close> ne pin e by (intro dseg_cong) (auto simp: sel)
    ultimately show ?thesis using Cons \<open>z = n\<close> ne by (simp add: sel)
  qed
  ultimately show ?thesis using l e by (auto simp: dlist_def dseg_append)
qed

lemma list_add_refines:
  assumes "dlist h head xs" and "e \<notin> set (head # xs)"
  shows "dlist (list_add e head h) head (e # xs)"
proof -
  have "nxt (h head) = hd (xs @ [head])" using assms by (simp add: dlist_def dseg_first)
  then show ?thesis
    using list_add_between_refines [of h head "[]" xs e] assms by (simp add: list_add_def)
qed

lemma list_add_untouched:
  assumes "dlist h head xs" and "q \<notin> set (e # head # xs)"
  shows "list_add e head h q = h q"
proof -
  have "nxt (h head) \<in> set (head # xs)" using assms(1) by (cases xs) (auto simp: dlist_def)
  then show ?thesis using assms(2)
    by (auto simp: list_add_def list_add_between_def Let_def set_nxt_def set_prv_def)
qed

lemma list_add_tail_refines:
  assumes "dlist h head xs" and "e \<notin> set (head # xs)"
  shows "dlist (list_add_tail e head h) head (xs @ [e])"
proof -
  have "prv (h head) = last (head # xs)" using assms dseg_last unfolding dlist_def by blast
  then show ?thesis
    using list_add_between_refines [of h head xs "[]" e] assms by (simp add: list_add_tail_def)
qed

lemma list_del_refines:
  assumes l: "dlist h head (ys @ e # zs)"
  shows "dlist (list_del e h) head (ys @ zs)"
proof -
  let ?p = "last (head # ys)" and ?n = "hd (zs @ [head])"
  have s: "dseg h head ys e" "dseg h e zs head" "distinct (head # ys @ e # zs)"
    using l by (simp_all add: dlist_def dseg_append)
  have pn: "prv (h e) = ?p" "nxt (h e) = ?n" using dseg_last [OF s(1)] dseg_first [OF s(2)] by simp_all
  have pin: "?p \<in> set (head # ys)" by (metis last_in_set list.distinct(1))
  have nin: "?n \<in> set (zs @ [head])" by (metis hd_in_set snoc_eq_iff_butlast)
  let ?h = "list_del e h"
  have sel: "nxt (?h q) = (if q = ?p then ?n else nxt (h q))"
    "prv (?h q) = (if q = ?n then ?p else prv (h q))" for q
    by (simp_all add: list_del_def list_del_between_def Let_def pn)
  have "dseg ?h head ys ?n"
  proof (cases ys rule: rev_cases)
    case Nil
    then show ?thesis by (simp add: sel)
  next
    case (snoc ys' y)
    have "dseg ?h head ys' y = dseg h head ys' y"
      using s(3) snoc nin by (intro dseg_cong) (auto simp: sel)
    then show ?thesis using s(1) snoc by (simp add: dseg_append sel)
  qed
  moreover have "dseg ?h ?p zs head"
  proof (cases zs)
    case Nil
    then show ?thesis by (auto simp: sel)
  next
    case (Cons z zs')
    have "dseg ?h z zs' head = dseg h z zs' head"
      using s(3) Cons pin by (intro dseg_cong) (auto simp: sel)
    then show ?thesis using s(2) Cons by (simp add: sel)
  qed
  ultimately show ?thesis using s(3) by (simp add: dlist_split)
qed

lemma list_del_untouched:
  assumes "dlist h head xs" and "e \<in> set xs" and "q \<notin> set (head # xs)"
  shows "list_del e h q = h q"
proof -
  obtain ys zs where xs: "xs = ys @ e # zs" using assms(2) by (metis split_list)
  have s: "dseg h head ys e" "dseg h e zs head" using assms(1) xs by (simp_all add: dlist_def dseg_append)
  have "prv (h e) \<in> set (head # xs)" "nxt (h e) \<in> set (head # xs)"
    using dseg_last [OF s(1)] dseg_first [OF s(2)] xs by (cases zs; cases ys rule: rev_cases; auto)+
  then show ?thesis using assms(3)
    by (auto simp: list_del_def list_del_between_def Let_def set_nxt_def set_prv_def)
qed

lemma list_del_init_refines:
  assumes "dlist h head (ys @ e # zs)"
  shows "dlist (list_del_init e h) head (ys @ zs)" and "dlist (list_del_init e h) e []"
proof -
  have eq: "list_del_init e h = INIT_LIST_HEAD e (list_del e h)"
    by (simp add: list_del_init_def list_del_def)
  then show "dlist (list_del_init e h) e []" by (simp add: INIT_LIST_HEAD_refines)
  have "e \<notin> set (head # ys @ zs)" using assms by (auto simp: dlist_def)
  then show "dlist (list_del_init e h) head (ys @ zs)"
    unfolding eq by (intro dlist_frame [OF list_del_refines [OF assms]])
      (auto simp: INIT_LIST_HEAD_def set_nxt_def set_prv_def)
qed

lemma list_move_tail_refines:
  assumes "dlist h head (ys @ e # zs)"
  shows "dlist (list_move_tail e head h) head (ys @ zs @ [e])"
proof -
  have "list_move_tail e head h = list_add_tail e head (list_del e h)"
    by (simp add: list_move_tail_def list_del_def)
  moreover have "e \<notin> set (head # ys @ zs)" using assms by (auto simp: dlist_def)
  ultimately show ?thesis
    using list_add_tail_refines [OF list_del_refines [OF assms]] by simp
qed

lemma list_walk_enough:
  "dseg h a xs head \<Longrightarrow> head \<notin> set xs \<Longrightarrow> length xs \<le> fuel \<Longrightarrow>
   list_walk fuel h head (nxt (h a)) = Some xs"
proof (induction xs arbitrary: a fuel)
  case Nil
  then show ?case by (cases fuel) auto
next
  case (Cons x xs)
  then show ?case by (cases fuel) auto
qed

end
