(* ===== verification/Locks.thy ===== *)
theory Locks
  imports Prelude
begin

text \<open>
  The lock macros of src/src/lock.h over POSIX reader-writer locks. A lock is the number of
  readers that hold it and whether a writer does. An operation that would wait is \<open>Blocked\<close>
  in a run where no other thread moves; the \<^verbatim>\<open>TRYLOCK\<close> macros say whether they succeeded.
  Unlocking a lock nobody holds is undefined behaviour of POSIX.
\<close>

record rwlock =
  readers :: nat
  writer :: bool

definition rwlock_ok :: "rwlock \<Rightarrow> bool" where
  "rwlock_ok l \<longleftrightarrow> writer l \<longrightarrow> readers l = 0"

definition RWLOCK_INIT :: rwlock where
  "RWLOCK_INIT = \<lparr>readers = 0, writer = False\<rparr>"

definition RWLOCK_READ_TRYLOCK :: "rwlock \<Rightarrow> rwlock option" where
  "RWLOCK_READ_TRYLOCK l = (if writer l then None else Some (l\<lparr>readers := readers l + 1\<rparr>))"

definition RWLOCK_WRITE_TRYLOCK :: "rwlock \<Rightarrow> rwlock option" where
  "RWLOCK_WRITE_TRYLOCK l =
     (if writer l \<or> 0 < readers l then None else Some (l\<lparr>writer := True\<rparr>))"

definition RWLOCK_READ_LOCK :: "rwlock \<Rightarrow> rwlock res" where
  "RWLOCK_READ_LOCK l = (case RWLOCK_READ_TRYLOCK l of None \<Rightarrow> Inl Blocked | Some l' \<Rightarrow> Inr l')"

definition RWLOCK_WRITE_LOCK :: "rwlock \<Rightarrow> rwlock res" where
  "RWLOCK_WRITE_LOCK l = (case RWLOCK_WRITE_TRYLOCK l of None \<Rightarrow> Inl Blocked | Some l' \<Rightarrow> Inr l')"

definition RWLOCK_UNLOCK :: "rwlock \<Rightarrow> rwlock res" where
  "RWLOCK_UNLOCK l =
     (if writer l then Inr (l\<lparr>writer := False\<rparr>)
      else if 0 < readers l then Inr (l\<lparr>readers := readers l - 1\<rparr>)
      else Inl (UB ''unlock of an unlocked rwlock''))"

text \<open>
  POSIX leaves the destruction of a held lock undefined; the \<^verbatim>\<open>pthread_rwlock_destroy\<close> of the GNU
  C library returns 0 for every lock and does nothing to it, which is what the model takes.
  The lock is initialised again by \<^verbatim>\<open>alloc_idx_entry\<close> before its next use.
\<close>

definition RWLOCK_DESTROY :: "rwlock \<Rightarrow> rwlock res" where
  "RWLOCK_DESTROY l = Inr l"

lemmas rwlock_defs = RWLOCK_INIT_def RWLOCK_READ_TRYLOCK_def RWLOCK_WRITE_TRYLOCK_def
  RWLOCK_READ_LOCK_def RWLOCK_WRITE_LOCK_def RWLOCK_UNLOCK_def rwlock_ok_def

subsection \<open>The contract of a try-lock\<close>

text \<open>
  What \<^verbatim>\<open>LOCK_ENTRIES\<close> and \<^verbatim>\<open>UNLOCK_ENTRIES\<close> of mmio.c rely on: releasing undoes a
  successful acquisition. The lemma lifts this to a table of locks: acquiring one lock of the
  table and releasing it again restores the table.
\<close>

locale try_lock =
  fixes acquire :: "'l \<Rightarrow> 'l option" and release :: "'l \<Rightarrow> 'l res" and ok :: "'l \<Rightarrow> bool"
  assumes acquire_release: "ok l \<Longrightarrow> acquire l = Some l' \<Longrightarrow> release l' = Inr l"
    and acquire_ok: "ok l \<Longrightarrow> acquire l = Some l' \<Longrightarrow> ok l'"
begin

lemma table_roundtrip:
  assumes "ok (f i)" and "acquire (f i) = Some l'"
  shows "bindE (release ((f(i := l')) i)) (\<lambda>l. Inr ((f(i := l'))(i := l))) = Inr f"
  using acquire_release [OF assms] by simp

end

interpretation rd: try_lock RWLOCK_READ_TRYLOCK RWLOCK_UNLOCK rwlock_ok
  by unfold_locales (auto simp: rwlock_defs split: if_splits)

interpretation wr: try_lock RWLOCK_WRITE_TRYLOCK RWLOCK_UNLOCK rwlock_ok
  by unfold_locales (auto simp: rwlock_defs split: if_splits)

subsection \<open>Mutexes\<close>

text \<open>
  A POSIX mutex of the default kind is its owner, if it has one. Locking a mutex that is held,
  by whomever, waits; unlocking one that the thread does not hold is undefined.
\<close>

type_synonym mutex = "nat option"

definition MUTEX_LOCK :: "nat \<Rightarrow> mutex \<Rightarrow> mutex res" where
  "MUTEX_LOCK self m = (if m = None then Inr (Some self) else Inl Blocked)"

definition MUTEX_UNLOCK :: "nat \<Rightarrow> mutex \<Rightarrow> mutex res" where
  "MUTEX_UNLOCK self m = (if m = Some self then Inr None else Inl (UB ''unlock of a mutex not held''))"

lemma MUTEX_LOCK_Inr: "MUTEX_LOCK self m = Inr m' \<longleftrightarrow> m = None \<and> m' = Some self"
  by (auto simp: MUTEX_LOCK_def)

lemma MUTEX_UNLOCK_Inr: "MUTEX_UNLOCK self m = Inr m' \<longleftrightarrow> m = Some self \<and> m' = None"
  by (auto simp: MUTEX_UNLOCK_def)

interpretation mx: try_lock "\<lambda>m. if m = None then Some (Some self) else None" "MUTEX_UNLOCK self" "\<lambda>m. True" for self
  by unfold_locales (auto simp: MUTEX_UNLOCK_def split: if_splits)

end
