(* ===== verification/Layout.thy ===== *)
theory Layout
  imports Locks
begin

text \<open>
  The constants of src/src/config.h, the address layout of src/src/radixlog.h (shifts, log
  sizes, table indices) and the index entry with its packed 64-bit field.
\<close>

subsection \<open>config.h\<close>

definition MAX_FD :: nat where "MAX_FD = 1024"
definition FILE_HASH_SIZE :: nat where "FILE_HASH_SIZE = MAX_FD"
definition NR_MMIOS :: nat where "NR_MMIOS = MAX_FD * 2"
definition BASIC_MMAP_SIZE :: nat where "BASIC_MMAP_SIZE = 2 ^ 26"
definition LOG_FILE_SIZE :: nat where "LOG_FILE_SIZE = 2 ^ 32"
definition NR_ALLOC_TABLES :: nat where "NR_ALLOC_TABLES = 2 ^ 19"
definition NR_NODE_FILL :: nat where "NR_NODE_FILL = 1024"
definition NR_MMIO_FILL :: nat where "NR_MMIO_FILL = 50"
definition DEFAULT_MMAP_SIZE :: nat where "DEFAULT_MMAP_SIZE = 2 ^ 20"
definition HYBRID_WRITE_RATIO :: nat where "HYBRID_WRITE_RATIO = 40"

text \<open>\<^verbatim>\<open>log_size_t\<close> is used as a number throughout: \<^verbatim>\<open>LOG_4K\<close> is 0, \<^verbatim>\<open>LOG_2M\<close> is 9.\<close>

type_synonym log_size_t = nat

definition LOG_4K :: log_size_t where "LOG_4K = 0"
definition NR_LOG_SIZES :: log_size_t where "NR_LOG_SIZES = 10"

datatype policy = UNDO | REDO

definition DEFAULT_POLICY :: policy where "DEFAULT_POLICY = UNDO"

subsection \<open>radixlog.h: shifts and sizes\<close>

definition PTRS_PER_TABLE :: nat where "PTRS_PER_TABLE = 2 ^ 9"
definition PAGE_SHIFT :: nat where "PAGE_SHIFT = 12"
definition LGD_SHIFT :: nat where "LGD_SHIFT = 39"
definition LUD_SHIFT :: nat where "LUD_SHIFT = 30"
definition LMD_SHIFT :: nat where "LMD_SHIFT = 21"

definition LOG_SHIFT :: "log_size_t \<Rightarrow> nat" where
  "LOG_SHIFT s = nat (int LMD_SHIFT - ((int LMD_SHIFT - int PAGE_SHIFT) - int s))"

definition LOG_SIZE :: "log_size_t \<Rightarrow> nat" where
  "LOG_SIZE s = 2 ^ LOG_SHIFT s"

text \<open>The complement is taken in \<^verbatim>\<open>unsigned long\<close>.\<close>

definition LOG_MASK :: "log_size_t \<Rightarrow> nat" where
  "LOG_MASK s = 2 ^ 64 - 1 - (LOG_SIZE s - 1)"

text \<open>
  \<^verbatim>\<open>NR_ENTRIES(s)\<close> shifts by \<^verbatim>\<open>LMD_SHIFT - LOG_SHIFT(s)\<close>, which is defined for the ten log
  sizes only: for \<^verbatim>\<open>NR_LOG_SIZES\<close>, the mark of a table without a log size, it would shift by
  a negative amount.
\<close>

definition nr_entries_defined :: "log_size_t \<Rightarrow> bool" where
  "nr_entries_defined s \<longleftrightarrow> LOG_SHIFT s \<le> LMD_SHIFT"

definition NR_ENTRIES :: "log_size_t \<Rightarrow> nat" where
  "NR_ENTRIES s = 2 ^ (LMD_SHIFT - LOG_SHIFT s)"

definition TABLE_MASK :: nat where "TABLE_MASK = 2 ^ 27 - 1"

definition LGD_INDEX :: "nat \<Rightarrow> nat" where
  "LGD_INDEX off = drop_bit LGD_SHIFT off AND (PTRS_PER_TABLE - 1)"
definition LUD_INDEX :: "nat \<Rightarrow> nat" where
  "LUD_INDEX off = drop_bit LUD_SHIFT off AND (PTRS_PER_TABLE - 1)"
definition LMD_INDEX :: "nat \<Rightarrow> nat" where
  "LMD_INDEX off = drop_bit LMD_SHIFT off AND (PTRS_PER_TABLE - 1)"
definition TABLE_INDEX :: "log_size_t \<Rightarrow> nat \<Rightarrow> nat" where
  "TABLE_INDEX s off = drop_bit (LOG_SHIFT s) off AND (NR_ENTRIES s - 1)"

definition LOG_OFFSET :: "nat \<Rightarrow> log_size_t \<Rightarrow> nat" where
  "LOG_OFFSET off s = off AND (LOG_SIZE s - 1)"

lemmas [layout_simps] = PTRS_PER_TABLE_def PAGE_SHIFT_def LGD_SHIFT_def LUD_SHIFT_def LMD_SHIFT_def
  NR_LOG_SIZES_def LOG_4K_def TABLE_MASK_def

lemma LOG_SHIFT_eq [layout_simps]: "LOG_SHIFT s = 12 + s"
  by (simp add: LOG_SHIFT_def layout_simps)

lemma LOG_SIZE_eq: "LOG_SIZE s = 2 ^ (12 + s)"
  by (simp add: LOG_SIZE_def LOG_SHIFT_eq)

lemma LOG_SIZE_pos [simp]: "0 < LOG_SIZE s"
  by (simp add: LOG_SIZE_def)

lemma nr_entries_defined_iff: "nr_entries_defined s \<longleftrightarrow> s < NR_LOG_SIZES"
  by (auto simp: nr_entries_defined_def layout_simps)

lemma NR_ENTRIES_LOG_SIZE: "s < NR_LOG_SIZES \<Longrightarrow> NR_ENTRIES s * LOG_SIZE s = 2 ^ 21"
  by (simp add: NR_ENTRIES_def LOG_SIZE_def layout_simps flip: power_add)

lemma LOG_SIZE_le: "s < NR_LOG_SIZES \<Longrightarrow> LOG_SIZE s \<le> 2 ^ 21"
  using power_increasing [of "12 + s" 21 "2::nat"] by (simp add: LOG_SIZE_eq layout_simps)

lemma LOG_OFFSET_mod: "LOG_OFFSET off s = off mod LOG_SIZE s"
  unfolding LOG_OFFSET_def LOG_SIZE_def by (rule and_pow2_minus_1)

lemma LOG_OFFSET_less: "LOG_OFFSET off s < LOG_SIZE s"
  by (simp add: LOG_OFFSET_mod)

lemma LMD_INDEX_eq: "LMD_INDEX off = off div 2 ^ 21 mod 2 ^ 9"
  unfolding LMD_INDEX_def PTRS_PER_TABLE_def and_pow2_minus_1 by (simp add: drop_bit_div LMD_SHIFT_def)

lemma LUD_INDEX_eq: "LUD_INDEX off = off div 2 ^ 30 mod 2 ^ 9"
  unfolding LUD_INDEX_def PTRS_PER_TABLE_def and_pow2_minus_1 by (simp add: drop_bit_div LUD_SHIFT_def)

lemma LGD_INDEX_eq: "LGD_INDEX off = off div 2 ^ 39 mod 2 ^ 9"
  unfolding LGD_INDEX_def PTRS_PER_TABLE_def and_pow2_minus_1 by (simp add: drop_bit_div LGD_SHIFT_def)

lemma TABLE_INDEX_eq:
  assumes "s < NR_LOG_SIZES"
  shows "TABLE_INDEX s off = off mod 2 ^ 21 div LOG_SIZE s"
proof -
  have "TABLE_INDEX s off = off div LOG_SIZE s mod NR_ENTRIES s"
    unfolding TABLE_INDEX_def NR_ENTRIES_def and_pow2_minus_1 by (simp add: drop_bit_div LOG_SIZE_def)
  also have "\<dots> = off mod (LOG_SIZE s * NR_ENTRIES s) div LOG_SIZE s"
    by (simp add: mod_mult2_eq)
  also have "LOG_SIZE s * NR_ENTRIES s = 2 ^ 21"
    using NR_ENTRIES_LOG_SIZE [OF assms] by (simp add: mult.commute)
  finally show ?thesis .
qed

lemma TABLE_INDEX_less: "s < NR_LOG_SIZES \<Longrightarrow> TABLE_INDEX s off < NR_ENTRIES s"
proof -
  assume s: "s < NR_LOG_SIZES"
  have "off mod 2 ^ 21 < NR_ENTRIES s * LOG_SIZE s" using NR_ENTRIES_LOG_SIZE [OF s] by simp
  then show ?thesis using s by (simp add: TABLE_INDEX_eq less_mult_imp_div_less)
qed

lemma and_LOG_MASK:
  assumes "a < 2 ^ 64" and "s < NR_LOG_SIZES"
  shows "a AND LOG_MASK s = a - a mod LOG_SIZE s"
proof -
  let ?k = "LOG_SHIFT s"
  have k: "?k \<le> 64" using assms(2) by (simp add: layout_simps)
  have m: "LOG_MASK s = push_bit ?k (mask (64 - ?k) :: nat)"
  proof -
    have "LOG_MASK s = 2 ^ 64 - 2 ^ ?k" by (simp add: LOG_MASK_def LOG_SIZE_def)
    also have "\<dots> = 2 ^ ?k * (2 ^ (64 - ?k) - 1)" using k by (simp add: diff_mult_distrib2 flip: power_add)
    finally show ?thesis by (simp add: push_bit_eq_mult mask_eq_exp_minus_1 mult.commute)
  qed
  have "a AND LOG_MASK s = push_bit ?k (drop_bit ?k a)"
  proof (rule bit_eqI)
    fix n
    have "\<not> bit a n" if "64 \<le> n"
      using that assms(1) by (metis bit_take_bit_iff linorder_not_less take_bit_nat_eq_self)
    then show "bit (a AND LOG_MASK s) n = bit (push_bit ?k (drop_bit ?k a)) n"
      unfolding m using k by (cases "64 \<le> n") (auto simp: bit_simps intro: diff_less_mono)
  qed
  also have "\<dots> = a - a mod LOG_SIZE s"
    by (simp add: push_bit_eq_mult drop_bit_eq_div LOG_SIZE_def minus_mod_eq_div_mult)
  finally show ?thesis .
qed

subsection \<open>The packed field of an index entry\<close>

text \<open>
  \<^verbatim>\<open>epoch : 20, offset : 21, len : 22, policy : 1\<close> in one \<^verbatim>\<open>unsigned long\<close> (\<^verbatim>\<open>united\<close>), from
  the least significant bit up. A field is read by \<open>bf_get\<close>; a store keeps the low bits of
  the value (\<open>bf_set\<close>).
\<close>

definition bf_get :: "nat \<Rightarrow> nat \<Rightarrow> 64 word \<Rightarrow> nat" where
  "bf_get pos w u = unat (take_bit w (drop_bit pos u))"

definition bf_set :: "nat \<Rightarrow> nat \<Rightarrow> nat \<Rightarrow> 64 word \<Rightarrow> 64 word" where
  "bf_set pos w v u = (u AND NOT (push_bit pos (mask w))) OR push_bit pos (take_bit w (of_nat v))"

lemma bf_get_set_same: "pos + w \<le> 64 \<Longrightarrow> bf_get pos w (bf_set pos w v u) = v mod 2 ^ w"
proof -
  assume w: "pos + w \<le> 64"
  have "take_bit w (drop_bit pos (bf_set pos w v u)) = take_bit w (of_nat v)"
    by (rule bit_eqI) (use w in \<open>auto simp: bf_set_def bit_simps\<close>)
  moreover have "unat (take_bit w (of_nat v :: 64 word)) = take_bit w v"
    using w by (simp add: unsigned_take_bit_eq unsigned_of_nat min_absorb1)
  ultimately show ?thesis by (simp add: bf_get_def) (simp add: take_bit_eq_mod)
qed

lemma bf_get_set_other:
  assumes "pos + w \<le> pos' \<or> pos' + w' \<le> pos" and "pos + w \<le> 64" and "pos' + w' \<le> 64"
  shows "bf_get pos' w' (bf_set pos w v u) = bf_get pos' w' u"
proof -
  have "take_bit w' (drop_bit pos' (bf_set pos w v u)) = take_bit w' (drop_bit pos' u)"
    by (rule bit_eqI) (use assms in \<open>auto simp: bf_set_def bit_simps\<close>)
  then show ?thesis by (simp add: bf_get_def)
qed

lemma bf_get_less: "pos + w \<le> 64 \<Longrightarrow> bf_get pos w u < 2 ^ w"
  by (simp add: bf_get_def unsigned_take_bit_eq take_bit_nat_less_exp)

record idx_entry =
  united :: "64 word"
  log :: addr
  dst :: addr
  rwlockp :: rwlock
  log_size :: log_size_t

definition e_epoch :: "idx_entry \<Rightarrow> nat" where "e_epoch e = bf_get 0 20 (united e)"
definition e_offset :: "idx_entry \<Rightarrow> nat" where "e_offset e = bf_get 20 21 (united e)"
definition e_len :: "idx_entry \<Rightarrow> nat" where "e_len e = bf_get 41 22 (united e)"
definition e_policy :: "idx_entry \<Rightarrow> policy" where
  "e_policy e = (if bf_get 63 1 (united e) = 1 then REDO else UNDO)"

definition set_epoch :: "nat \<Rightarrow> idx_entry \<Rightarrow> idx_entry" where
  "set_epoch v e = e\<lparr>united := bf_set 0 20 v (united e)\<rparr>"
definition set_offset :: "nat \<Rightarrow> idx_entry \<Rightarrow> idx_entry" where
  "set_offset v e = e\<lparr>united := bf_set 20 21 v (united e)\<rparr>"
definition set_len :: "nat \<Rightarrow> idx_entry \<Rightarrow> idx_entry" where
  "set_len v e = e\<lparr>united := bf_set 41 22 v (united e)\<rparr>"
definition set_policy :: "policy \<Rightarrow> idx_entry \<Rightarrow> idx_entry" where
  "set_policy v e = e\<lparr>united := bf_set 63 1 (if v = REDO then 1 else 0) (united e)\<rparr>"

lemma e_epoch_set [simp]:
  "e_epoch (set_epoch v e) = v mod 2 ^ 20" "e_epoch (set_offset v e) = e_epoch e"
  "e_epoch (set_len v e) = e_epoch e" "e_epoch (set_policy q e) = e_epoch e"
  by (simp_all add: e_epoch_def set_epoch_def set_offset_def set_len_def set_policy_def
      bf_get_set_same bf_get_set_other)

lemma e_offset_set [simp]:
  "e_offset (set_epoch v e) = e_offset e" "e_offset (set_offset v e) = v mod 2 ^ 21"
  "e_offset (set_len v e) = e_offset e" "e_offset (set_policy q e) = e_offset e"
  by (simp_all add: e_offset_def set_epoch_def set_offset_def set_len_def set_policy_def
      bf_get_set_same bf_get_set_other)

lemma e_len_set [simp]:
  "e_len (set_epoch v e) = e_len e" "e_len (set_offset v e) = e_len e"
  "e_len (set_len v e) = v mod 2 ^ 22" "e_len (set_policy q e) = e_len e"
  by (simp_all add: e_len_def set_epoch_def set_offset_def set_len_def set_policy_def
      bf_get_set_same bf_get_set_other)

lemma e_policy_set [simp]:
  "e_policy (set_epoch v e) = e_policy e" "e_policy (set_offset v e) = e_policy e"
  "e_policy (set_len v e) = e_policy e" "e_policy (set_policy q e) = q"
  using policy.exhaust [of q]
  by (auto simp: e_policy_def set_epoch_def set_offset_def set_len_def set_policy_def
      bf_get_set_same bf_get_set_other)

lemma idx_sel_set [simp]:
  "log (set_epoch v e) = log e" "log (set_offset v e) = log e" "log (set_len v e) = log e"
  "log (set_policy q e) = log e"
  "dst (set_epoch v e) = dst e" "dst (set_offset v e) = dst e" "dst (set_len v e) = dst e"
  "dst (set_policy q e) = dst e"
  "rwlockp (set_epoch v e) = rwlockp e" "rwlockp (set_offset v e) = rwlockp e"
  "rwlockp (set_len v e) = rwlockp e" "rwlockp (set_policy q e) = rwlockp e"
  "log_size (set_epoch v e) = log_size e" "log_size (set_offset v e) = log_size e"
  "log_size (set_len v e) = log_size e" "log_size (set_policy q e) = log_size e"
  by (simp_all add: set_epoch_def set_offset_def set_len_def set_policy_def)

lemma e_fields_update [simp]:
  "e_epoch (e\<lparr>log := a\<rparr>) = e_epoch e" "e_epoch (e\<lparr>dst := a\<rparr>) = e_epoch e"
  "e_epoch (e\<lparr>rwlockp := r\<rparr>) = e_epoch e" "e_epoch (e\<lparr>log_size := s\<rparr>) = e_epoch e"
  "e_offset (e\<lparr>log := a\<rparr>) = e_offset e" "e_offset (e\<lparr>dst := a\<rparr>) = e_offset e"
  "e_offset (e\<lparr>rwlockp := r\<rparr>) = e_offset e" "e_offset (e\<lparr>log_size := s\<rparr>) = e_offset e"
  "e_len (e\<lparr>log := a\<rparr>) = e_len e" "e_len (e\<lparr>dst := a\<rparr>) = e_len e"
  "e_len (e\<lparr>rwlockp := r\<rparr>) = e_len e" "e_len (e\<lparr>log_size := s\<rparr>) = e_len e"
  "e_policy (e\<lparr>log := a\<rparr>) = e_policy e" "e_policy (e\<lparr>dst := a\<rparr>) = e_policy e"
  "e_policy (e\<lparr>rwlockp := r\<rparr>) = e_policy e" "e_policy (e\<lparr>log_size := s\<rparr>) = e_policy e"
  by (simp_all add: e_epoch_def e_offset_def e_len_def e_policy_def)

lemma e_fields_zero [simp]:
  "e_epoch (e\<lparr>united := 0\<rparr>) = 0" "e_offset (e\<lparr>united := 0\<rparr>) = 0" "e_len (e\<lparr>united := 0\<rparr>) = 0"
  "e_policy (e\<lparr>united := 0\<rparr>) = UNDO"
  by (simp_all add: e_epoch_def e_offset_def e_len_def e_policy_def bf_get_def)

subsection \<open>The layout of the word\<close>

lemma bf_get_div: "bf_get pos w u = unat u div 2 ^ pos mod 2 ^ w"
proof -
  have "take_bit 64 (unat u) = unat u" using unsigned_less [of u] by (intro take_bit_nat_eq_self) simp
  then have "bf_get pos w u = take_bit w (drop_bit pos (unat u))"
    by (simp only: bf_get_def unsigned_take_bit_eq unsigned_drop_bit_eq) simp
  then show ?thesis by (simp only: take_bit_eq_mod drop_bit_eq_div)
qed

lemma idx_entry_decoded:
  "unat (united e) = e_epoch e + 2 ^ 20 * e_offset e + 2 ^ 41 * e_len e + 2 ^ 63 * (if e_policy e = REDO then 1 else 0)"
proof -
  let ?u = "unat (united e)"
  have split: "u = u mod 2 ^ a + 2 ^ a * (u div 2 ^ a)" for u a :: nat by simp
  have "?u div 2 ^ 63 < 2" using unsigned_less [of "united e", where 'a = nat] by (simp add: less_mult_imp_div_less)
  then have p: "?u div 2 ^ 63 = (if e_policy e = REDO then 1 else 0)" by (auto simp: e_policy_def bf_get_div)
  have "?u = e_epoch e + 2 ^ 20 * (?u div 2 ^ 20)" using split [of ?u 20] by (simp add: e_epoch_def bf_get_div)
  also have "?u div 2 ^ 20 = e_offset e + 2 ^ 21 * (?u div 2 ^ 41)"
    using split [of "?u div 2 ^ 20" 21] by (simp add: e_offset_def bf_get_div div_mult2_eq [symmetric])
  also have "?u div 2 ^ 41 = e_len e + 2 ^ 22 * (?u div 2 ^ 63)"
    using split [of "?u div 2 ^ 41" 22] by (simp add: e_len_def bf_get_div div_mult2_eq [symmetric])
  finally show ?thesis unfolding p by (simp add: algebra_simps)
qed

text \<open>
  C23: The four bit fields of an index entry fill the 64-bit word \<^verbatim>\<open>united\<close>: 20 bits of epoch, 21
  of offset, 22 of length and one of policy, in this order from the least significant bit,
  with no bit shared and none left over. The word is determined by the fields, each field is
  below its width, and storing all four leaves exactly their low bits, whatever the word held.
\<close>

theorem idx_entry_packed:
  "unat (united e) = e_epoch e + 2 ^ 20 * e_offset e + 2 ^ 41 * e_len e + 2 ^ 63 * (if e_policy e = REDO then 1 else 0) \<and>
   e_epoch e < 2 ^ 20 \<and> e_offset e < 2 ^ 21 \<and> e_len e < 2 ^ 22 \<and>
   set_policy p (set_len l (set_offset off (set_epoch ep e))) =
     e\<lparr>united := of_nat (ep mod 2 ^ 20 + 2 ^ 20 * (off mod 2 ^ 21) + 2 ^ 41 * (l mod 2 ^ 22) + 2 ^ 63 * (if p = REDO then 1 else 0))\<rparr>"
proof -
  let ?e = "set_policy p (set_len l (set_offset off (set_epoch ep e)))"
  have "united ?e = of_nat (unat (united ?e))" by simp
  also have "unat (united ?e) = ep mod 2 ^ 20 + 2 ^ 20 * (off mod 2 ^ 21) + 2 ^ 41 * (l mod 2 ^ 22) + 2 ^ 63 * (if p = REDO then 1 else 0)"
    unfolding idx_entry_decoded by simp
  finally have "united ?e = of_nat (ep mod 2 ^ 20 + 2 ^ 20 * (off mod 2 ^ 21) + 2 ^ 41 * (l mod 2 ^ 22) + 2 ^ 63 * (if p = REDO then 1 else 0))" .
  moreover have "?e = e\<lparr>united := united ?e\<rparr>" by (simp add: set_policy_def set_len_def set_offset_def set_epoch_def)
  ultimately show ?thesis
    using idx_entry_decoded [of e] bf_get_less [of 0 20 "united e"] bf_get_less [of 20 21 "united e"] bf_get_less [of 41 22 "united e"]
    unfolding e_epoch_def e_offset_def e_len_def by simp
qed

end
