(* ===== verification/Flist.thy ===== *)
theory Flist
  imports Slist
begin

text \<open>
  The free lists of src/src/allocator.c and allocator.h: lists of \<^verbatim>\<open>fnode_t\<close> with a second,
  sparser list (the skip list) through the same nodes that marks where each batch of
  \<^verbatim>\<open>skip_unit\<close> nodes ends, so that a whole batch moves between the global list and a
  thread's provider or collector in constant time.

  Nodes are values (the address \<^verbatim>\<open>malloc\<close> returned and the object pointer), and the lists
  \<open>list_head\<close> and \<open>skip_head\<close> are lists of nodes; \<open>cut_splice_implements\<close> connects
  this view with the pointer operations of slist.h. A mutex that an operation takes and
  releases before it returns makes the operation one step, and is not part of the state.
\<close>

record fnode =
  node_addr :: addr
  node_ptr :: addr

record flist =
  list_head :: "fnode list"
  skip_head :: "fnode list"
  list_cnt :: nat
  skip_cnt :: nat
  skip_unit :: nat

definition MAX_SKIP_NODES :: nat where
  "MAX_SKIP_NODES = 2"

subsection \<open>Operations on one list\<close>

definition alloc_flist :: "nat \<Rightarrow> flist" where
  "alloc_flist unit =
     \<lparr>list_head = [], skip_head = [], list_cnt = 0, skip_cnt = 0, skip_unit = unit\<rparr>"

text \<open>
  \<^verbatim>\<open>slist_cut_splice(&head, &node, &new_head)\<close> on lists: what is left of the first list, and
  the second list with the cut prefix in front.
\<close>

definition cut_splice :: "'a list \<Rightarrow> 'a \<Rightarrow> 'a list \<Rightarrow> 'a list \<times> 'a list" where
  "cut_splice xs n zs =
     (tl (dropWhile (\<lambda>x. x \<noteq> n) xs), takeWhile (\<lambda>x. x \<noteq> n) xs @ n # zs)"

text \<open>\<^verbatim>\<open>%\<close> by a zero \<^verbatim>\<open>skip_unit\<close> is undefined.\<close>

definition put_global :: "fnode \<Rightarrow> flist \<Rightarrow> flist res" where
  "put_global node global =
     (if skip_unit global = 0 then Inl (UB ''division by zero'')
      else
        let global1 =
              (if list_cnt global mod skip_unit global = 0
               then global\<lparr>skip_head := node # skip_head global,
                           skip_cnt := skip_cnt global + 1\<rparr>
               else global)
        in Inr (global1\<lparr>list_head := node # list_head global1,
                        list_cnt := list_cnt global1 + 1\<rparr>))"

definition fill_local_provider :: "flist \<Rightarrow> flist \<Rightarrow> (flist \<times> flist) res" where
  "fill_local_provider local_provider global =
     (case skip_head global of
        [] \<Rightarrow> Inl (Exit ''global->skip_list is empty'')
      | node # rest \<Rightarrow>
          (let (gl, pl) = cut_splice (list_head global) node (list_head local_provider)
           in Inr (local_provider\<lparr>list_head := pl\<rparr>,
                   global\<lparr>list_head := gl, skip_head := rest\<rparr>)))"

text \<open>The batch at the front of the collector goes to the global list.\<close>

definition flush_batch :: "flist \<Rightarrow> flist \<Rightarrow> (flist \<times> flist) res" where
  "flush_batch collector global =
     (case skip_head collector of
        [] \<Rightarrow> Inl (UB ''collector->skip_head is empty'')
      | skip_node # rest \<Rightarrow>
          (let (cl, gl) = cut_splice (list_head collector) skip_node (list_head global);
               count = skip_unit collector
           in Inr (collector\<lparr>list_head := cl, skip_head := rest,
                             list_cnt := ul_sub (list_cnt collector) count,
                             skip_cnt := ul_sub (skip_cnt collector) 1\<rparr>,
                   global\<lparr>list_head := gl, skip_head := skip_node # skip_head global,
                          list_cnt := list_cnt global + count,
                          skip_cnt := skip_cnt global + 1\<rparr>)))"

definition put_local_collector :: "fnode \<Rightarrow> flist \<Rightarrow> flist \<Rightarrow> (flist \<times> flist) res" where
  "put_local_collector node collector global =
     (if skip_unit collector = 0 then Inl (UB ''division by zero'')
      else
        bindE
          (if list_cnt collector mod skip_unit collector = 0 then
             bindE (if MAX_SKIP_NODES \<le> skip_cnt collector
                    then flush_batch collector global else Inr (collector, global))
               (\<lambda>(collector, global).
                  Inr (collector\<lparr>skip_head := node # skip_head collector,
                                 skip_cnt := skip_cnt collector + 1\<rparr>, global))
           else Inr (collector, global))
          (\<lambda>(collector, global).
             Inr (collector\<lparr>list_head := node # list_head collector,
                            list_cnt := list_cnt collector + 1\<rparr>, global)))"

subsection \<open>A pool: one global list, and a provider and a collector per thread\<close>

record pool =
  global :: flist
  provider :: "tid \<Rightarrow> flist option"
  collector :: "tid \<Rightarrow> flist option"
  next_node :: addr

text \<open>\<^verbatim>\<open>get_fnode\<close>: the node \<^verbatim>\<open>malloc\<close> returns, with \<^verbatim>\<open>ptr\<close> stored in it by the macros.\<close>

definition get_fnode :: "addr \<Rightarrow> pool \<Rightarrow> fnode \<times> pool" where
  "get_fnode obj p = (\<lparr>node_addr = next_node p, node_ptr = obj\<rparr>, p\<lparr>next_node := next_node p + 1\<rparr>)"

definition PUSH_GLOBAL :: "addr \<Rightarrow> pool \<Rightarrow> pool res" where
  "PUSH_GLOBAL obj p =
     (let (node, p1) = get_fnode obj p
      in bindE (put_global node (global p1)) (\<lambda>g. Inr (p1\<lparr>global := g\<rparr>)))"

definition refill :: "flist \<Rightarrow> flist \<Rightarrow> (flist \<times> flist) res" where
  "refill pr g = (if list_head pr = [] then fill_local_provider pr g else Inr (pr, g))"

definition POP_PROVIDER :: "tid \<Rightarrow> pool \<Rightarrow> (addr \<times> pool) res" where
  "POP_PROVIDER t p =
     (let pr = (case provider p t of None \<Rightarrow> alloc_flist 0 | Some pr \<Rightarrow> pr) in
      bindE (refill pr (global p))
        (\<lambda>(pr, g).
           case list_head pr of
             [] \<Rightarrow> Inl (UB ''slist_pop: NULL'')
           | node # rest \<Rightarrow>
               Inr (node_ptr node,
                    p\<lparr>global := g, provider := (provider p)(t := Some (pr\<lparr>list_head := rest\<rparr>))\<rparr>)))"

definition PUSH_COLLECTOR :: "tid \<Rightarrow> addr \<Rightarrow> pool \<Rightarrow> pool res" where
  "PUSH_COLLECTOR t obj p =
     (let c = (case collector p t of None \<Rightarrow> alloc_flist (skip_unit (global p)) | Some c \<Rightarrow> c);
          (node, p1) = get_fnode obj p
      in bindE (put_local_collector node c (global p1))
           (\<lambda>(c, g). Inr (p1\<lparr>global := g, collector := (collector p)(t := Some c)\<rparr>)))"

text \<open>
  \<^verbatim>\<open>create_global_list\<close>: \<open>count\<close> objects of \<open>sz\<close> bytes from \<open>addr\<close> on, pushed in
  order. The initialisation of each object (\<^verbatim>\<open>init_obj\<close>) is left to the caller's heap.
\<close>

definition create_global_list :: "addr \<Rightarrow> nat \<Rightarrow> nat \<Rightarrow> pool \<Rightarrow> pool res" where
  "create_global_list base sz count p =
     foldE (\<lambda>i p. PUSH_GLOBAL (base + i * sz) p) [0..<count] p"

definition empty_pool :: "nat \<Rightarrow> pool" where
  "empty_pool unit =
     \<lparr>global = alloc_flist unit, provider = (\<lambda>_. None), collector = (\<lambda>_. None), next_node = 0\<rparr>"

subsection \<open>Batches\<close>

text \<open>
  \<open>full_batches u xs sk\<close>: \<open>xs\<close> is a sequence of batches of exactly \<open>u\<close> elements, and
  \<open>sk\<close> lists the last element of each. \<open>batched\<close> allows a shorter batch in front, which
  is the one being filled.
\<close>

fun full_batches :: "nat \<Rightarrow> 'a list \<Rightarrow> 'a list \<Rightarrow> bool" where
  "full_batches u xs [] \<longleftrightarrow> xs = []"
| "full_batches u xs (s # ss) \<longleftrightarrow>
     0 < u \<and> u \<le> length xs \<and> xs ! (u - 1) = s \<and> full_batches u (drop u xs) ss"

definition first_batch :: "nat \<Rightarrow> nat \<Rightarrow> nat" where
  "first_batch u n = (if n mod u = 0 then u else n mod u)"

definition batched :: "nat \<Rightarrow> 'a list \<Rightarrow> 'a list \<Rightarrow> bool" where
  "batched u xs sk \<longleftrightarrow> (xs = [] \<and> sk = []) \<or>
     (xs \<noteq> [] \<and> (\<exists>s ss. sk = s # ss \<and> xs ! (first_batch u (length xs) - 1) = s \<and>
        full_batches u (drop (first_batch u (length xs)) xs) ss))"

lemma full_batches_length: "full_batches u xs sk \<Longrightarrow> length xs = u * length sk"
proof (induction sk arbitrary: xs)
  case Nil
  then show ?case by simp
next
  case (Cons s sk)
  have "length (drop u xs) = u * length sk"
    by (rule Cons.IH) (use Cons.prems in simp)
  then show ?case using Cons.prems by auto
qed

lemma batched_full:
  assumes "0 < u" and "length xs mod u = 0"
  shows "batched u xs sk = full_batches u xs sk"
proof (cases "xs = []")
  case True
  then show ?thesis using assms(1) by (cases sk) (auto simp: batched_def)
next
  case False
  have "u \<le> length xs" using assms False by (metis length_0_conv mod_less not_le)
  then show ?thesis using assms False
    by (cases sk) (auto simp: batched_def first_batch_def)
qed

lemma full_batches_prepend:
  assumes "0 < u" and "length b = u" and "full_batches u xs sk"
  shows "full_batches u (b @ xs) (last b # sk)"
proof -
  have "b \<noteq> []" using assms by auto
  then show ?thesis using assms by (simp add: nth_append last_conv_nth)
qed

lemma batched_push_new:
  assumes "0 < u" and "length xs mod u = 0" and "batched u xs sk"
  shows "batched u (x # xs) (x # sk)"
proof -
  have "full_batches u xs sk" using assms by (simp add: batched_full)
  moreover have "first_batch u (Suc (length xs)) = 1"
    using assms by (auto simp: first_batch_def mod_Suc)
  ultimately show ?thesis by (simp add: batched_def)
qed

lemma batched_push_old:
  assumes "0 < u" and "length xs mod u \<noteq> 0" and "batched u xs sk"
  shows "batched u (x # xs) sk"
proof -
  let ?k = "length xs mod u"
  have xs: "xs \<noteq> []" using assms(2) by auto
  have k: "?k < u" using assms(1) by simp
  obtain s ss where sk: "sk = s # ss" "xs ! (?k - 1) = s" "full_batches u (drop ?k xs) ss"
    using assms xs by (auto simp: batched_def first_batch_def)
  have "first_batch u (length (x # xs)) = Suc ?k"
    using assms k by (auto simp: first_batch_def mod_Suc)
  then show ?thesis using sk assms(2) by (simp add: batched_def nth_Cons')
qed

lemma cut_splice_eq [simp]: "n \<notin> set xs \<Longrightarrow> cut_splice (xs @ n # ys) n zs = (ys, xs @ n # zs)"
  by (simp add: cut_splice_def takeWhile_append2 dropWhile_append2)
     (metis (mono_tags, lifting) dropWhile_append2 dropWhile.simps(2) list.sel(3) takeWhile_append2
        takeWhile.simps(2) append_Nil2)

text \<open>The list view of a cut is what the pointer operation of slist.h does.\<close>

lemma cut_splice_implements:
  assumes "Slist.slist h head xs" and "Slist.slist h new_head zs" and "n \<in> set xs"
    and "set (head # xs) \<inter> set (new_head # zs) = {}"
    and "cut_splice xs n zs = (xs', zs')"
  shows "Slist.slist (slist_cut_splice head n new_head h) head xs'"
    and "Slist.slist (slist_cut_splice head n new_head h) new_head zs'"
proof -
  obtain ys ws where xs: "xs = ys @ n # ws" "n \<notin> set ys"
    using assms(3) by (metis split_list_first)
  then have "xs' = ws" "zs' = ys @ n # zs" using assms(5) by auto
  then show "Slist.slist (slist_cut_splice head n new_head h) head xs'"
    and "Slist.slist (slist_cut_splice head n new_head h) new_head zs'"
    using slist_cut_splice_result [of h head ys n ws new_head zs] assms xs by auto
qed

text \<open>Cutting at the first batch end takes the first batch.\<close>

lemma cut_first_batch:
  assumes "full_batches u xs (s # sk)" and "distinct xs"
  shows "cut_splice xs s zs = (drop u xs, take u xs @ zs)"
proof -
  have u: "0 < u" "u \<le> length xs" "xs ! (u - 1) = s" using assms(1) by auto
  then have t: "take u xs = take (u - 1) xs @ [s]"
    by (metis Suc_diff_1 Suc_le_lessD take_Suc_conv_app_nth)
  have eq: "xs = take (u - 1) xs @ s # drop u xs"
    using t by (metis append.assoc append_Cons append_Nil append_take_drop_id)
  have "s \<notin> set (take (u - 1) xs)" using assms(2) eq
    by (metis distinct_append disjoint_iff list.set_intros(1))
  then have "cut_splice (take (u - 1) xs @ s # drop u xs) s zs = (drop u xs, take (u - 1) xs @ s # zs)"
    by simp
  then show ?thesis using eq t by simp
qed

subsection \<open>The invariant of a pool\<close>

datatype loc = Glob | Prov tid | Coll tid

definition objs :: "flist \<Rightarrow> addr list" where
  "objs f = map node_ptr (list_head f)"

fun objs_at :: "pool \<Rightarrow> loc \<Rightarrow> addr list" where
  "objs_at p Glob = objs (global p)"
| "objs_at p (Prov t) = (case provider p t of None \<Rightarrow> [] | Some f \<Rightarrow> objs f)"
| "objs_at p (Coll t) = (case collector p t of None \<Rightarrow> [] | Some f \<Rightarrow> objs f)"

definition avail :: "pool \<Rightarrow> addr set" where
  "avail p = (\<Union>l. set (objs_at p l))"

definition separated :: "('l \<Rightarrow> 'a list) \<Rightarrow> bool" where
  "separated F \<longleftrightarrow> (\<forall>l. distinct (F l)) \<and> (\<forall>l l'. l \<noteq> l' \<longrightarrow> set (F l) \<inter> set (F l') = {})"

definition global_ok :: "flist \<Rightarrow> bool" where
  "global_ok g \<longleftrightarrow> 0 < skip_unit g \<and> skip_unit g < 2 ^ 64 \<and> list_cnt g mod skip_unit g = 0 \<and>
     full_batches (skip_unit g) (list_head g) (skip_head g)"

definition collector_ok :: "nat \<Rightarrow> flist \<Rightarrow> bool" where
  "collector_ok u c \<longleftrightarrow> skip_unit c = u \<and> batched u (list_head c) (skip_head c) \<and>
     list_cnt c = length (list_head c) \<and> skip_cnt c = length (skip_head c) \<and>
     skip_cnt c \<le> MAX_SKIP_NODES"

definition pool_inv :: "pool \<Rightarrow> bool" where
  "pool_inv p \<longleftrightarrow> global_ok (global p) \<and> separated (objs_at p) \<and>
     (\<forall>t c. collector p t = Some c \<longrightarrow> collector_ok (skip_unit (global p)) c)"

lemma separated_move:
  assumes "separated F" and "l1 \<noteq> l2" and "distinct (xs @ ys)"
    and "set (xs @ ys) \<subseteq> set (F l1) \<union> set (F l2)"
  shows "separated (F(l1 := xs, l2 := ys))"
  using assms unfolding separated_def by (auto; blast)

lemma separated_shrink:
  assumes "separated F" and "distinct ys" and "set ys \<subseteq> set (F l)"
  shows "separated (F(l := ys))"
  using assms unfolding separated_def by (auto; blast)

lemma separated_add:
  "separated F \<Longrightarrow> x \<notin> (\<Union>l. set (F l)) \<Longrightarrow> separated (F(l := x # F l))"
  unfolding separated_def by auto

lemma separated_distinct: "separated F \<Longrightarrow> distinct (F l)"
  by (simp add: separated_def)

lemma objs_at_upd:
  "objs_at (p\<lparr>global := g\<rparr>) = (objs_at p)(Glob := objs g)"
  "objs_at (p\<lparr>provider := (provider p)(t := Some f)\<rparr>) = (objs_at p)(Prov t := objs f)"
  "objs_at (p\<lparr>collector := (collector p)(t := Some f)\<rparr>) = (objs_at p)(Coll t := objs f)"
  "objs_at (p\<lparr>next_node := n\<rparr>) = objs_at p"
  by (rule ext, case_tac x; simp)+

lemma distinct_nodes: "distinct (objs f) \<Longrightarrow> distinct (list_head f)"
  by (simp add: objs_def distinct_map)

lemma fill_spec:
  assumes "global_ok g" and "distinct (list_head g)" and "skip_head g \<noteq> []"
    and "list_head pr = []"
  shows "fill_local_provider pr g =
     Inr (pr\<lparr>list_head := take (skip_unit g) (list_head g)\<rparr>,
          g\<lparr>list_head := drop (skip_unit g) (list_head g), skip_head := tl (skip_head g)\<rparr>)"
    and "global_ok (g\<lparr>list_head := drop (skip_unit g) (list_head g), skip_head := tl (skip_head g)\<rparr>)"
    and "take (skip_unit g) (list_head g) \<noteq> []"
proof -
  obtain s ss where s: "skip_head g = s # ss" using assms(3) by (cases "skip_head g") auto
  then have fb: "full_batches (skip_unit g) (list_head g) (s # ss)"
    using assms(1) by (simp add: global_ok_def)
  note cut = cut_first_batch [OF fb assms(2), of "[]"]
  show "fill_local_provider pr g =
     Inr (pr\<lparr>list_head := take (skip_unit g) (list_head g)\<rparr>,
          g\<lparr>list_head := drop (skip_unit g) (list_head g), skip_head := tl (skip_head g)\<rparr>)"
    using cut s assms(4) by (simp add: fill_local_provider_def)
  show "global_ok (g\<lparr>list_head := drop (skip_unit g) (list_head g), skip_head := tl (skip_head g)\<rparr>)"
    using assms(1) fb s by (simp add: global_ok_def)
  show "take (skip_unit g) (list_head g) \<noteq> []" using fb by auto
qed

lemma flush_spec:
  assumes "global_ok g" and "collector_ok (skip_unit g) c" and "distinct (list_head c)"
    and "length (list_head c) mod skip_unit g = 0" and "MAX_SKIP_NODES \<le> skip_cnt c"
  defines "u \<equiv> skip_unit g"
  obtains c' g' where "flush_batch c g = Inr (c', g')"
    and "list_head c' = drop u (list_head c)" and "list_head g' = take u (list_head c) @ list_head g"
    and "global_ok g'" and "skip_unit g' = u"
    and "collector_ok u c'" and "skip_cnt c' < MAX_SKIP_NODES" and "length (list_head c') mod u = 0"
proof -
  have u: "0 < u" "u < 2 ^ 64" using assms(1) by (simp_all add: global_ok_def u_def)
  have fb: "full_batches u (list_head c) (skip_head c)"
    using assms(2,4) u by (simp add: collector_ok_def u_def batched_full)
  have "skip_head c \<noteq> []" using assms(2,5) by (auto simp: collector_ok_def MAX_SKIP_NODES_def)
  then obtain s ss where s: "skip_head c = s # ss" by (cases "skip_head c") auto
  have fb': "full_batches u (list_head c) (s # ss)" using fb s by simp
  have ul: "u \<le> length (list_head c)" using fb' by simp
  have last: "last (take u (list_head c)) = s"
  proof -
    have "take u (list_head c) \<noteq> []" using ul u by auto
    then show ?thesis using fb' u ul by (simp add: last_conv_nth min_absorb2)
  qed
  let ?c = "c\<lparr>list_head := drop u (list_head c), skip_head := ss,
              list_cnt := ul_sub (list_cnt c) u, skip_cnt := ul_sub (skip_cnt c) 1\<rparr>"
  let ?g = "g\<lparr>list_head := take u (list_head c) @ list_head g, skip_head := s # skip_head g,
              list_cnt := list_cnt g + u, skip_cnt := skip_cnt g + 1\<rparr>"
  have len: "length (list_head c) = u * length (s # ss)" using full_batches_length [OF fb'] .
  have small: "length (s # ss) = 2" using assms(2,5) s by (simp add: collector_ok_def MAX_SKIP_NODES_def)
  have uls: "ul_sub (list_cnt c) u = length (list_head c) - u"
    using assms(2) len small u by (simp add: collector_ok_def ul_sub_def)
  have one: "ul_sub (skip_cnt c) 1 = 1"
    using assms(2) s small by (simp add: collector_ok_def ul_sub_def)
  have fbd: "full_batches u (drop u (list_head c)) ss" using fb' by simp
  have modd: "(length (list_head c) - u) mod u = 0" using len by simp
  show ?thesis
  proof (rule that [of ?c ?g])
    show "flush_batch c g = Inr (?c, ?g)"
      using cut_first_batch [OF fb' assms(3), of "list_head g"] assms(2)
      by (simp add: flush_batch_def collector_ok_def s u_def Let_def)
    show "global_ok ?g"
      using assms(1) full_batches_prepend [of u "take u (list_head c)" "list_head g" "skip_head g"]
        u ul last by (simp add: global_ok_def u_def)
    show "collector_ok u ?c"
      using assms(2) fbd uls one u modd small
      by (simp add: collector_ok_def u_def batched_full MAX_SKIP_NODES_def)
  qed (use one modd in \<open>simp_all add: u_def MAX_SKIP_NODES_def\<close>)
qed

lemma put_local_collector_spec:
  assumes g: "global_ok g" and c: "collector_ok (skip_unit g) c" and d: "distinct (list_head c)"
  obtains c' g' k where "put_local_collector n c g = Inr (c', g')"
    and "list_head c' = n # drop k (list_head c)"
    and "list_head g' = take k (list_head c) @ list_head g"
    and "global_ok g'" and "skip_unit g' = skip_unit g" and "collector_ok (skip_unit g) c'"
proof -
  let ?u = "skip_unit g"
  have u: "0 < ?u" "skip_unit c = ?u" "list_cnt c = length (list_head c)"
    using g c by (simp_all add: global_ok_def collector_ok_def)
  show ?thesis
  proof (cases "length (list_head c) mod ?u = 0")
    case False
    let ?c = "c\<lparr>list_head := n # list_head c, list_cnt := list_cnt c + 1\<rparr>"
    have "put_local_collector n c g = Inr (?c, g)"
      using u False by (simp add: put_local_collector_def)
    moreover have "collector_ok ?u ?c"
      using c u False by (auto simp: collector_ok_def intro: batched_push_old)
    ultimately show ?thesis using that [of ?c g 0] g by simp
  next
    case True
    obtain c1 g1 k where 1: "(if MAX_SKIP_NODES \<le> skip_cnt c then flush_batch c g else Inr (c, g)) = Inr (c1, g1)"
      "list_head c1 = drop k (list_head c)" "list_head g1 = take k (list_head c) @ list_head g"
      "global_ok g1" "skip_unit g1 = ?u" "collector_ok ?u c1" "skip_cnt c1 < MAX_SKIP_NODES"
      "length (list_head c1) mod ?u = 0"
    proof (cases "MAX_SKIP_NODES \<le> skip_cnt c")
      case True
      then show ?thesis using flush_spec [OF g c d \<open>length (list_head c) mod ?u = 0\<close>] that by metis
    next
      case False
      then show ?thesis using that [of c g 0] g c \<open>length (list_head c) mod ?u = 0\<close> by simp
    qed
    let ?c = "c1\<lparr>skip_head := n # skip_head c1, skip_cnt := skip_cnt c1 + 1,
                 list_head := n # list_head c1, list_cnt := list_cnt c1 + 1\<rparr>"
    have "put_local_collector n c g = Inr (?c, g1)"
      using u True 1(1) by (simp add: put_local_collector_def)
    moreover have "collector_ok ?u ?c"
      using 1 u by (auto simp: collector_ok_def intro: batched_push_new)
    ultimately show ?thesis using that [of ?c g1 k] 1 by simp
  qed
qed

lemma collector_ok_new: "collector_ok u (alloc_flist u)"
  by (simp add: collector_ok_def alloc_flist_def batched_def)

subsection \<open>Allocation and release\<close>

lemma Union_upd2:
  assumes "set xs \<union> set ys = set (F a) \<union> set (F b)" and "a \<noteq> b"
  shows "(\<Union>l. set ((F(a := xs, b := ys)) l)) = (\<Union>l. set (F l))"
proof -
  have "(\<Union>l. set ((F(a := xs, b := ys)) l)) = (\<Union>l \<in> - {a, b}. set (F l)) \<union> (set xs \<union> set ys)"
    using assms(2) by (auto split: if_splits)
  also have "\<dots> = (\<Union>l. set (F l))" unfolding assms(1) by auto
  finally show ?thesis .
qed

lemma separated_pop:
  assumes "separated F" and "F a = x # xs"
  shows "separated (F(a := xs))" and "(\<Union>l. set ((F(a := xs)) l)) = (\<Union>l. set (F l)) - {x}"
proof -
  have d: "distinct (x # xs)" using separated_distinct [OF assms(1), of a] assms(2) by simp
  then show "separated (F(a := xs))" using assms by (intro separated_shrink) auto
  have "x \<notin> set (F l)" if "l \<noteq> a" for l
    using assms that unfolding separated_def by (metis disjoint_iff list.set_intros(1))
  then show "(\<Union>l. set ((F(a := xs)) l)) = (\<Union>l. set (F l)) - {x}"
    using d assms(2) by (auto split: if_splits) (metis set_ConsD)
qed

lemma refill_spec:
  assumes g: "global_ok g" and sep: "separated F" and F: "F Glob = objs g" "F (Prov t) = objs pr"
    and ok: "refill pr g = Inr (pr1, g1)"
  shows "global_ok g1" and "skip_unit g1 = skip_unit g" and "list_head pr1 \<noteq> []"
    and "separated (F(Glob := objs g1, Prov t := objs pr1))"
    and "set (objs g1) \<union> set (objs pr1) = set (F Glob) \<union> set (F (Prov t))"
proof -
  have d: "distinct (objs g)" using separated_distinct [OF sep, of Glob] F by simp
  have "global_ok g1 \<and> skip_unit g1 = skip_unit g \<and> list_head pr1 \<noteq> [] \<and>
      distinct (objs g1 @ objs pr1) \<and>
      set (objs g1) \<union> set (objs pr1) = set (F Glob) \<union> set (F (Prov t))"
  proof (cases "list_head pr = []")
    case False
    then have "pr1 = pr" "g1 = g" using ok by (simp_all add: refill_def)
    moreover have "distinct (objs g @ objs pr)"
      using sep F unfolding separated_def by (metis distinct_append loc.distinct(1))
    ultimately show ?thesis using g F False by simp
  next
    case True
    then have f: "fill_local_provider pr g = Inr (pr1, g1)" using ok by (simp add: refill_def)
    then have "skip_head g \<noteq> []" by (auto simp: fill_local_provider_def)
    note fs = fill_spec [OF g distinct_nodes [OF d] this True]
    have e: "objs g1 = drop (skip_unit g) (objs g)" "objs pr1 = take (skip_unit g) (objs g)"
      using fs(1) f by (simp_all add: objs_def drop_map take_map)
    have "set (objs g1) \<union> set (objs pr1) = set (objs g)" unfolding e
      by (metis append_take_drop_id set_append sup_commute)
    moreover have "distinct (objs g1 @ objs pr1)" unfolding e using d
      by (metis append_take_drop_id distinct_append inf_commute)
    ultimately show ?thesis using fs f F True by (auto simp: objs_def)
  qed
  then show "global_ok g1" and "skip_unit g1 = skip_unit g" and "list_head pr1 \<noteq> []"
    and "set (objs g1) \<union> set (objs pr1) = set (F Glob) \<union> set (F (Prov t))"
    and "separated (F(Glob := objs g1, Prov t := objs pr1))"
    using separated_move [OF sep, of Glob "Prov t" "objs g1" "objs pr1"] by auto
qed

lemma POP_PROVIDER_result:
  assumes inv: "pool_inv p" and ok: "POP_PROVIDER t p = Inr (x, p')"
  shows "pool_inv p'" and "x \<in> avail p" and "avail p' = avail p - {x}"
proof -
  let ?pr = "case provider p t of None \<Rightarrow> alloc_flist 0 | Some pr \<Rightarrow> pr"
  have g: "global_ok (global p)" and sep: "separated (objs_at p)" using inv by (simp_all add: pool_inv_def)
  have F: "objs_at p Glob = objs (global p)" "objs_at p (Prov t) = objs ?pr"
    by (simp_all add: objs_def alloc_flist_def split: option.split)
  obtain pr1 g1 where r: "refill ?pr (global p) = Inr (pr1, g1)"
    using ok by (cases "refill ?pr (global p)") (auto simp: POP_PROVIDER_def Let_def)
  note rs = refill_spec [OF g sep F r]
  obtain n rest where 1: "list_head pr1 = n # rest" using rs(3) by (cases "list_head pr1") auto
  have x: "x = node_ptr n"
    and p': "p' = p\<lparr>global := g1, provider := (provider p)(t := Some (pr1\<lparr>list_head := rest\<rparr>))\<rparr>"
    using ok r 1 by (simp_all add: POP_PROVIDER_def Let_def)
  let ?F1 = "(objs_at p)(Glob := objs g1, Prov t := objs pr1)"
  have hd: "?F1 (Prov t) = x # objs (pr1\<lparr>list_head := rest\<rparr>)" using 1 x by (simp add: objs_def)
  have F': "objs_at p' = ?F1(Prov t := objs (pr1\<lparr>list_head := rest\<rparr>))"
    using objs_at_upd(2) [of "p\<lparr>global := g1\<rparr>"] by (simp add: p' objs_at_upd(1))
  note pop = separated_pop [OF rs(4) hd]
  have U1: "(\<Union>l. set (?F1 l)) = avail p"
    unfolding avail_def by (rule Union_upd2) (use rs(5) in auto)
  show "avail p' = avail p - {x}" using pop(2) unfolding U1 unfolding avail_def F' .
  show "x \<in> avail p" using hd U1 by (metis UN_I UNIV_I list.set_intros(1))
  have "separated (objs_at p')" unfolding F' by (rule pop(1))
  then show "pool_inv p'" using inv rs(1,2) by (simp add: pool_inv_def p')
qed

lemma POP_PROVIDER_total:
  assumes "pool_inv p" and "objs_at p (Prov t) \<noteq> [] \<or> objs_at p Glob \<noteq> []"
  shows "\<exists>x p'. POP_PROVIDER t p = Inr (x, p')"
proof -
  let ?pr = "case provider p t of None \<Rightarrow> alloc_flist 0 | Some pr \<Rightarrow> pr"
  have g: "global_ok (global p)" and sep: "separated (objs_at p)" using assms by (simp_all add: pool_inv_def)
  have F: "objs_at p Glob = objs (global p)" "objs_at p (Prov t) = objs ?pr"
    by (simp_all add: objs_def alloc_flist_def split: option.split)
  have "\<exists>pr1 g1. refill ?pr (global p) = Inr (pr1, g1)"
  proof (cases "list_head ?pr = []")
    case True
    then have "list_head (global p) \<noteq> []" using assms(2) F by (simp add: objs_def)
    then have "skip_head (global p) \<noteq> []" using g by (auto simp: global_ok_def)
    moreover have "distinct (list_head (global p))" using separated_distinct [OF sep, of Glob] F distinct_nodes by metis
    ultimately show ?thesis using fill_spec(1) [OF g _ _ True] True by (simp add: refill_def)
  qed (simp add: refill_def)
  then obtain pr1 g1 where 1: "refill ?pr (global p) = Inr (pr1, g1)" by blast
  then show ?thesis using refill_spec(3) [OF g sep F 1]
    by (auto simp: POP_PROVIDER_def Let_def split: list.split)
qed

lemma distinct_cut:
  assumes "distinct xs" and "distinct ys" and "set xs \<inter> set ys = {}"
  shows "distinct (take k ys @ xs @ drop k ys)"
proof -
  have "set (take k ys) \<inter> set (drop k ys) = {}"
    using assms(2) by (metis append_take_drop_id distinct_append)
  then show ?thesis using assms by (auto dest: in_set_takeD in_set_dropD)
qed

lemma PUSH_COLLECTOR_result:
  assumes inv: "pool_inv p" and x: "x \<notin> avail p"
  obtains p' where "PUSH_COLLECTOR t x p = Inr p'" and "pool_inv p'"
    and "avail p' = insert x (avail p)"
proof -
  let ?c = "case collector p t of None \<Rightarrow> alloc_flist (skip_unit (global p)) | Some c \<Rightarrow> c"
  let ?n = "\<lparr>node_addr = next_node p, node_ptr = x\<rparr>"
  have g: "global_ok (global p)" and sep: "separated (objs_at p)" using inv by (simp_all add: pool_inv_def)
  have c: "collector_ok (skip_unit (global p)) ?c"
    using inv by (auto simp: pool_inv_def collector_ok_new split: option.split)
  have F: "objs_at p (Coll t) = objs ?c" by (simp add: objs_def alloc_flist_def split: option.split)
  have d: "distinct (list_head ?c)" using separated_distinct [OF sep, of "Coll t"] F distinct_nodes by metis
  obtain c1 g1 k where 1: "put_local_collector ?n ?c (global p) = Inr (c1, g1)"
    "list_head c1 = ?n # drop k (list_head ?c)" "list_head g1 = take k (list_head ?c) @ list_head (global p)"
    "global_ok g1" "skip_unit g1 = skip_unit (global p)" "collector_ok (skip_unit (global p)) c1"
    using put_local_collector_spec [OF g c d] by metis
  let ?p' = "p\<lparr>next_node := next_node p + 1, global := g1, collector := (collector p)(t := Some c1)\<rparr>"
  let ?F1 = "(objs_at p)(Glob := objs g1, Coll t := drop k (objs ?c))"
  have o: "objs c1 = x # drop k (objs ?c)" "objs g1 = take k (objs ?c) @ objs (global p)"
    using 1 by (simp_all add: objs_def drop_map take_map)
  have F': "objs_at ?p' = ?F1(Coll t := x # ?F1 (Coll t))"
    using objs_at_upd(3) [of "p\<lparr>next_node := next_node p + 1, global := g1\<rparr>" t c1] o
    by (simp add: objs_at_upd)
  have sets: "set (objs g1) \<union> set (drop k (objs ?c)) = set (objs_at p Glob) \<union> set (objs_at p (Coll t))"
  proof -
    have "set (objs ?c) = set (take k (objs ?c)) \<union> set (drop k (objs ?c))"
      by (metis append_take_drop_id set_append)
    then show ?thesis unfolding o F by auto
  qed
  have dis: "distinct (objs g1 @ drop k (objs ?c))"
  proof -
    have "distinct (objs (global p))" "distinct (objs ?c)" "set (objs (global p)) \<inter> set (objs ?c) = {}"
      using sep F unfolding separated_def by (metis objs_at.simps(1) loc.distinct(4))+
    then show ?thesis unfolding o by (simp only: append.assoc distinct_cut)
  qed
  have s1: "separated ?F1" using sets dis by (intro separated_move [OF sep]) auto
  have U1: "(\<Union>l. set (?F1 l)) = avail p" unfolding avail_def by (rule Union_upd2) (use sets in auto)
  have "separated (objs_at ?p')" unfolding F' by (rule separated_add [OF s1]) (use x U1 in simp)
  then have "pool_inv ?p'" using inv 1 by (simp add: pool_inv_def)
  moreover have "avail ?p' = insert x (\<Union>l. set (?F1 l))"
    unfolding avail_def F' by (auto split: if_splits)
  moreover have "PUSH_COLLECTOR t x p = Inr ?p'"
    using 1(1) by (simp add: PUSH_COLLECTOR_def get_fnode_def)
  ultimately show ?thesis using that U1 by simp
qed

text \<open>A collector never keeps more than two batches to itself.\<close>

lemma collector_bound:
  assumes "collector_ok u c" and "0 < u"
  shows "length (list_head c) \<le> MAX_SKIP_NODES * u"
proof (cases "list_head c = []")
  case False
  obtain s ss where s: "skip_head c = s # ss"
    and fb: "full_batches u (drop (first_batch u (length (list_head c))) (list_head c)) ss"
    using assms False by (auto simp: collector_ok_def batched_def)
  have "length ss \<le> 1" using assms s by (simp add: collector_ok_def MAX_SKIP_NODES_def)
  then have "u * length ss \<le> u" using mult_le_mono2 [of "length ss" 1 u] by simp
  moreover have "first_batch u (length (list_head c)) \<le> u"
    using assms(2) by (simp add: first_batch_def less_imp_le)
  moreover have "length (list_head c) - first_batch u (length (list_head c)) = u * length ss"
    using full_batches_length [OF fb] by simp
  ultimately show ?thesis unfolding MAX_SKIP_NODES_def by linarith
qed simp

subsection \<open>The contract of a pool\<close>

text \<open>
  What the clients of the allocator rely on: an allocation hands out an object that was
  available and makes it unavailable, a release puts an object back, and both keep the
  invariant. From these laws alone, objects in use are never handed out again.
\<close>

datatype 'a pool_op = Alloc | Free 'a

locale object_pool =
  fixes alloc :: "'s \<Rightarrow> ('a \<times> 's) res"
    and free :: "'a \<Rightarrow> 's \<Rightarrow> 's res"
    and available :: "'s \<Rightarrow> 'a set"
    and inv :: "'s \<Rightarrow> bool"
  assumes alloc_law: "inv s \<Longrightarrow> alloc s = Inr (x, s') \<Longrightarrow>
      inv s' \<and> x \<in> available s \<and> available s' = available s - {x}"
    and free_law: "inv s \<Longrightarrow> x \<notin> available s \<Longrightarrow>
      \<exists>s'. free x s = Inr s' \<and> inv s' \<and> available s' = insert x (available s)"
begin

text \<open>A client run: \<open>live\<close> is the set of objects the client holds.\<close>

inductive run :: "'s \<Rightarrow> 'a set \<Rightarrow> 'a pool_op list \<Rightarrow> 's \<Rightarrow> 'a set \<Rightarrow> bool" where
  run_nil: "run s live [] s live"
| run_alloc: "alloc s = Inr (x, s') \<Longrightarrow> run s' (insert x live) ops t live' \<Longrightarrow>
     run s live (Alloc # ops) t live'"
| run_free: "x \<in> live \<Longrightarrow> free x s = Inr s' \<Longrightarrow> run s' (live - {x}) ops t live' \<Longrightarrow>
     run s live (Free x # ops) t live'"

lemma run_conserves:
  assumes "run s live ops t live'" and "inv s" and "live \<inter> available s = {}"
  shows "inv t \<and> live' \<inter> available t = {} \<and> live' \<union> available t = live \<union> available s"
  using assms
proof (induction rule: run.induct)
  case (run_nil s live)
  then show ?case by simp
next
  case (run_alloc s x s' live ops t live')
  have a: "inv s'" "x \<in> available s" "available s' = available s - {x}"
    using alloc_law [OF run_alloc.prems(1) run_alloc.hyps(1)] by auto
  then have "insert x live \<inter> available s' = {}" using run_alloc.prems by auto
  then show ?case using run_alloc.IH a by auto
next
  case (run_free x live s s' ops t live')
  have "x \<notin> available s" using run_free by auto
  then have a: "inv s'" "available s' = insert x (available s)"
    using free_law [OF run_free.prems(1) \<open>x \<notin> available s\<close>] run_free.hyps(2) by auto
  then have "(live - {x}) \<inter> available s' = {}" using run_free.prems by auto
  then show ?case using run_free.IH a run_free.hyps(1) by auto
qed

lemma alloc_fresh:
  assumes "inv s" and "live \<inter> available s = {}" and "alloc s = Inr (x, s')"
  shows "x \<notin> live"
  using alloc_law [OF assms(1,3)] assms(2) by auto

lemma alloc_free_roundtrip:
  assumes "inv s" and "alloc s = Inr (x, s')"
  shows "\<exists>s''. free x s' = Inr s'' \<and> available s'' = available s"
proof -
  have "inv s'" "x \<in> available s" "available s' = available s - {x}" using alloc_law [OF assms] by auto
  then show ?thesis using free_law [of s' x] by auto
qed

end

interpretation fl: object_pool "POP_PROVIDER t" "PUSH_COLLECTOR t" avail pool_inv for t
proof unfold_locales
  show "pool_inv s' \<and> x \<in> avail s \<and> avail s' = avail s - {x}"
    if "pool_inv s" "POP_PROVIDER t s = Inr (x, s')" for s x s'
    using POP_PROVIDER_result [OF that] by simp
  show "\<exists>s'. PUSH_COLLECTOR t x s = Inr s' \<and> pool_inv s' \<and> avail s' = insert x (avail s)"
    if "pool_inv s" "x \<notin> avail s" for s x
    using PUSH_COLLECTOR_result [OF that] by metis
qed

subsection \<open>Building a pool\<close>

text \<open>The state of the list after the first \<open>i\<close> objects were pushed.\<close>

definition building :: "addr \<Rightarrow> nat \<Rightarrow> nat \<Rightarrow> nat \<Rightarrow> pool \<Rightarrow> bool" where
  "building base sz u i p \<longleftrightarrow>
     skip_unit (global p) = u \<and> list_cnt (global p) = i \<and>
     batched u (list_head (global p)) (skip_head (global p)) \<and>
     objs (global p) = rev (map (\<lambda>j. base + j * sz) [0..<i]) \<and>
     provider p = (\<lambda>_. None) \<and> collector p = (\<lambda>_. None)"

lemma PUSH_GLOBAL_building:
  assumes "building base sz u i p" and "0 < u"
  shows "\<exists>p'. PUSH_GLOBAL (base + i * sz) p = Inr p' \<and> building base sz u (Suc i) p'"
proof -
  let ?n = "\<lparr>node_addr = next_node p, node_ptr = base + i * sz\<rparr>"
  have len: "length (list_head (global p)) = i"
    using assms(1) by (metis building_def objs_def diff_zero length_map length_rev length_upt)
  show ?thesis
  proof (cases "i mod u = 0")
    case True
    then have "batched u (?n # list_head (global p)) (?n # skip_head (global p))"
      using assms len by (intro batched_push_new) (auto simp: building_def)
    then show ?thesis using assms True len
      by (simp add: PUSH_GLOBAL_def get_fnode_def put_global_def building_def Let_def objs_def)
  next
    case False
    then have "batched u (?n # list_head (global p)) (skip_head (global p))"
      using assms len by (intro batched_push_old) (auto simp: building_def)
    then show ?thesis using assms False len
      by (simp add: PUSH_GLOBAL_def get_fnode_def put_global_def building_def Let_def objs_def)
  qed
qed

lemma create_global_list_building:
  assumes "0 < u"
  shows "\<exists>p. create_global_list base sz count (empty_pool u) = Inr p \<and> building base sz u count p"
proof (induction count)
  case 0
  show ?case
    by (simp add: create_global_list_def building_def empty_pool_def alloc_flist_def batched_def objs_def)
next
  case (Suc n)
  then obtain p where p: "create_global_list base sz n (empty_pool u) = Inr p" "building base sz u n p" by blast
  obtain p' where "PUSH_GLOBAL (base + n * sz) p = Inr p'" "building base sz u (Suc n) p'"
    using PUSH_GLOBAL_building [OF p(2) assms] by blast
  then show ?case using p(1) by (simp add: create_global_list_def foldE_append)
qed

lemma building_finished:
  assumes "building base sz u count p" and "0 < u" and "u < 2 ^ 64" and "0 < sz" and "count mod u = 0"
  shows "pool_inv p" and "avail p = (\<lambda>i. base + i * sz) ` {..<count}"
proof -
  have o: "objs_at p Glob = rev (map (\<lambda>j. base + j * sz) [0..<count])"
    "\<And>t. objs_at p (Prov t) = []" "\<And>t. objs_at p (Coll t) = []"
    using assms(1) by (simp_all add: building_def)
  have other: "objs_at p l = []" if "l \<noteq> Glob" for l using that o by (cases l) auto
  have "distinct (objs_at p Glob)" unfolding o(1) using assms(4) by (simp add: distinct_map inj_on_def)
  then have "separated (objs_at p)" using other unfolding separated_def
    by (metis distinct.simps(1) inf_bot_left inf_bot_right list.set(1))
  moreover have "length (list_head (global p)) = count"
    using assms(1) by (metis building_def objs_def diff_zero length_map length_rev length_upt)
  ultimately show "pool_inv p" using assms
    by (auto simp: pool_inv_def global_ok_def building_def batched_full)
  have "set (objs_at p l) \<subseteq> set (objs_at p Glob)" for l using other [of l] by (cases "l = Glob") auto
  then have "avail p = set (objs_at p Glob)" unfolding avail_def by blast
  then show "avail p = (\<lambda>i. base + i * sz) ` {..<count}" unfolding o(1) by (auto simp: lessThan_atLeast0)
qed

lemma create_global_list_result:
  assumes "0 < u" and "u < 2 ^ 64" and "0 < sz" and "count mod u = 0"
  shows "\<exists>p. create_global_list base sz count (empty_pool u) = Inr p \<and> pool_inv p \<and>
             avail p = (\<lambda>i. base + i * sz) ` {..<count}"
proof -
  obtain p where "create_global_list base sz count (empty_pool u) = Inr p" "building base sz u count p"
    using create_global_list_building [OF assms(1)] by blast
  then show ?thesis using building_finished [OF _ assms] by blast
qed

subsection \<open>Properties\<close>

text \<open>
  C28: \<^verbatim>\<open>create_global_list\<close> on \<open>count\<close> objects, a multiple of the batch size, returns,
  establishes the pool invariant, and makes exactly the \<open>count\<close> objects available.
\<close>

theorem create_global_list_correct:
  assumes "0 < u" and "u < 2 ^ 64" and "0 < sz" and "count mod u = 0"
  shows "\<exists>p. create_global_list base sz count (empty_pool u) = Inr p \<and> pool_inv p \<and>
             avail p = (\<lambda>i. base + i * sz) ` {..<count}"
  by (rule create_global_list_result [OF assms])

theorem create_global_list_correct_witness:
  "\<exists>p. create_global_list 4096 64 2000 (empty_pool 50) = Inr p \<and> pool_inv p \<and>
       avail p = (\<lambda>i. 4096 + i * 64) ` {..<2000}"
  using create_global_list_correct [of 50 64 2000 4096] by simp

text \<open>
  C24: allocation is safe. \<^verbatim>\<open>POP_PROVIDER\<close> hands out an object that was on some free list of
  the pool, takes it off, and keeps the invariant of the global list, the providers and the
  collectors of all threads; no other object leaves the pool.
\<close>

theorem POP_PROVIDER_correct:
  assumes "pool_inv p" and "POP_PROVIDER t p = Inr (x, p')"
  shows "pool_inv p' \<and> x \<in> avail p \<and> avail p' = avail p - {x}"
  by (rule fl.alloc_law [OF assms])

definition two_objects :: pool where
  "two_objects =
     \<lparr>global = \<lparr>list_head = [\<lparr>node_addr = 1, node_ptr = 100\<rparr>, \<lparr>node_addr = 0, node_ptr = 200\<rparr>],
                skip_head = [\<lparr>node_addr = 0, node_ptr = 200\<rparr>],
                list_cnt = 2, skip_cnt = 1, skip_unit = 2\<rparr>,
      provider = (\<lambda>_. None), collector = (\<lambda>_. None), next_node = 2\<rparr>"

lemma two_objects_inv: "pool_inv two_objects"
proof -
  have o: "objs_at two_objects l = (if l = Glob then [100, 200] else [])" for l
    by (cases l) (simp_all add: two_objects_def objs_def)
  show ?thesis
    by (auto simp: pool_inv_def separated_def o) (auto simp: two_objects_def global_ok_def)
qed

theorem POP_PROVIDER_correct_witness:
  "\<exists>p'. POP_PROVIDER 7 two_objects = Inr (100, p') \<and> pool_inv p' \<and>
        avail p' = avail two_objects - {100}"
proof -
  obtain p' where p': "POP_PROVIDER 7 two_objects = Inr (100, p')"
    by (simp add: POP_PROVIDER_def refill_def fill_local_provider_def two_objects_def alloc_flist_def
        cut_splice_def)
  show ?thesis using POP_PROVIDER_correct [OF two_objects_inv p'] p' by blast
qed

lemma POP_PROVIDER_empty:
  assumes "pool_inv p" and e: "objs_at p (Prov t) = [] \<and> objs_at p Glob = []"
  shows "POP_PROVIDER t p = Inl (Exit ''global->skip_list is empty'')"
proof -
  have "list_head (global p) = []" using e by (simp add: objs_def)
  then have "skip_head (global p) = []"
    using assms by (cases "skip_head (global p)") (auto simp: pool_inv_def global_ok_def)
  moreover have "list_head (case provider p t of None \<Rightarrow> alloc_flist 0 | Some pr \<Rightarrow> pr) = []"
    using e by (simp add: objs_def alloc_flist_def split: option.splits)
  ultimately show ?thesis by (simp add: POP_PROVIDER_def refill_def fill_local_provider_def)
qed

lemma POP_PROVIDER_fail:
  assumes "pool_inv p" and "POP_PROVIDER t p = Inl e"
  shows "e = Exit ''global->skip_list is empty''"
  using assms POP_PROVIDER_total [OF assms(1), of t] POP_PROVIDER_empty [OF assms(1), of t] by auto



text \<open>
  C26: releasing an object that is in use always succeeds, makes exactly it available again,
  and keeps the invariant; in particular the releasing thread's collector holds at most
  \<^verbatim>\<open>MAX_SKIP_NODES\<close> batches afterwards, the rest having gone to the global list.
\<close>

theorem PUSH_COLLECTOR_correct:
  assumes "pool_inv p" and "x \<notin> avail p"
  shows "\<exists>p'. PUSH_COLLECTOR t x p = Inr p' \<and> pool_inv p' \<and> avail p' = insert x (avail p) \<and>
              length (objs_at p' (Coll t)) \<le> MAX_SKIP_NODES * skip_unit (global p')"
proof -
  obtain p' where p': "PUSH_COLLECTOR t x p = Inr p'" "pool_inv p'" "avail p' = insert x (avail p)"
    using PUSH_COLLECTOR_result [OF assms] by metis
  have "0 < skip_unit (global p')" using p'(2) by (simp add: pool_inv_def global_ok_def)
  then have "length (objs_at p' (Coll t)) \<le> MAX_SKIP_NODES * skip_unit (global p')"
    using p'(2) collector_bound by (auto simp: pool_inv_def objs_def split: option.split)
  with p' show ?thesis by blast
qed

theorem PUSH_COLLECTOR_correct_witness:
  "\<exists>p'. PUSH_COLLECTOR 7 300 two_objects = Inr p' \<and> pool_inv p'"
proof -
  have "objs_at two_objects l = (if l = Glob then [100, 200] else [])" for l
    by (cases l) (simp_all add: two_objects_def objs_def)
  then have "300 \<notin> avail two_objects" by (simp add: avail_def)
  then show ?thesis using PUSH_COLLECTOR_correct [OF two_objects_inv, of 300 7] by blast
qed



end
