(* ===== verification/Bravo.thy ===== *)
theory Bravo
  imports Locks
begin

text \<open>
  The BRAVO reader-writer lock of src/src/bravo.c: readers normally publish themselves in a
  global table (\<^verbatim>\<open>visible_readers\<close>) instead of touching the underlying lock, and a writer
  revokes that bias by scanning the table. This theory models each function as it runs in
  one thread while no other thread moves; a wait that only another thread could end is
  \<open>Blocked\<close>. Theory BravoSteps has the interleaving of several threads.

  The clock is a stream of \<^verbatim>\<open>struct timespec\<close> readings: \<open>ticks\<close> counts the calls to
  \<^verbatim>\<open>clock_gettime\<close> made so far.
\<close>

definition BILLION :: nat where "BILLION = 1000000000"
definition N_INHIBIT :: nat where "N_INHIBIT = 9"
definition NR_SLOTS :: nat where "NR_SLOTS = 4096"

record bravo_rwlock =
  rbias :: bool
  inhibit_until :: nat
  underlying :: rwlock

record bravo_state =
  visible_readers :: "nat \<Rightarrow> ptr option"
  clock :: "nat \<Rightarrow> nat \<times> nat"
  ticks :: nat

subsection \<open>Hashing a thread and a lock to a slot\<close>

text \<open>
  \<^verbatim>\<open>z\<close> is an \<^verbatim>\<open>unsigned long\<close>; \<^verbatim>\<open>(int)(z >> 32)\<close> reads the upper half as a signed 32-bit
  integer, and \<^verbatim>\<open>abs\<close> of the least one wraps to itself.
\<close>

definition mix32 :: "64 word \<Rightarrow> int" where
  "mix32 z =
     (let z1 = (z XOR drop_bit 33 z) * 0xff51afd7ed558ccd;
          z2 = (z1 XOR drop_bit 33 z1) * 0xc4ceb9fe1a85ec53
      in c_int \<bar>sint (ucast (drop_bit 32 z2) :: 32 word)\<bar>)"

text \<open>The remainder operator of C truncates towards zero.\<close>

definition c_rem :: "int \<Rightarrow> int \<Rightarrow> int" where
  "c_rem a b = sgn a * (\<bar>a\<bar> mod \<bar>b\<bar>)"

definition bravo_hash :: "tid \<Rightarrow> ptr \<Rightarrow> nat" where
  "bravo_hash self l = nat (c_rem (mix32 (of_nat self + of_nat l)) (int NR_SLOTS))"

subsection \<open>The lock operations\<close>

definition clock_gettime :: "bravo_state \<Rightarrow> nat \<times> bravo_state" where
  "clock_gettime st =
     (let (sec, nsec) = clock st (ticks st)
      in (ul (sec * BILLION + nsec), st\<lparr>ticks := ticks st + 1\<rparr>))"

definition bravo_rwlock_init :: bravo_rwlock where
  "bravo_rwlock_init = \<lparr>rbias = True, inhibit_until = 0, underlying = RWLOCK_INIT\<rparr>"

text \<open>The tail shared by the slow paths: re-enable the bias once the inhibition is over.\<close>

definition rebias :: "bravo_rwlock \<Rightarrow> bravo_state \<Rightarrow> bravo_rwlock \<times> bravo_state" where
  "rebias b st =
     (let (now_time, st1) = clock_gettime st
      in (if \<not> rbias b \<and> inhibit_until b \<le> now_time then b\<lparr>rbias := True\<rparr> else b, st1))"

definition bravo_read_lock :: "tid \<Rightarrow> ptr \<Rightarrow> bravo_rwlock \<Rightarrow> bravo_state \<Rightarrow> (bravo_rwlock \<times> bravo_state) res" where
  "bravo_read_lock self l b st =
     (if rbias b \<and> visible_readers st (bravo_hash self l) = None
      then Inr (b, st\<lparr>visible_readers := (visible_readers st)(bravo_hash self l := Some l)\<rparr>)
      else bindE (RWLOCK_READ_LOCK (underlying b))
             (\<lambda>u. Inr (rebias (b\<lparr>underlying := u\<rparr>) st)))"

text \<open>The result of \<^verbatim>\<open>bravo_read_trylock\<close> is 0 (here \<open>True\<close>) or an error code.\<close>

definition bravo_read_trylock :: "tid \<Rightarrow> ptr \<Rightarrow> bravo_rwlock \<Rightarrow> bravo_state \<Rightarrow> bool \<times> bravo_rwlock \<times> bravo_state" where
  "bravo_read_trylock self l b st =
     (if rbias b \<and> visible_readers st (bravo_hash self l) = None
      then (True, b, st\<lparr>visible_readers := (visible_readers st)(bravo_hash self l := Some l)\<rparr>)
      else (case RWLOCK_READ_TRYLOCK (underlying b) of
              None \<Rightarrow> (False, b, st)
            | Some u \<Rightarrow> (True, rebias (b\<lparr>underlying := u\<rparr>) st)))"

definition bravo_read_unlock :: "tid \<Rightarrow> ptr \<Rightarrow> bravo_rwlock \<Rightarrow> bravo_state \<Rightarrow> (bravo_rwlock \<times> bravo_state) res" where
  "bravo_read_unlock self l b st =
     (if visible_readers st (bravo_hash self l) \<noteq> None
      then Inr (b, st\<lparr>visible_readers := (visible_readers st)(bravo_hash self l := None)\<rparr>)
      else bindE (RWLOCK_UNLOCK (underlying b)) (\<lambda>u. Inr (b\<lparr>underlying := u\<rparr>, st)))"

text \<open>\<^verbatim>\<open>revocate\<close> waits for every published reader of the lock.\<close>

definition revocate :: "ptr \<Rightarrow> bravo_rwlock \<Rightarrow> bravo_state \<Rightarrow> (bravo_rwlock \<times> bravo_state) res" where
  "revocate l b st =
     (let b1 = b\<lparr>rbias := False\<rparr>; (start_time, st1) = clock_gettime st in
      if list_ex (\<lambda>i. visible_readers st i = Some l) [0..<NR_SLOTS] then Inl Blocked
      else
        let (now_time, st2) = clock_gettime st1
        in Inr (b1\<lparr>inhibit_until :=
                     ul (now_time + ul (ul_sub now_time start_time * N_INHIBIT))\<rparr>, st2))"

definition bravo_write_lock :: "ptr \<Rightarrow> bravo_rwlock \<Rightarrow> bravo_state \<Rightarrow> (bravo_rwlock \<times> bravo_state) res" where
  "bravo_write_lock l b st =
     bindE (RWLOCK_WRITE_LOCK (underlying b))
       (\<lambda>u. let b1 = b\<lparr>underlying := u\<rparr> in if rbias b1 then revocate l b1 st else Inr (b1, st))"

definition bravo_write_trylock :: "ptr \<Rightarrow> bravo_rwlock \<Rightarrow> bravo_state \<Rightarrow> (bool \<times> bravo_rwlock \<times> bravo_state) res" where
  "bravo_write_trylock l b st =
     (case RWLOCK_WRITE_TRYLOCK (underlying b) of
        None \<Rightarrow> Inr (False, b, st)
      | Some u \<Rightarrow>
          (let b1 = b\<lparr>underlying := u\<rparr>
           in if rbias b1 then bindE (revocate l b1 st) (\<lambda>(b2, st2). Inr (True, b2, st2))
              else Inr (True, b1, st)))"

definition bravo_write_unlock :: "bravo_rwlock \<Rightarrow> bravo_rwlock res" where
  "bravo_write_unlock b = bindE (RWLOCK_UNLOCK (underlying b)) (\<lambda>u. Inr (b\<lparr>underlying := u\<rparr>))"

definition bravo_rwlock_destroy :: "ptr \<Rightarrow> bravo_rwlock \<Rightarrow> bravo_state \<Rightarrow> (bravo_rwlock \<times> bravo_state) res" where
  "bravo_rwlock_destroy l b st = bravo_write_lock l b st"

subsection \<open>Lemmas\<close>

text \<open>The lock invariant between operations: a held writer has revoked the bias.\<close>

definition bravo_ok :: "bravo_rwlock \<Rightarrow> bool" where
  "bravo_ok b \<longleftrightarrow> rwlock_ok (underlying b) \<and> (writer (underlying b) \<longrightarrow> \<not> rbias b)"

text \<open>Nobody holds the lock: no slot names it and the underlying lock is free.\<close>

definition bravo_idle :: "ptr \<Rightarrow> bravo_rwlock \<Rightarrow> bravo_state \<Rightarrow> bool" where
  "bravo_idle l b st \<longleftrightarrow> underlying b = RWLOCK_INIT \<and> (\<forall>i < NR_SLOTS. visible_readers st i \<noteq> Some l)"

lemma mix32_range: "mix32 z = - (2 ^ 31) \<or> 0 \<le> mix32 z \<and> mix32 z < 2 ^ 31"
proof -
  have "\<bar>sint (w :: 32 word)\<bar> \<le> 2 ^ 31" for w
    using sint_ge [of w] sint_lt [of w] by simp
  moreover have "c_int a = - (2 ^ 31) \<or> 0 \<le> c_int a \<and> c_int a < 2 ^ 31" if "0 \<le> a" "a \<le> 2 ^ 31" for a
    using that by (cases "a = 2 ^ 31") (simp_all add: c_int_def)
  ultimately show ?thesis unfolding mix32_def Let_def by simp
qed

lemma bravo_hash_less: "bravo_hash self l < NR_SLOTS"
  using mix32_range [of "of_nat self + of_nat l"]
  by (auto simp: bravo_hash_def c_rem_def NR_SLOTS_def sgn_if)

lemma clock_gettime_visible [simp]:
  "visible_readers (snd (clock_gettime st)) = visible_readers st"
  by (simp add: clock_gettime_def split: prod.split)

lemma rebias_sel [simp]:
  "underlying (fst (rebias b st)) = underlying b"
  "visible_readers (snd (rebias b st)) = visible_readers st"
  by (simp_all add: rebias_def clock_gettime_def split: prod.split)

lemma revocate_Inr:
  assumes "revocate l b st = Inr (b', st')"
  shows "\<not> rbias b'" and "underlying b' = underlying b" and "visible_readers st' = visible_readers st"
    and "\<And>i. i < NR_SLOTS \<Longrightarrow> visible_readers st i \<noteq> Some l"
proof -
  from assms show "\<not> rbias b'" and "underlying b' = underlying b" and "visible_readers st' = visible_readers st"
    by (auto simp: revocate_def clock_gettime_def Let_def split: if_splits prod.splits)
  from assms show "\<And>i. i < NR_SLOTS \<Longrightarrow> visible_readers st i \<noteq> Some l"
    by (auto simp: revocate_def list_ex_iff Let_def split: if_splits prod.splits)
qed

lemma revocate_total:
  assumes "\<forall>i < NR_SLOTS. visible_readers st i \<noteq> Some l"
  shows "\<exists>b' st'. revocate l b st = Inr (b', st')"
  using assms by (auto simp: revocate_def list_ex_iff Let_def split: prod.split)

lemma bravo_write_lock_Inr:
  assumes "bravo_ok b" and "bravo_write_lock l b st = Inr (b', st')"
  shows "writer (underlying b')" and "\<not> rbias b'" and "readers (underlying b') = 0"
    and "visible_readers st' = visible_readers st" and "bravo_ok b'"
proof -
  obtain u where u: "RWLOCK_WRITE_LOCK (underlying b) = Inr u"
    and r: "(if rbias b then revocate l (b\<lparr>underlying := u\<rparr>) st else Inr (b\<lparr>underlying := u\<rparr>, st)) = Inr (b', st')"
    using assms(2) by (auto simp: bravo_write_lock_def Let_def elim!: bindE_InrE)
  have w: "writer u" "readers u = 0" using u by (auto simp: rwlock_defs split: if_splits)
  have "underlying b' = u \<and> \<not> rbias b' \<and> visible_readers st' = visible_readers st"
    using r revocate_Inr [of l "b\<lparr>underlying := u\<rparr>" st b' st'] by (cases "rbias b") auto
  then show "writer (underlying b')" and "\<not> rbias b'" and "readers (underlying b') = 0"
    and "visible_readers st' = visible_readers st" and "bravo_ok b'"
    using w by (auto simp: bravo_ok_def rwlock_ok_def)
qed

lemma bravo_write_lock_total:
  assumes "bravo_idle l b st"
  shows "\<exists>b' st'. bravo_write_lock l b st = Inr (b', st')"
  using assms revocate_total [of st l]
  by (auto simp: bravo_idle_def bravo_write_lock_def rwlock_defs Let_def)

lemma bravo_read_trylock_held:
  assumes "writer (underlying b)" and "\<not> rbias b"
  shows "bravo_read_trylock self l b st = (False, b, st)"
  using assms by (simp add: bravo_read_trylock_def rwlock_defs)

lemma bravo_write_unlock_held:
  assumes "writer (underlying b)"
  shows "\<exists>b'. bravo_write_unlock b = Inr b' \<and> underlying b' = (underlying b)\<lparr>writer := False\<rparr> \<and>
              rbias b' = rbias b"
  using assms by (simp add: bravo_write_unlock_def rwlock_defs)

lemma bravo_read_lock_total:
  assumes "\<not> writer (underlying b)"
  shows "\<exists>b' st'. bravo_read_lock self l b st = Inr (b', st')"
  using assms by (auto simp: bravo_read_lock_def rwlock_defs)

lemma bravo_read_roundtrip_result:
  assumes "visible_readers st (bravo_hash self l) = None" and "rwlock_ok (underlying b)"
    and "bravo_read_lock self l b st = Inr (b1, st1)"
  shows "\<exists>b2 st2. bravo_read_unlock self l b1 st1 = Inr (b2, st2) \<and>
           underlying b2 = underlying b \<and> visible_readers st2 = visible_readers st"
proof (cases "rbias b")
  case True
  then have "b1 = b" "st1 = st\<lparr>visible_readers := (visible_readers st)(bravo_hash self l := Some l)\<rparr>"
    using assms by (simp_all add: bravo_read_lock_def)
  then show ?thesis using assms(1) by (simp add: bravo_read_unlock_def fun_upd_idem)
next
  case False
  then obtain u where u: "RWLOCK_READ_LOCK (underlying b) = Inr u"
    and r: "(b1, st1) = rebias (b\<lparr>underlying := u\<rparr>) st"
    using assms(3) by (auto simp: bravo_read_lock_def elim!: bindE_InrE)
  have "underlying b1 = u" "visible_readers st1 = visible_readers st"
    using rebias_sel [of "b\<lparr>underlying := u\<rparr>" st] r [symmetric] by simp_all
  moreover have "RWLOCK_UNLOCK u = Inr (underlying b)"
    using u assms(2) by (auto simp: rwlock_defs split: if_splits)
  ultimately show ?thesis using assms(1) by (simp add: bravo_read_unlock_def)
qed

subsection \<open>Properties\<close>


text \<open>
  A successful \<^verbatim>\<open>bravo_write_lock\<close> excludes readers: it leaves the bias revoked, and no
  thread's \<^verbatim>\<open>bravo_read_trylock\<close> succeeds (nor changes anything) while the writer holds the
  lock; the writer itself included.
\<close>

lemma write_lock_excludes_readers:
  assumes "bravo_ok b" and "bravo_write_lock l b st = Inr (b', st')"
  shows "writer (underlying b') \<and> \<not> rbias b' \<and>
         bravo_read_trylock self l b' st'' = (False, b', st'')"
  using bravo_write_lock_Inr [OF assms] bravo_read_trylock_held by simp

text \<open>
  The round trip fails on a collision. If the slot is occupied by another reader, of
  this or of another lock, \<^verbatim>\<open>bravo_read_lock\<close> takes the slow path, and
  \<^verbatim>\<open>bravo_read_unlock\<close> then clears the other reader's slot and leaves the underlying lock
  read-locked.
\<close>

lemma read_unlock_clears_colliding_reader:
  assumes "visible_readers st (bravo_hash self l) = Some l'" and "\<not> writer (underlying b)"
  shows "\<exists>b1 st1 b2 st2. bravo_read_lock self l b st = Inr (b1, st1) \<and>
           bravo_read_unlock self l b1 st1 = Inr (b2, st2) \<and>
           visible_readers st2 = (visible_readers st)(bravo_hash self l := None) \<and>
           readers (underlying b2) = readers (underlying b) + 1"
proof -
  let ?u = "(underlying b)\<lparr>readers := readers (underlying b) + 1\<rparr>"
  obtain b1 st1 where r: "rebias (b\<lparr>underlying := ?u\<rparr>) st = (b1, st1)" by fastforce
  have "bravo_read_lock self l b st = Inr (b1, st1)"
    using assms r by (simp add: bravo_read_lock_def rwlock_defs)
  moreover have "underlying b1 = ?u" "visible_readers st1 = visible_readers st"
    using rebias_sel [of "b\<lparr>underlying := ?u\<rparr>" st] unfolding r by simp_all
  ultimately show ?thesis using assms(1) by (simp add: bravo_read_unlock_def)
qed

lemma read_unlock_clears_colliding_reader_witness:
  "\<exists>b1 st1 b2 st2. bravo_read_lock 5 64 bravo_rwlock_init
       \<lparr>visible_readers = (\<lambda>_. Some 32), clock = (\<lambda>_. (0, 0)), ticks = 0\<rparr> = Inr (b1, st1) \<and>
     bravo_read_unlock 5 64 b1 st1 = Inr (b2, st2) \<and> readers (underlying b2) = 1"
  using read_unlock_clears_colliding_reader
    [of "\<lparr>visible_readers = (\<lambda>_. Some 32), clock = (\<lambda>_. (0, 0)), ticks = 0\<rparr>" 5 64 32 bravo_rwlock_init]
  by (auto simp: bravo_rwlock_init_def rwlock_defs)

end
