(* ===== verification/World.thy ===== *)
theory World
  imports Layout Flist Bravo
begin

text \<open>
  The data of the library: radix tables, memory-mapped files (\<^verbatim>\<open>mmio_t\<close>) and the whole
  state of a process that has loaded it. Objects that the code reaches by pointer live in
  heaps indexed by address (\<open>tables\<close>, \<open>idxs\<close>, \<open>mmios\<close>); a pointer that may be NULL is an
  option. File contents, log contents and user buffers are bytes of \<open>mem\<close>. \<open>ptrace\<close> is the
  sequence of persistence operations issued so far (PMDK stores, flushes, fences), newest
  last.
\<close>

datatype table_type = TABLE | LMD | LUD | LGD

text \<open>The enum's values, \<^verbatim>\<open>TABLE = 1\<close> up to \<^verbatim>\<open>LGD = 4\<close>, give its order.\<close>

fun table_type_val :: "table_type \<Rightarrow> nat" where
  "table_type_val TABLE = 1"
| "table_type_val LMD = 2"
| "table_type_val LUD = 3"
| "table_type_val LGD = 4"

instantiation table_type :: linorder
begin
definition less_eq_table_type :: "table_type \<Rightarrow> table_type \<Rightarrow> bool" where
  "a \<le> b \<longleftrightarrow> table_type_val a \<le> table_type_val b"
definition less_table_type :: "table_type \<Rightarrow> table_type \<Rightarrow> bool" where
  "a < b \<longleftrightarrow> table_type_val a < table_type_val b"
instance
proof
  fix a b c :: table_type
  show "(a < b) = (a \<le> b \<and> \<not> b \<le> a)" by (auto simp: less_eq_table_type_def less_table_type_def)
  show "a \<le> a" by (simp add: less_eq_table_type_def)
  show "a \<le> b \<Longrightarrow> b \<le> c \<Longrightarrow> a \<le> c" by (simp add: less_eq_table_type_def)
  show "a \<le> b \<Longrightarrow> b \<le> a \<Longrightarrow> a = b" by (cases a; cases b) (simp_all add: less_eq_table_type_def)
  show "a \<le> b \<or> b \<le> a" by (simp add: less_eq_table_type_def linorder_linear)
qed
end

record log_table =
  tlog_size :: log_size_t
  ttype :: table_type
  entries :: "nat \<Rightarrow> ptr option"

record radix_root =
  lgd :: "ptr option"
  skip :: "ptr option"
  prev_table :: "ptr option"
  prev_table_index :: nat

record mmio =
  rwlock :: bravo_rwlock
  start :: addr
  end_addr :: addr
  ino :: nat
  moffset :: nat
  epoch :: nat
  policy :: policy
  radixlog :: radix_root
  read_cnt :: nat
  write_cnt :: nat
  fsize :: int
  checkpoint_thread :: nat
  ref :: int

datatype pevent = PStore addr nat | PFlush ptr | PFence

record world =
  mem :: memory
  ptrace :: "pevent list"
  tables :: "ptr \<Rightarrow> log_table"
  idxs :: "ptr \<Rightarrow> idx_entry"
  mmios :: "ptr \<Rightarrow> mmio"
  table_pool :: pool
  idx_pool :: pool
  log_pool :: "log_size_t \<Rightarrow> pool"
  mmio_pool :: pool
  bravo :: bravo_state

subsection \<open>Persistent stores\<close>

text \<open>
  \<^verbatim>\<open>NTSTORE\<close>, \<^verbatim>\<open>FLUSH\<close> and \<^verbatim>\<open>FENCE\<close> of mmio.h. A store outside mapped memory is undefined.
\<close>

definition NTSTORE :: "env \<Rightarrow> addr \<Rightarrow> addr \<Rightarrow> nat \<Rightarrow> world \<Rightarrow> world res" where
  "NTSTORE E d s n w =
     (if accessible (mem w) d n \<and> accessible (mem w) s n
      then Inr (w\<lparr>mem := (mem w)\<lparr>bytes := pmem_memcpy_nodrain E d s n (bytes (mem w))\<rparr>,
                  ptrace := ptrace w @ [PStore d n]\<rparr>)
      else Inl (UB ''bad address''))"

definition FLUSH :: "ptr \<Rightarrow> world \<Rightarrow> world" where
  "FLUSH p w = w\<lparr>ptrace := ptrace w @ [PFlush p]\<rparr>"

definition FENCE :: "world \<Rightarrow> world" where
  "FENCE w = w\<lparr>ptrace := ptrace w @ [PFence]\<rparr>"

lemma NTSTORE_Inr:
  assumes "pmem_copies E"
  shows "NTSTORE E d s n w =
     (if accessible (mem w) d n \<and> accessible (mem w) s n
      then Inr (w\<lparr>mem := (mem w)\<lparr>bytes := mcpy d s n (bytes (mem w))\<rparr>,
                  ptrace := ptrace w @ [PStore d n]\<rparr>)
      else Inl (UB ''bad address''))"
  using assms by (simp add: NTSTORE_def pmem_copies_def)

text \<open>Update one entry, one table or one file of the heaps.\<close>

definition upd_entry :: "ptr \<Rightarrow> (idx_entry \<Rightarrow> idx_entry) \<Rightarrow> world \<Rightarrow> world" where
  "upd_entry p f w = w\<lparr>idxs := (idxs w)(p := f (idxs w p))\<rparr>"

definition upd_table :: "ptr \<Rightarrow> (log_table \<Rightarrow> log_table) \<Rightarrow> world \<Rightarrow> world" where
  "upd_table p f w = w\<lparr>tables := (tables w)(p := f (tables w p))\<rparr>"

definition upd_mmio :: "ptr \<Rightarrow> (mmio \<Rightarrow> mmio) \<Rightarrow> world \<Rightarrow> world" where
  "upd_mmio p f w = w\<lparr>mmios := (mmios w)(p := f (mmios w p))\<rparr>"

lemma upd_entry_sel [simp]:
  "idxs (upd_entry p f w) = (idxs w)(p := f (idxs w p))"
  "mem (upd_entry p f w) = mem w" "ptrace (upd_entry p f w) = ptrace w"
  "tables (upd_entry p f w) = tables w" "mmios (upd_entry p f w) = mmios w"
  "table_pool (upd_entry p f w) = table_pool w" "idx_pool (upd_entry p f w) = idx_pool w"
  "log_pool (upd_entry p f w) = log_pool w" "mmio_pool (upd_entry p f w) = mmio_pool w"
  "bravo (upd_entry p f w) = bravo w"
  by (simp_all add: upd_entry_def)

lemma upd_table_sel [simp]:
  "tables (upd_table p g w) = (tables w)(p := g (tables w p))"
  "mem (upd_table p g w) = mem w" "ptrace (upd_table p g w) = ptrace w"
  "idxs (upd_table p g w) = idxs w" "mmios (upd_table p g w) = mmios w"
  "table_pool (upd_table p g w) = table_pool w" "idx_pool (upd_table p g w) = idx_pool w"
  "log_pool (upd_table p g w) = log_pool w" "mmio_pool (upd_table p g w) = mmio_pool w"
  "bravo (upd_table p g w) = bravo w"
  by (simp_all add: upd_table_def)

lemma upd_mmio_sel [simp]:
  "mmios (upd_mmio p h w) = (mmios w)(p := h (mmios w p))"
  "mem (upd_mmio p h w) = mem w" "ptrace (upd_mmio p h w) = ptrace w"
  "idxs (upd_mmio p h w) = idxs w" "tables (upd_mmio p h w) = tables w"
  "table_pool (upd_mmio p h w) = table_pool w" "idx_pool (upd_mmio p h w) = idx_pool w"
  "log_pool (upd_mmio p h w) = log_pool w" "mmio_pool (upd_mmio p h w) = mmio_pool w"
  "bravo (upd_mmio p h w) = bravo w"
  by (simp_all add: upd_mmio_def)

lemma FLUSH_sel [simp]:
  "mem (FLUSH p w) = mem w" "idxs (FLUSH p w) = idxs w" "tables (FLUSH p w) = tables w"
  "mmios (FLUSH p w) = mmios w" "table_pool (FLUSH p w) = table_pool w" "idx_pool (FLUSH p w) = idx_pool w"
  "log_pool (FLUSH p w) = log_pool w" "mmio_pool (FLUSH p w) = mmio_pool w" "bravo (FLUSH p w) = bravo w"
  "ptrace (FLUSH p w) = ptrace w @ [PFlush p]"
  by (simp_all add: FLUSH_def)

lemma FENCE_sel [simp]:
  "mem (FENCE w) = mem w" "idxs (FENCE w) = idxs w" "tables (FENCE w) = tables w"
  "mmios (FENCE w) = mmios w" "table_pool (FENCE w) = table_pool w" "idx_pool (FENCE w) = idx_pool w"
  "log_pool (FENCE w) = log_pool w" "mmio_pool (FENCE w) = mmio_pool w" "bravo (FENCE w) = bravo w"
  "ptrace (FENCE w) = ptrace w @ [PFence]"
  by (simp_all add: FENCE_def)

end
