(* ===== verification/Allocator.thy ===== *)
theory Allocator
  imports World
begin

text \<open>
  The typed allocators of src/src/allocator.c over the pools of theory Flist: radix tables,
  index entries with their log space, and the initial contents of the objects.
\<close>

subsection \<open>Tables\<close>

definition alloc_log_table :: "tid \<Rightarrow> table_type \<Rightarrow> world \<Rightarrow> (ptr \<times> world) res" where
  "alloc_log_table t type w =
     bindE (POP_PROVIDER t (table_pool w))
       (\<lambda>(table, pool).
          Inr (table, upd_table table (\<lambda>tb. tb\<lparr>ttype := type, tlog_size := NR_LOG_SIZES\<rparr>)
                        (w\<lparr>table_pool := pool\<rparr>)))"

definition free_log_table :: "tid \<Rightarrow> ptr \<Rightarrow> world \<Rightarrow> world res" where
  "free_log_table t table w =
     bindE (PUSH_COLLECTOR t table (table_pool w)) (\<lambda>pool. Inr (w\<lparr>table_pool := pool\<rparr>))"

subsection \<open>Log space and index entries\<close>

definition alloc_log_data :: "tid \<Rightarrow> log_size_t \<Rightarrow> world \<Rightarrow> (addr \<times> world) res" where
  "alloc_log_data t s w =
     bindE (POP_PROVIDER t (log_pool w s))
       (\<lambda>(data, pool). Inr (data, w\<lparr>log_pool := (log_pool w)(s := pool)\<rparr>))"

definition free_log_data :: "tid \<Rightarrow> addr \<Rightarrow> log_size_t \<Rightarrow> world \<Rightarrow> world res" where
  "free_log_data t data s w =
     bindE (PUSH_COLLECTOR t data (log_pool w s))
       (\<lambda>pool. Inr (w\<lparr>log_pool := (log_pool w)(s := pool)\<rparr>))"

definition alloc_idx_entry :: "tid \<Rightarrow> log_size_t \<Rightarrow> world \<Rightarrow> (ptr \<times> world) res" where
  "alloc_idx_entry t s w =
     bindE (POP_PROVIDER t (idx_pool w))
       (\<lambda>(entry, pool).
          bindE (alloc_log_data t s (w\<lparr>idx_pool := pool\<rparr>))
            (\<lambda>(data, w1).
               Inr (entry, upd_entry entry (\<lambda>e. e\<lparr>log := data, rwlockp := RWLOCK_INIT\<rparr>) w1)))"

definition free_idx_entry :: "tid \<Rightarrow> ptr \<Rightarrow> log_size_t \<Rightarrow> world \<Rightarrow> world res" where
  "free_idx_entry t entry s w =
     bindE (free_log_data t (log (idxs w entry)) s w)
       (\<lambda>w1.
          let w2 = upd_entry entry (\<lambda>e. e\<lparr>log := 0, united := 0, dst := 0\<rparr>) w1
          in bindE (RWLOCK_DESTROY (rwlockp (idxs w2 entry))) (\<lambda>l.
               let w3 = upd_entry entry (\<lambda>e. e\<lparr>rwlockp := l\<rparr>) w2
               in bindE (PUSH_COLLECTOR t entry (idx_pool w3)) (\<lambda>pool. Inr (w3\<lparr>idx_pool := pool\<rparr>))))"

text \<open>The destroyed lock keeps its memory, so the entry is only cleared.\<close>

lemma free_idx_entry_eq:
  "free_idx_entry t entry s w =
     bindE (free_log_data t (log (idxs w entry)) s w)
       (\<lambda>w1.
          let w2 = upd_entry entry (\<lambda>e. e\<lparr>log := 0, united := 0, dst := 0\<rparr>) w1
          in bindE (PUSH_COLLECTOR t entry (idx_pool w2)) (\<lambda>pool. Inr (w2\<lparr>idx_pool := pool\<rparr>)))"
proof -
  have "e\<lparr>log := 0, united := 0, dst := 0, rwlockp := rwlockp e\<rparr> = e\<lparr>log := 0, united := 0, dst := 0\<rparr>" for e :: idx_entry
    by (cases e) simp
  then show ?thesis by (simp add: free_idx_entry_def RWLOCK_DESTROY_def Let_def upd_entry_def)
qed

subsection \<open>Initial contents of the objects\<close>

definition init_table :: "log_table \<Rightarrow> log_table" where
  "init_table tb = tb\<lparr>tlog_size := 0, entries := (\<lambda>_. None)\<rparr>"

definition init_idx :: "idx_entry \<Rightarrow> idx_entry" where
  "init_idx e = e\<lparr>rwlockp := RWLOCK_INIT, united := 0, dst := 0, log := 0\<rparr>"

definition init_mmio :: "mmio \<Rightarrow> mmio" where
  "init_mmio m =
     m\<lparr>rwlock := bravo_rwlock_init, start := 0, end_addr := 0, ino := 0, moffset := 0,
       policy := DEFAULT_POLICY,
       radixlog := (radixlog m)\<lparr>lgd := None, skip := None\<rparr>,
       read_cnt := 0, write_cnt := 0, fsize := 0\<rparr>"

end
