(* ===== verification/Radixlog.thy ===== *)
theory Radixlog
  imports Allocator
begin

text \<open>
  The radix tree of logs, src/src/radixlog.c. A file offset selects a path of table indices
  (LGD, LUD, LMD) to a leaf table that covers two megabytes; the leaf has one log size and an
  index entry per block of that size. \<^verbatim>\<open>skip\<close> is the deepest table that covers the file when
  it is opened, where every search starts; \<^verbatim>\<open>prev_table\<close> caches the last leaf.

  A compare-and-swap is modelled with both outcomes; in a run of one thread it succeeds.
\<close>

subsection \<open>Operations\<close>

definition check_prev_table :: "nat \<Rightarrow> nat \<Rightarrow> bool" where
  "check_prev_table prev_index off \<longleftrightarrow> prev_index = (drop_bit LMD_SHIFT off AND TABLE_MASK)"

definition get_deepest_table_type :: "nat \<Rightarrow> table_type" where
  "get_deepest_table_type maxoff =
     (if drop_bit LMD_SHIFT maxoff \<noteq> 0 then
        if drop_bit LUD_SHIFT maxoff \<noteq> 0 then
          if drop_bit LGD_SHIFT maxoff \<noteq> 0 then LGD else LUD
        else LMD
      else TABLE)"

text \<open>\<^verbatim>\<open>NEXT_TABLE_TYPE\<close>; below \<^verbatim>\<open>TABLE\<close> is 0, no table type.\<close>

fun NEXT_TABLE_TYPE :: "table_type \<Rightarrow> table_type option" where
  "NEXT_TABLE_TYPE LGD = Some LUD"
| "NEXT_TABLE_TYPE LUD = Some LMD"
| "NEXT_TABLE_TYPE LMD = Some TABLE"
| "NEXT_TABLE_TYPE TABLE = None"

definition set_table_entry :: "ptr \<Rightarrow> nat \<Rightarrow> ptr option \<Rightarrow> world \<Rightarrow> world" where
  "set_table_entry p i v = upd_table p (\<lambda>tb. tb\<lparr>entries := (entries tb)(i := v)\<rparr>)"

text \<open>
  The \<^verbatim>\<open>do ... while\<close> loop of \<^verbatim>\<open>init_radixlog\<close>: one table per level from LGD down to the deepest
  type, each linked into its parent at the index of the last byte of the file.
\<close>

function init_radix_loop :: "tid \<Rightarrow> table_type \<Rightarrow> nat \<Rightarrow> table_type \<Rightarrow> ptr option \<Rightarrow> radix_root \<Rightarrow> world \<Rightarrow>
    (radix_root \<times> world) res" where
  "init_radix_loop t deepest maxoff type parent root w =
     bindE (alloc_log_table t type w) (\<lambda>(table, w1).
     bindE (case parent of
              None \<Rightarrow> Inr (root\<lparr>lgd := Some table\<rparr>, w1)
            | Some p \<Rightarrow>
                (case type of
                   LUD \<Rightarrow> Inr (root, set_table_entry p (LGD_INDEX maxoff) (Some table) w1)
                 | LMD \<Rightarrow> Inr (root, set_table_entry p (LUD_INDEX maxoff) (Some table) w1)
                 | TABLE \<Rightarrow> Inr (root, set_table_entry p (LMD_INDEX maxoff) (Some table) w1)
                 | LGD \<Rightarrow> Inl (Exit ''wrong table type'')))
       (\<lambda>(root1, w2).
          case NEXT_TABLE_TYPE type of
            None \<Rightarrow> Inr (root1\<lparr>skip := Some table, prev_table_index := 2 ^ 64 - 1\<rparr>, w2)
          | Some type1 \<Rightarrow>
              if deepest \<le> type1 then init_radix_loop t deepest maxoff type1 (Some table) root1 w2
              else Inr (root1\<lparr>skip := Some table, prev_table_index := 2 ^ 64 - 1\<rparr>, w2)))"
  by pat_completeness auto
termination
proof (relation "measure (\<lambda>(t, deepest, maxoff, type, parent, root, w). table_type_val type)", goal_cases)
  case 1
  then show ?case by simp
next
  case (2 t deepest maxoff type)
  then show ?case by (cases type) auto
qed

declare init_radix_loop.simps [simp del]

definition init_radixlog :: "tid \<Rightarrow> radix_root \<Rightarrow> nat \<Rightarrow> world \<Rightarrow> (radix_root \<times> world) res" where
  "init_radixlog t root filesize w =
     (let maxoff = ul_sub filesize 1
      in init_radix_loop t (get_deepest_table_type maxoff) maxoff LGD None root w)"

definition child :: "world \<Rightarrow> ptr \<Rightarrow> nat \<Rightarrow> ptr option" where
  "child w p i = entries (tables w p) i"

definition find_log_table :: "world \<Rightarrow> radix_root \<Rightarrow> nat \<Rightarrow> ptr option" where
  "find_log_table w root off =
     (case skip root of
        None \<Rightarrow> None
      | Some s \<Rightarrow>
          (case ttype (tables w s) of
             TABLE \<Rightarrow> Some s
           | LMD \<Rightarrow> child w s (LMD_INDEX off)
           | LUD \<Rightarrow>
               (case child w s (LUD_INDEX off) of
                  None \<Rightarrow> None
                | Some lmd \<Rightarrow> child w lmd (LMD_INDEX off))
           | LGD \<Rightarrow>
               (case child w s (LGD_INDEX off) of
                  None \<Rightarrow> None
                | Some lud \<Rightarrow>
                    (case child w lud (LUD_INDEX off) of
                       None \<Rightarrow> None
                     | Some lmd \<Rightarrow> child w lmd (LMD_INDEX off)))))"

definition ALLOC_TABLE :: "tid \<Rightarrow> table_type \<Rightarrow> ptr \<Rightarrow> nat \<Rightarrow> world \<Rightarrow> (ptr \<times> world) res" where
  "ALLOC_TABLE t type parent index w =
     bindE (alloc_log_table t type w) (\<lambda>(table, w1).
       case child w1 parent index of
         None \<Rightarrow> Inr (table, set_table_entry parent index (Some table) w1)
       | Some other \<Rightarrow> bindE (free_log_table t table w1) (\<lambda>w2. Inr (other, w2)))"

text \<open>The step that \<^verbatim>\<open>get_log_table\<close> repeats at each level.\<close>

definition get_child :: "tid \<Rightarrow> table_type \<Rightarrow> ptr \<Rightarrow> nat \<Rightarrow> world \<Rightarrow> (ptr \<times> world) res" where
  "get_child t type parent index w =
     (case child w parent index of
        Some c \<Rightarrow> Inr (c, w)
      | None \<Rightarrow> ALLOC_TABLE t type parent index w)"

definition walk_log_table :: "tid \<Rightarrow> ptr \<Rightarrow> nat \<Rightarrow> world \<Rightarrow> (ptr \<times> world) res" where
  "walk_log_table t s off w =
     (case ttype (tables w s) of
        TABLE \<Rightarrow> Inr (s, w)
      | LMD \<Rightarrow> get_child t TABLE s (LMD_INDEX off) w
      | LUD \<Rightarrow>
          bindE (get_child t LMD s (LUD_INDEX off) w) (\<lambda>(lmd, w).
          get_child t TABLE lmd (LMD_INDEX off) w)
      | LGD \<Rightarrow>
          bindE (get_child t LUD s (LGD_INDEX off) w) (\<lambda>(lud, w).
          bindE (get_child t LMD lud (LUD_INDEX off) w) (\<lambda>(lmd, w).
          get_child t TABLE lmd (LMD_INDEX off) w)))"

definition get_log_table :: "tid \<Rightarrow> radix_root \<Rightarrow> nat \<Rightarrow> world \<Rightarrow> (ptr \<times> radix_root \<times> world) res" where
  "get_log_table t root off w =
     (if check_prev_table (prev_table_index root) off then
        (case prev_table root of None \<Rightarrow> Inl (UB ''NULL table'') | Some p \<Rightarrow> Inr (p, root, w))
      else
        (case skip root of
           None \<Rightarrow> Inl (UB ''NULL skip'')
         | Some s \<Rightarrow>
             bindE (walk_log_table t s off w) (\<lambda>(table, w1).
               Inr (table,
                    root\<lparr>prev_table := Some table,
                         prev_table_index := TABLE_MASK AND drop_bit LMD_SHIFT off\<rparr>, w1))))"

function set_log_size_loop :: "nat \<Rightarrow> log_size_t \<Rightarrow> log_size_t" where
  "set_log_size_loop len s =
     (if len \<noteq> 0 \<and> s < NR_LOG_SIZES - 1 then set_log_size_loop (drop_bit 1 len) (s + 1) else s)"
  by pat_completeness auto
termination
  by (relation "measure (\<lambda>(len, s). NR_LOG_SIZES - s)") auto

declare set_log_size_loop.simps [simp del]

definition set_log_size :: "nat \<Rightarrow> nat \<Rightarrow> log_size_t" where
  "set_log_size off len =
     (let len1 = ul (len + (off AND (LOG_SIZE LOG_4K - 1)));
          len2 = drop_bit (LOG_SHIFT LOG_4K) (ul_sub len1 1)
      in set_log_size_loop len2 LOG_4K)"

definition get_log_size :: "ptr \<Rightarrow> nat \<Rightarrow> nat \<Rightarrow> world \<Rightarrow> log_size_t \<times> world" where
  "get_log_size table off len w =
     (if tlog_size (tables w table) \<noteq> NR_LOG_SIZES then (tlog_size (tables w table), w)
      else
        let s = set_log_size off len
        in (s, upd_table table (\<lambda>tb. tb\<lparr>tlog_size := s\<rparr>) w))"

definition get_log_entry :: "tid \<Rightarrow> nat \<Rightarrow> ptr \<Rightarrow> nat \<Rightarrow> log_size_t \<Rightarrow> world \<Rightarrow> (ptr \<times> world) res" where
  "get_log_entry t ep table index s w =
     (case child w table index of
        Some entry \<Rightarrow> Inr (entry, w)
      | None \<Rightarrow>
          bindE (alloc_idx_entry t s w) (\<lambda>(entry, w1).
            let w2 = upd_entry entry (set_epoch ep) w1
            in case child w2 table index of
                 None \<Rightarrow> Inr (entry, set_table_entry table index (Some entry) w2)
               | Some other \<Rightarrow> bindE (free_idx_entry t entry s w2) (\<lambda>w3. Inr (other, w3))))"

subsection \<open>Choosing a log size\<close>

lemma set_log_size_loop_ge: "s \<le> set_log_size_loop len s"
proof (induction len s rule: set_log_size_loop.induct)
  case (1 len s)
  then show ?case by (subst set_log_size_loop.simps) auto
qed

lemma set_log_size_loop_le: "s \<le> 9 \<Longrightarrow> set_log_size_loop len s \<le> 9"
proof (induction len s rule: set_log_size_loop.induct)
  case (1 len s)
  then show ?case by (subst set_log_size_loop.simps) (auto simp: NR_LOG_SIZES_def)
qed

lemma set_log_size_loop_fits:
  "s \<le> 9 \<Longrightarrow> set_log_size_loop len s = 9 \<or> len < 2 ^ (set_log_size_loop len s - s)"
proof (induction len s rule: set_log_size_loop.induct)
  case (1 len s)
  show ?case
  proof (cases "len \<noteq> 0 \<and> s < NR_LOG_SIZES - 1")
    case True
    let ?r = "set_log_size_loop (drop_bit 1 len) (s + 1)"
    have r: "set_log_size_loop len s = ?r" using True by (subst set_log_size_loop.simps) simp
    have ge: "s + 1 \<le> ?r" by (rule set_log_size_loop_ge)
    have "?r = 9 \<or> drop_bit 1 len < 2 ^ (?r - (s + 1))" using "1.IH" True by (simp add: NR_LOG_SIZES_def)
    moreover have "len < 2 ^ (?r - s)" if "drop_bit 1 len < 2 ^ (?r - (s + 1))"
    proof -
      have "?r - s = Suc (?r - (s + 1))" using ge by simp
      then show ?thesis using that by (simp add: drop_bit_eq_div)
    qed
    ultimately show ?thesis using r by auto
  next
    case False
    then show ?thesis using "1.prems" by (subst (1 2) set_log_size_loop.simps) (auto simp: NR_LOG_SIZES_def)
  qed
qed

lemma set_log_size_loop_least:
  "s < set_log_size_loop len s \<Longrightarrow> 2 ^ (set_log_size_loop len s - s - 1) \<le> len"
proof (induction len s rule: set_log_size_loop.induct)
  case (1 len s)
  have t: "len \<noteq> 0 \<and> s < NR_LOG_SIZES - 1"
    using "1.prems" by (subst (asm) set_log_size_loop.simps) (auto split: if_splits)
  let ?r = "set_log_size_loop (drop_bit 1 len) (s + 1)"
  have r: "set_log_size_loop len s = ?r" using t by (subst set_log_size_loop.simps) simp
  show ?case
  proof (cases "s + 1 < ?r")
    case True
    then have "2 ^ (?r - (s + 1) - 1) \<le> drop_bit 1 len" using "1.IH" t by simp
    then have "2 * 2 ^ (?r - (s + 1) - 1) \<le> len" by (simp add: drop_bit_eq_div)
    moreover have "?r - s - 1 = Suc (?r - (s + 1) - 1)" using True by simp
    ultimately show ?thesis using r by simp
  next
    case False
    then have "?r = s + 1" using set_log_size_loop_ge [of "s + 1" "drop_bit 1 len"] by simp
    then show ?thesis using r t by simp
  qed
qed

lemma set_log_size_less: "set_log_size off len < NR_LOG_SIZES"
proof -
  have "set_log_size_loop x 0 < 10" for x using set_log_size_loop_le [of 0 x] by simp
  then show ?thesis by (simp add: set_log_size_def Let_def layout_simps)
qed

lemma set_log_size_pages:
  assumes "0 < len" and "off mod 4096 + len < 2 ^ 64"
  shows "set_log_size off len = set_log_size_loop ((off mod 4096 + len - 1) div 4096) 0"
proof -
  have "off AND (LOG_SIZE LOG_4K - 1) = off mod 4096"
    using LOG_OFFSET_mod [of off LOG_4K] by (simp add: LOG_OFFSET_def LOG_SIZE_eq LOG_4K_def)
  then show ?thesis using assms
    by (simp add: set_log_size_def Let_def ul_sub_ge drop_bit_eq_div layout_simps add.commute)
qed

lemma set_log_size_fits:
  assumes "0 < len" and "off mod 4096 + len < 2 ^ 64"
  shows "set_log_size off len = 9 \<or> off mod 4096 + len \<le> LOG_SIZE (set_log_size off len)"
proof -
  let ?x = "off mod 4096 + len - 1" and ?s = "set_log_size off len"
  have "?s = 9 \<or> ?x div 4096 < 2 ^ ?s"
    using set_log_size_loop_fits [of 0 "?x div 4096"] set_log_size_pages [OF assms] by simp
  then show ?thesis using assms(1)
    by (auto simp: LOG_SIZE_eq power_add div_less_iff_less_mult)
qed

lemma set_log_size_minimal:
  assumes "0 < len" and "off mod 4096 + len < 2 ^ 64" and "s < set_log_size off len"
  shows "LOG_SIZE s < off mod 4096 + len"
proof -
  let ?x = "off mod 4096 + len - 1" and ?r = "set_log_size off len"
  have "2 ^ (?r - 1) \<le> ?x div 4096"
    using set_log_size_loop_least [of 0 "?x div 4096"] set_log_size_pages [OF assms(1,2)] assms(3) by simp
  then have "4096 * 2 ^ (?r - 1) \<le> ?x" by (simp add: less_eq_div_iff_mult_less_eq mult.commute)
  moreover have "4096 * (2::nat) ^ s \<le> 4096 * 2 ^ (?r - 1)"
    using assms(3) by (intro mult_le_mono2 power_increasing) auto
  ultimately have "4096 * 2 ^ s < off mod 4096 + len" using assms(1) by linarith
  then show ?thesis by (simp add: LOG_SIZE_eq power_add)
qed

subsection \<open>Paths in the tree\<close>

text \<open>
  The indices that a search from a table of the given type follows to the leaf, and the
  search itself.
\<close>

fun path :: "table_type \<Rightarrow> nat \<Rightarrow> nat list" where
  "path TABLE off = []"
| "path LMD off = [LMD_INDEX off]"
| "path LUD off = [LUD_INDEX off, LMD_INDEX off]"
| "path LGD off = [LGD_INDEX off, LUD_INDEX off, LMD_INDEX off]"

fun follow :: "(ptr \<Rightarrow> log_table) \<Rightarrow> ptr \<Rightarrow> nat list \<Rightarrow> ptr option" where
  "follow h p [] = Some p"
| "follow h p (i # is) = (case entries (h p) i of None \<Rightarrow> None | Some c \<Rightarrow> follow h c is)"

definition depth :: "table_type \<Rightarrow> nat" where
  "depth ty = table_type_val ty - 1"

lemma length_path [simp]: "length (path ty off) = depth ty"
  by (cases ty) (simp_all add: depth_def)

lemma follow_snoc:
  "follow h p (is @ [i]) = (case follow h p is of None \<Rightarrow> None | Some q \<Rightarrow> entries (h q) i)"
  by (induction "is" arbitrary: p) (auto split: option.splits)

lemma find_log_table_follow:
  "find_log_table w root off =
     (case skip root of None \<Rightarrow> None | Some s \<Rightarrow> follow (tables w) s (path (ttype (tables w s)) off))"
  by (auto simp: find_log_table_def child_def split: option.split table_type.split)

text \<open>The tree is a tree: within its depth every table is reached by one path only.\<close>

definition tree_inj :: "(ptr \<Rightarrow> log_table) \<Rightarrow> ptr \<Rightarrow> nat \<Rightarrow> bool" where
  "tree_inj h s d \<longleftrightarrow> (\<forall>ps qs x. length ps \<le> d \<and> length qs \<le> d \<and>
     follow h s ps = Some x \<and> follow h s qs = Some x \<longrightarrow> ps = qs)"

definition reached :: "(ptr \<Rightarrow> log_table) \<Rightarrow> ptr \<Rightarrow> nat \<Rightarrow> ptr set" where
  "reached h s d = {x. \<exists>ps. length ps \<le> d \<and> follow h s ps = Some x}"

lemma reachedI: "follow h s ps = Some x \<Longrightarrow> length ps \<le> d \<Longrightarrow> x \<in> reached h s d"
  by (auto simp: reached_def)

lemma follow_link:
  assumes inj: "tree_inj h s d" and p: "follow h s ps = Some p" "length ps < d"
    and none: "entries (h p) i = None"
    and c: "c \<notin> reached h s d" "entries (h' c) = (\<lambda>_. None)"
    and h': "\<And>q. q \<noteq> c \<Longrightarrow> entries (h' q) = (if q = p then (entries (h p))(i := Some c) else entries (h q))"
  shows "length qs \<le> d \<Longrightarrow> follow h' s qs = (if qs = ps @ [i] then Some c else follow h s qs)"
proof (induction qs rule: rev_induct)
  case Nil
  then show ?case by simp
next
  case (snoc j qs)
  then have IH: "follow h' s qs = (if qs = ps @ [i] then Some c else follow h s qs)" by simp
  show ?case
  proof (cases "qs = ps @ [i]")
    case True
    have "follow h s qs = None" using True p none by (simp add: follow_snoc)
    moreover have "follow h' s qs = Some c" using True IH by simp
    ultimately show ?thesis using True c(2) by (simp only: follow_snoc) simp
  next
    case False
    show ?thesis
    proof (cases "follow h s qs")
      case None
      then have "qs \<noteq> ps" using p by auto
      then show ?thesis using None IH False by (simp add: follow_snoc)
    next
      case (Some q)
      have "q \<noteq> c" using Some c(1) snoc.prems by (auto simp: reached_def)
      moreover have "q = p \<longleftrightarrow> qs = ps"
        using inj Some p snoc.prems unfolding tree_inj_def by (metis length_append_singleton less_imp_le Suc_leD option.inject)
      ultimately show ?thesis using Some IH False h' none by (auto simp: follow_snoc)
    qed
  qed
qed

lemma tree_inj_link:
  assumes "tree_inj h s d" and "c \<notin> reached h s d"
    and "\<And>qs. length qs \<le> d \<Longrightarrow> follow h' s qs = (if qs = rs then Some c else follow h s qs)"
  shows "tree_inj h' s d" and "reached h' s d \<subseteq> insert c (reached h s d)"
  using assms unfolding tree_inj_def reached_def by (auto split: if_splits)

subsection \<open>Growing the tree\<close>

definition tables_ok :: "world \<Rightarrow> ptr \<Rightarrow> nat \<Rightarrow> bool" where
  "tables_ok w s d \<longleftrightarrow> pool_inv (table_pool w) \<and> tree_inj (tables w) s d \<and>
     reached (tables w) s d \<inter> avail (table_pool w) = {} \<and>
     (\<forall>p \<in> avail (table_pool w). entries (tables w p) = (\<lambda>_. None))"

definition fresh_leaf :: "log_table \<Rightarrow> bool" where
  "fresh_leaf tb \<longleftrightarrow> entries tb = (\<lambda>_. None) \<and> tlog_size tb = NR_LOG_SIZES"

text \<open>Nothing but the tables and their pool has changed.\<close>

definition only_tables :: "world \<Rightarrow> world \<Rightarrow> bool" where
  "only_tables w w' \<longleftrightarrow> mem w' = mem w \<and> ptrace w' = ptrace w \<and> idxs w' = idxs w \<and>
     mmios w' = mmios w \<and> idx_pool w' = idx_pool w \<and> log_pool w' = log_pool w \<and>
     mmio_pool w' = mmio_pool w \<and> bravo w' = bravo w"

lemma only_tables_refl: "only_tables w w"
  by (simp add: only_tables_def)

lemma only_tables_trans: "only_tables w w1 \<Longrightarrow> only_tables w1 w2 \<Longrightarrow> only_tables w w2"
  by (simp add: only_tables_def)

lemma alloc_log_table_spec:
  assumes "pool_inv (table_pool w)" and "alloc_log_table t ty w = Inr (c, w')"
  shows "pool_inv (table_pool w')" and "c \<in> avail (table_pool w)"
    and "avail (table_pool w') = avail (table_pool w) - {c}"
    and "tables w' = (tables w)(c := (tables w c)\<lparr>ttype := ty, tlog_size := NR_LOG_SIZES\<rparr>)"
    and "only_tables w w'"
proof -
  obtain pool where p: "POP_PROVIDER t (table_pool w) = Inr (c, pool)"
    and w': "w' = upd_table c (\<lambda>tb. tb\<lparr>ttype := ty, tlog_size := NR_LOG_SIZES\<rparr>) (w\<lparr>table_pool := pool\<rparr>)"
    using assms(2) by (auto simp: alloc_log_table_def bindE_eq_Inr)
  show "pool_inv (table_pool w')" and "c \<in> avail (table_pool w)"
    and "avail (table_pool w') = avail (table_pool w) - {c}"
    using fl.alloc_law [OF assms(1) p] by (simp_all add: w')
  show "tables w' = (tables w)(c := (tables w c)\<lparr>ttype := ty, tlog_size := NR_LOG_SIZES\<rparr>)"
    and "only_tables w w'" by (simp_all add: w' only_tables_def upd_table_def)
qed

lemma get_child_spec:
  assumes ok: "tables_ok w s d" and p: "follow (tables w) s ps = Some p" "length ps < d"
    and r: "get_child t ty p i w = Inr (c, w')"
  shows "tables_ok w' s d" and "only_tables w w'"
    and "\<And>qs. length qs \<le> d \<Longrightarrow>
           follow (tables w') s qs = (if qs = ps @ [i] then Some c else follow (tables w) s qs)"
    and "\<And>q. q \<in> reached (tables w) s d \<Longrightarrow>
           ttype (tables w' q) = ttype (tables w q) \<and> (q \<noteq> p \<longrightarrow> tables w' q = tables w q)"
    and "follow (tables w) s (ps @ [i]) = None \<Longrightarrow> fresh_leaf (tables w' c)"
    and "\<And>q. follow (tables w) s (ps @ [i]) = Some q \<Longrightarrow> q = c"
proof -
  have "tables_ok w' s d \<and> only_tables w w' \<and>
      (\<forall>qs. length qs \<le> d \<longrightarrow>
           follow (tables w') s qs = (if qs = ps @ [i] then Some c else follow (tables w) s qs)) \<and>
      (\<forall>q \<in> reached (tables w) s d.
           ttype (tables w' q) = ttype (tables w q) \<and> (q \<noteq> p \<longrightarrow> tables w' q = tables w q)) \<and>
      (follow (tables w) s (ps @ [i]) = None \<longrightarrow> fresh_leaf (tables w' c)) \<and>
      (\<forall>q. follow (tables w) s (ps @ [i]) = Some q \<longrightarrow> q = c)"
  proof (cases "entries (tables w p) i")
    case (Some c')
    then have "c = c'" "w' = w" using r by (simp_all add: get_child_def child_def)
    then show ?thesis using ok p Some by (auto simp: only_tables_refl follow_snoc)
  next
    case None
    obtain x w1 where a': "alloc_log_table t ty w = Inr (x, w1)"
      and rest: "(case child w1 p i of
           None \<Rightarrow> Inr (x, set_table_entry p i (Some x) w1)
         | Some other \<Rightarrow> bindE (free_log_table t x w1) (\<lambda>w2. Inr (other, w2))) = Inr (c, w')"
      using r None unfolding get_child_def ALLOC_TABLE_def child_def by (auto elim!: bindE_InrE)
    have pi: "pool_inv (table_pool w)" using ok by (simp add: tables_ok_def)
    note al' = alloc_log_table_spec [OF pi a']
    have x: "x \<notin> reached (tables w) s d" "entries (tables w x) = (\<lambda>_. None)"
      using ok al'(2) by (auto simp: tables_ok_def)
    have pr: "p \<in> reached (tables w) s d" using p by (auto intro: reachedI)
    have "child w1 p i = None" using al'(4) None x pr by (auto simp: child_def)
    then have xc: "x = c" and w': "w' = set_table_entry p i (Some c) w1" using rest by auto
    note al = al' [unfolded xc] and c = x [unfolded xc]
    have cp: "c \<noteq> p" using c pr by auto
    have t': "tables w' = (tables w1)(p := (tables w1 p)\<lparr>entries := (entries (tables w1 p))(i := Some c)\<rparr>)"
      by (simp add: w' set_table_entry_def)
    have h': "entries (tables w' q) = (if q = p then (entries (tables w p))(i := Some c) else entries (tables w q))"
      if "q \<noteq> c" for q using that cp by (simp add: t' al(4))
    have ec: "entries (tables w' c) = (\<lambda>_. None)" using cp c(2) by (simp add: t' al(4))
    have inj: "tree_inj (tables w) s d" using ok by (simp add: tables_ok_def)
    note fl = follow_link [OF inj p None c(1) ec h']
    note tl = tree_inj_link [OF inj c(1) fl]
    have av: "avail (table_pool w') = avail (table_pool w) - {c}" "pool_inv (table_pool w')"
      using al by (simp_all add: w' set_table_entry_def)
    have "\<forall>q \<in> avail (table_pool w'). entries (tables w' q) = (\<lambda>_. None)"
      using ok av pr h' by (auto simp: tables_ok_def)
    then have "tables_ok w' s d"
      using ok tl av unfolding tables_ok_def by blast
    moreover have "only_tables w w'" using al(5) by (simp add: only_tables_def w' set_table_entry_def)
    moreover have "fresh_leaf (tables w' c)" using cp ec by (simp add: fresh_leaf_def) (simp add: t' al(4))
    moreover have "\<forall>q \<in> reached (tables w) s d.
        ttype (tables w' q) = ttype (tables w q) \<and> (q \<noteq> p \<longrightarrow> tables w' q = tables w q)"
      using c(1) by (auto simp: t' al(4))
    moreover have "follow (tables w) s (ps @ [i]) = None" using p None by (simp add: follow_snoc)
    ultimately show ?thesis using fl by auto
  qed
  then show "tables_ok w' s d" and "only_tables w w'"
    and "\<And>qs. length qs \<le> d \<Longrightarrow>
           follow (tables w') s qs = (if qs = ps @ [i] then Some c else follow (tables w) s qs)"
    and "\<And>q. q \<in> reached (tables w) s d \<Longrightarrow>
           ttype (tables w' q) = ttype (tables w q) \<and> (q \<noteq> p \<longrightarrow> tables w' q = tables w q)"
    and "follow (tables w) s (ps @ [i]) = None \<Longrightarrow> fresh_leaf (tables w' c)"
    and "\<And>q. follow (tables w) s (ps @ [i]) = Some q \<Longrightarrow> q = c"
    by blast+
qed

text \<open>
  What a search that has got from the start table \<open>s\<close> along \<open>ps\<close> to the table \<open>c\<close> has
  changed: at the level of the leaves only the searched path, and no existing leaf.
\<close>

definition walked :: "world \<Rightarrow> world \<Rightarrow> ptr \<Rightarrow> nat \<Rightarrow> nat list \<Rightarrow> ptr \<Rightarrow> bool" where
  "walked w w' s d ps c \<longleftrightarrow> tables_ok w' s d \<and> only_tables w w' \<and> follow (tables w') s ps = Some c \<and>
     (\<forall>qs. length qs = d \<longrightarrow>
        follow (tables w') s qs = (if qs = ps then Some c else follow (tables w) s qs)) \<and>
     (\<forall>qs x. length qs = d \<and> follow (tables w) s qs = Some x \<longrightarrow> tables w' x = tables w x) \<and>
     ttype (tables w' s) = ttype (tables w s) \<and>
     (length ps = d \<longrightarrow> follow (tables w) s ps = None \<longrightarrow> fresh_leaf (tables w' c)) \<and>
     (length ps = d \<longrightarrow> (\<forall>q. follow (tables w) s ps = Some q \<longrightarrow> q = c))"

lemma walked_start: "tables_ok w s d \<Longrightarrow> walked w w s d [] s"
  by (auto simp: walked_def only_tables_refl)

lemma walked_step:
  assumes w1: "walked w w1 s d ps p" and len: "length ps < d"
    and r: "get_child t ty p i w1 = Inr (c, w2)"
  shows "walked w w2 s d (ps @ [i]) c"
proof -
  have ok: "tables_ok w1 s d" and f: "follow (tables w1) s ps = Some p" using w1 by (simp_all add: walked_def)
  note g = get_child_spec [OF ok f len r]
  have old: "follow (tables w1) s qs = follow (tables w) s qs" if "length qs = d" for qs
    using w1 that len by (auto simp: walked_def)
  have leaf: "tables w2 x = tables w x" if q: "length qs = d" "follow (tables w) s qs = Some x" for qs x
  proof -
    have x: "follow (tables w1) s qs = Some x" using old q by simp
    have "x \<noteq> p"
    proof
      assume "x = p"
      moreover have "tree_inj (tables w1) s d" using ok by (simp add: tables_ok_def)
      ultimately have "qs = ps" using x f q(1) len unfolding tree_inj_def by auto
      then show False using q(1) len by simp
    qed
    then have "tables w2 x = tables w1 x" using g(4) x q(1) reachedI by (metis order_refl)
    moreover have "tables w1 x = tables w x" using w1 q unfolding walked_def by blast
    ultimately show ?thesis by simp
  qed
  have "s \<in> reached (tables w1) s d" by (rule reachedI [of _ _ "[]"]) auto
  then have "ttype (tables w2 s) = ttype (tables w s)" using g(4) w1 by (simp add: walked_def)
  moreover have "only_tables w w2" using w1 g(2) only_tables_trans by (auto simp: walked_def)
  moreover have "follow (tables w2) s (ps @ [i]) = Some c" using g(3) [of "ps @ [i]"] len by simp
  moreover have "follow (tables w2) s qs = (if qs = ps @ [i] then Some c else follow (tables w) s qs)"
    if "length qs = d" for qs using g(3) [of qs] old that by simp
  moreover have "fresh_leaf (tables w2 c)" if "length (ps @ [i]) = d" "follow (tables w) s (ps @ [i]) = None"
    using g(5) old that by simp
  moreover have "q = c" if "length (ps @ [i]) = d" "follow (tables w) s (ps @ [i]) = Some q" for q
    using g(6) old that by simp
  ultimately show ?thesis using g(1) leaf unfolding walked_def by blast
qed

lemma walk_log_table_walked:
  assumes ok: "tables_ok w s (depth (ttype (tables w s)))"
    and r: "walk_log_table t s off w = Inr (c, w')"
  shows "walked w w' s (depth (ttype (tables w s))) (path (ttype (tables w s)) off) c"
proof (cases "ttype (tables w s)")
  case TABLE
  then show ?thesis using assms walked_start [OF ok] by (simp add: walk_log_table_def)
next
  case LMD
  then show ?thesis using r walked_step [OF walked_start [OF ok]]
    by (fastforce simp: walk_log_table_def depth_def)
next
  case LUD
  obtain lmd w1 where 1: "get_child t LMD s (LUD_INDEX off) w = Inr (lmd, w1)"
    "get_child t TABLE lmd (LMD_INDEX off) w1 = Inr (c, w')"
    using r LUD by (auto simp: walk_log_table_def elim!: bindE_InrE)
  have "walked w w1 s 2 [LUD_INDEX off] lmd"
    using walked_step [OF walked_start [OF ok] _ 1(1)] LUD by (simp add: depth_def)
  then show ?thesis using walked_step [OF _ _ 1(2)] LUD by (fastforce simp: depth_def)
next
  case LGD
  obtain lud w1 lmd w2 where 1: "get_child t LUD s (LGD_INDEX off) w = Inr (lud, w1)"
    "get_child t LMD lud (LUD_INDEX off) w1 = Inr (lmd, w2)"
    "get_child t TABLE lmd (LMD_INDEX off) w2 = Inr (c, w')"
    using r LGD by (auto simp: walk_log_table_def elim!: bindE_InrE)
  have "walked w w1 s 3 [LGD_INDEX off] lud"
    using walked_step [OF walked_start [OF ok] _ 1(1)] LGD by (simp add: depth_def)
  then have "walked w w2 s 3 [LGD_INDEX off, LUD_INDEX off] lmd"
    using walked_step [OF _ _ 1(2)] by fastforce
  then show ?thesis using walked_step [OF _ _ 1(3)] LGD by (fastforce simp: depth_def)
qed

subsection \<open>The invariant of a radix root, and what a search returns\<close>

definition start_type :: "world \<Rightarrow> radix_root \<Rightarrow> table_type" where
  "start_type w root = (case skip root of None \<Rightarrow> TABLE | Some s \<Rightarrow> ttype (tables w s))"

definition same_leaf :: "world \<Rightarrow> radix_root \<Rightarrow> nat \<Rightarrow> nat \<Rightarrow> bool" where
  "same_leaf w root off off' \<longleftrightarrow> path (start_type w root) off = path (start_type w root) off'"

definition radix_inv :: "world \<Rightarrow> radix_root \<Rightarrow> bool" where
  "radix_inv w root \<longleftrightarrow> (\<exists>s. skip root = Some s \<and> tables_ok w s (depth (ttype (tables w s)))) \<and>
     (prev_table_index root \<le> TABLE_MASK \<longrightarrow> prev_table root \<noteq> None \<and>
        find_log_table w root (prev_table_index root * 2 ^ 21) = prev_table root)"

lemma path_chunk:
  assumes "off div 2 ^ 21 mod 2 ^ 27 = off' div 2 ^ 21 mod 2 ^ 27"
  shows "path ty off = path ty off'"
proof -
  have bits: "x div 2 ^ k mod 2 ^ 9 = (x mod 2 ^ 27) div 2 ^ k mod 2 ^ 9" if "k + 9 \<le> 27" for x k :: nat
  proof -
    have "take_bit 9 (drop_bit k (take_bit 27 x)) = take_bit 9 (drop_bit k x)"
      by (rule bit_eqI) (use that in \<open>auto simp: bit_simps\<close>)
    then show ?thesis by (simp add: take_bit_eq_mod drop_bit_eq_div)
  qed
  have "off div 2 ^ 21 div 2 ^ k mod 2 ^ 9 = off' div 2 ^ 21 div 2 ^ k mod 2 ^ 9" if "k + 9 \<le> 27" for k
    using bits [OF that] assms by metis
  from this [of 0] this [of 9] this [of 18]
  have "LMD_INDEX off = LMD_INDEX off'" "LUD_INDEX off = LUD_INDEX off'" "LGD_INDEX off = LGD_INDEX off'"
    by (simp_all add: LMD_INDEX_eq LUD_INDEX_eq LGD_INDEX_eq div_mult2_eq [symmetric])
  then show ?thesis by (cases ty) simp_all
qed

lemma prev_index_eq: "TABLE_MASK AND drop_bit LMD_SHIFT off = off div 2 ^ 21 mod 2 ^ 27"
  unfolding TABLE_MASK_def LMD_SHIFT_def by (metis and.commute and_pow2_minus_1 drop_bit_div)

lemma check_prev_table_iff: "check_prev_table i off \<longleftrightarrow> i = off div 2 ^ 21 mod 2 ^ 27"
  unfolding check_prev_table_def using prev_index_eq by (metis and.commute)

lemma find_log_table_cong:
  "path (start_type w root) off = path (start_type w root) off' \<Longrightarrow>
   find_log_table w root off = find_log_table w root off'"
  by (auto simp: find_log_table_follow start_type_def split: option.split)

end
