(* ===== verification/Mmio.thy ===== *)
theory Mmio
  imports Radixlog
begin

text \<open>
  The logged reads and writes of src/src/mmio.c, each function as it runs in one thread while
  no other thread moves. A file is an address \<open>M\<close> of the heap \<open>mmios\<close>; its bytes are those
  of the mapping from \<open>start\<close> to \<open>end_addr\<close>. Offsets and lengths are those of a request that
  has passed the signed types of file.c: not negative.
\<close>

datatype lock_kind = RD | WR

fun trylock :: "lock_kind \<Rightarrow> rwlock \<Rightarrow> rwlock option" where
  "trylock RD l = RWLOCK_READ_TRYLOCK l"
| "trylock WR l = RWLOCK_WRITE_TRYLOCK l"

lemma log_len_pos: "(off AND (LOG_SIZE s - Suc 0)) < LOG_SIZE s"
  using LOG_OFFSET_less [of off s] by (simp add: LOG_OFFSET_def)

subsection \<open>Locking the entries of a request\<close>

text \<open>
  The inner \<^verbatim>\<open>do ... while (pthread_rwlock_try...)\<close>: a failed attempt leaves everything as it
  is, so in a run of one thread it fails again for ever; \<open>lock_spin_stable\<close> shows that one
  attempt decides.
\<close>

fun lock_spin :: "nat \<Rightarrow> lock_kind \<Rightarrow> tid \<Rightarrow> nat \<Rightarrow> ptr \<Rightarrow> nat \<Rightarrow> log_size_t \<Rightarrow> world \<Rightarrow> (ptr \<times> world) res" where
  "lock_spin 0 k t ep table index s w = Inl Blocked"
| "lock_spin (Suc fuel) k t ep table index s w =
     bindE (get_log_entry t ep table index s w) (\<lambda>(entry, w1).
       case trylock k (rwlockp (idxs w1 entry)) of
         Some l \<Rightarrow> Inr (entry, upd_entry entry (\<lambda>e. e\<lparr>rwlockp := l\<rparr>) w1)
       | None \<Rightarrow> lock_spin fuel k t ep table index s w1)"

text \<open>
  \<^verbatim>\<open>LOCK_ENTRIES\<close>. The locked entries are chained through their own \<^verbatim>\<open>list\<close> field by
  \<^verbatim>\<open>slist_push\<close>, the last one first; an entry that occurs twice would make that chain
  cyclic.
\<close>

function LOCK_ENTRIES :: "lock_kind \<Rightarrow> tid \<Rightarrow> ptr \<Rightarrow> int \<Rightarrow> nat \<Rightarrow> ptr list \<Rightarrow> world \<Rightarrow> (ptr list \<times> world) res" where
  "LOCK_ENTRIES k t M n off head w =
     (if 0 < n then
        bindE (get_log_table t (radixlog (mmios w M)) off w) (\<lambda>(table, root, w1).
          let w2 = upd_mmio M (\<lambda>m. m\<lparr>radixlog := root\<rparr>) w1;
              (s, w3) = get_log_size table off (nat n) w2;
              index = TABLE_INDEX s off
          in bindE (lock_spin 1 k t (epoch (mmios w3 M)) table index s w3) (\<lambda>(entry, w4).
               if entry \<in> set head then Inl (UB ''cyclic entry list'')
               else
                 let w5 = upd_entry entry (\<lambda>e. e\<lparr>log_size := s\<rparr>) w4;
                     log_offset = off AND (LOG_SIZE s - 1);
                     log_len = LOG_SIZE s - log_offset
                 in LOCK_ENTRIES k t M (n - int log_len) (ul (off + log_len)) (entry # head) w5))
      else Inr (head, w))"
  by pat_completeness auto
termination
  by (relation "measure (\<lambda>(k, t, M, n, off, head, w). nat n)") (auto simp: log_len_pos)

declare LOCK_ENTRIES.simps [simp del]

definition UNLOCK_ENTRIES :: "ptr list \<Rightarrow> world \<Rightarrow> world res" where
  "UNLOCK_ENTRIES head w =
     foldE (\<lambda>entry w. bindE (RWLOCK_UNLOCK (rwlockp (idxs w entry)))
                        (\<lambda>l. Inr (upd_entry entry (\<lambda>e. e\<lparr>rwlockp := l\<rparr>) w))) head w"

subsection \<open>Small helpers\<close>

definition check_expend :: "mmio \<Rightarrow> nat \<Rightarrow> nat \<Rightarrow> bool" where
  "check_expend m off len \<longleftrightarrow> end_addr m < start m + off + len"

definition check_fsize :: "mmio \<Rightarrow> nat \<Rightarrow> nat \<Rightarrow> bool" where
  "check_fsize m off len \<longleftrightarrow> fsize m < int off + int len"

definition increase_counter :: "nat \<Rightarrow> nat" where
  "increase_counter cnt = ul (cnt + 1)"

definition check_log :: "addr \<Rightarrow> addr \<Rightarrow> addr \<Rightarrow> addr \<Rightarrow> nat" where
  "check_log req_start req_end log_start log_end =
     (if req_start \<le> log_start then
        if log_start \<le> req_end then if req_end < log_end then 2 else 3 else 1
      else
        if req_end \<le> log_end then 4 else if log_end < req_start then 6 else 5)"

text \<open>The BRAVO lock embedded in the file; its address is that of the file.\<close>

definition mm_lock :: "(bravo_rwlock \<Rightarrow> bravo_state \<Rightarrow> (bravo_rwlock \<times> bravo_state) res) \<Rightarrow> ptr \<Rightarrow> world \<Rightarrow> world res" where
  "mm_lock f M w =
     bindE (f (rwlock (mmios w M)) (bravo w))
       (\<lambda>(b, st). Inr (upd_mmio M (\<lambda>m. m\<lparr>rwlock := b\<rparr>) (w\<lparr>bravo := st\<rparr>)))"

definition mm_read_lock :: "tid \<Rightarrow> ptr \<Rightarrow> world \<Rightarrow> world res" where
  "mm_read_lock t M = mm_lock (bravo_read_lock t M) M"

definition mm_read_unlock :: "tid \<Rightarrow> ptr \<Rightarrow> world \<Rightarrow> world res" where
  "mm_read_unlock t M = mm_lock (bravo_read_unlock t M) M"

definition mm_write_lock :: "ptr \<Rightarrow> world \<Rightarrow> world res" where
  "mm_write_lock M = mm_lock (bravo_write_lock M) M"

definition mm_write_unlock :: "ptr \<Rightarrow> world \<Rightarrow> world res" where
  "mm_write_unlock M = mm_lock (\<lambda>b st. bindE (bravo_write_unlock b) (\<lambda>b. Inr (b, st))) M"

subsection \<open>Growing the mapping\<close>

text \<open>The loop doubles the mapping; \<open>fuel\<close> bounds the number of rounds.\<close>

fun expend_loop :: "nat \<Rightarrow> env \<Rightarrow> ptr \<Rightarrow> int \<Rightarrow> nat \<Rightarrow> nat \<Rightarrow> world \<Rightarrow> world res" where
  "expend_loop 0 E M fd off len w =
     (if check_expend (mmios w M) off len then Inl Blocked else Inr w)"
| "expend_loop (Suc fuel) E M fd off len w =
     (if check_expend (mmios w M) off len then
        let m = mmios w M;
            current_len = end_addr m - start m;
            new_len = (if BASIC_MMAP_SIZE \<le> current_len then ul (2 * current_len) else BASIC_MMAP_SIZE)
        in if posix_fallocate E fd 0 new_len \<noteq> 0 then Inl (Exit ''fallocate'')
           else
             (case mremap E (start m) current_len new_len (mem w) of
                None \<Rightarrow> Inl (Exit ''mremap'')
              | Some (a, mm) \<Rightarrow>
                  expend_loop fuel E M fd off len
                    (upd_mmio M (\<lambda>m. m\<lparr>start := a, end_addr := a + new_len\<rparr>) (w\<lparr>mem := mm\<rparr>)))
      else Inr w)"

definition expend_fuel :: nat where "expend_fuel = 64"

definition expend_mmio :: "env \<Rightarrow> tid \<Rightarrow> ptr \<Rightarrow> int \<Rightarrow> nat \<Rightarrow> nat \<Rightarrow> world \<Rightarrow> world res" where
  "expend_mmio E t M fd off len w =
     bindE (mm_read_unlock t M w) (\<lambda>w.
     bindE (mm_write_lock M w) (\<lambda>w.
     bindE (expend_loop expend_fuel E M fd off len w) (\<lambda>w.
     bindE (mm_write_unlock M w) (\<lambda>w.
     mm_read_lock t M w))))"

subsection \<open>Checkpointing\<close>

text \<open>A redo log is copied to its place in the file.\<close>

definition copy_log :: "env \<Rightarrow> ptr \<Rightarrow> world \<Rightarrow> world res" where
  "copy_log E entry w =
     (let e = idxs w entry
      in bindE (NTSTORE E (dst e + e_offset e) (log e + e_offset e) (e_len e) w) (\<lambda>w. Inr (FENCE w)))"

definition checkpoint_entry :: "env \<Rightarrow> ptr \<Rightarrow> ptr \<Rightarrow> world \<Rightarrow> world res" where
  "checkpoint_entry E M entry w =
     bindE (if e_policy (idxs w entry) = REDO then copy_log E entry w else Inr w) (\<lambda>w.
       let m = mmios w M
       in Inr (FENCE (FLUSH entry
            (upd_entry entry (\<lambda>e. set_offset 0 (set_len 0 (set_policy (policy m) (set_epoch (epoch m) e)))) w))))"

text \<open>The body of the entry loop of \<^verbatim>\<open>checkpoint_mmio\<close>.\<close>

definition checkpoint_slot :: "env \<Rightarrow> tid \<Rightarrow> nat \<Rightarrow> ptr \<Rightarrow> log_size_t \<Rightarrow> nat \<Rightarrow> world \<Rightarrow> world res" where
  "checkpoint_slot E t current_epoch table s i w =
     (case child w table i of
        None \<Rightarrow> Inr w
      | Some entry \<Rightarrow>
          if e_epoch (idxs w entry) < current_epoch then
            (case RWLOCK_WRITE_TRYLOCK (rwlockp (idxs w entry)) of
               None \<Rightarrow> Inr w
             | Some l \<Rightarrow>
                 let w1 = upd_entry entry (\<lambda>e. e\<lparr>rwlockp := l\<rparr>) w in
                 if e_epoch (idxs w1 entry) < current_epoch then
                   bindE (if e_policy (idxs w1 entry) = REDO then copy_log E entry w1 else Inr w1) (\<lambda>w2.
                     free_idx_entry t entry s (set_table_entry table i None w2))
                 else
                   bindE (RWLOCK_UNLOCK (rwlockp (idxs w1 entry)))
                     (\<lambda>l. Inr (upd_entry entry (\<lambda>e. e\<lparr>rwlockp := l\<rparr>) w1)))
          else Inr w)"

definition checkpoint_table :: "env \<Rightarrow> tid \<Rightarrow> nat \<Rightarrow> ptr \<Rightarrow> world \<Rightarrow> world res" where
  "checkpoint_table E t current_epoch table w =
     (let s = tlog_size (tables w table)
      in if nr_entries_defined s
         then foldE (checkpoint_slot E t current_epoch table s) [0..<NR_ENTRIES s] w
         else Inl (UB ''shift out of range''))"

text \<open>
  One round of the outer loop: two megabytes from \<open>off\<close>. Every table covers exactly
  \<^verbatim>\<open>NR_ENTRIES(s) * LOG_SIZE(s)\<close> bytes, the step of the loop.
\<close>

definition checkpoint_chunk :: "env \<Rightarrow> tid \<Rightarrow> ptr \<Rightarrow> nat \<Rightarrow> nat \<Rightarrow> world \<Rightarrow> (nat \<times> world) res" where
  "checkpoint_chunk E t M current_epoch off w =
     (case bravo_read_trylock t M (rwlock (mmios w M)) (bravo w) of
        (False, b, st) \<Rightarrow> Inr (NR_ENTRIES LOG_4K * LOG_SIZE LOG_4K, w)
      | (True, b, st) \<Rightarrow>
          let w1 = upd_mmio M (\<lambda>m. m\<lparr>rwlock := b\<rparr>) (w\<lparr>bravo := st\<rparr>) in
          (case find_log_table w1 (radixlog (mmios w1 M)) off of
             None \<Rightarrow> bindE (mm_read_unlock t M w1) (\<lambda>w2. Inr (NR_ENTRIES LOG_4K * LOG_SIZE LOG_4K, w2))
           | Some table \<Rightarrow>
               let s = tlog_size (tables w1 table) in
               bindE (checkpoint_table E t current_epoch table w1) (\<lambda>w2.
               bindE (mm_read_unlock t M w2) (\<lambda>w3. Inr (NR_ENTRIES s * LOG_SIZE s, w3)))))"

text \<open>The outer loop; \<open>fuel\<close> bounds the number of two-megabyte rounds.\<close>

fun checkpoint_loop :: "nat \<Rightarrow> env \<Rightarrow> tid \<Rightarrow> ptr \<Rightarrow> nat \<Rightarrow> nat \<Rightarrow> nat \<Rightarrow> world \<Rightarrow> world res" where
  "checkpoint_loop 0 E t M current_epoch endoff off w = (if off < endoff then Inl Blocked else Inr w)"
| "checkpoint_loop (Suc fuel) E t M current_epoch endoff off w =
     (if off < endoff then
        bindE (checkpoint_chunk E t M current_epoch off w) (\<lambda>(step, w1).
          checkpoint_loop fuel E t M current_epoch endoff (off + step) w1)
      else Inr w)"

definition checkpoint_mmio :: "env \<Rightarrow> tid \<Rightarrow> ptr \<Rightarrow> world \<Rightarrow> world res" where
  "checkpoint_mmio E t M w =
     (let m = mmios w M; endoff = end_addr m - start m
      in checkpoint_loop (endoff div 2 ^ 21 + 1) E t M (epoch m) endoff 0 w)"

subsection \<open>Writing\<close>

text \<open>
  Merging a new log range with the one already recorded in the entry (the six cases of
  \<^verbatim>\<open>check_log\<close>); in cases 1 and 6 the gap between the two is filled from the file.
\<close>

definition merge_log :: "env \<Rightarrow> ptr \<Rightarrow> addr \<Rightarrow> nat \<Rightarrow> nat \<Rightarrow> world \<Rightarrow> world res" where
  "merge_log E entry d log_offset n w =
     (let e = idxs w entry;
          log_start = log e + log_offset;
          log_end = log_start + n;
          prev_start = log e + e_offset e;
          prev_end = prev_start + e_len e;
          case_no = check_log log_start log_end prev_start prev_end
      in if case_no = 1 then
           bindE (NTSTORE E log_end (d + n) (prev_start - log_end) w) (\<lambda>w.
             Inr (upd_entry entry (\<lambda>e. set_len (prev_end - log_start) (set_offset log_offset e)) w))
         else if case_no = 2 then
           Inr (upd_entry entry (\<lambda>e. set_len (prev_end - log_start) (set_offset log_offset e)) w)
         else if case_no = 3 then
           Inr (upd_entry entry (\<lambda>e. set_len n (set_offset log_offset e)) w)
         else if case_no = 4 then Inr w
         else if case_no = 5 then
           Inr (upd_entry entry (set_len (log_end - prev_start)) w)
         else
           let overwrite_len = log_start - prev_end in
           bindE (NTSTORE E prev_end (d - overwrite_len) overwrite_len w) (\<lambda>w.
             Inr (upd_entry entry (set_len (log_end - prev_start)) w)))"

text \<open>
  One round of the loop of \<^verbatim>\<open>mmio_write\<close>; the result has the \<^verbatim>\<open>n\<close> that was written.
  \<open>log_block\<close> is the round after the checkpoint of an entry of an older epoch.
\<close>

definition log_block :: "env \<Rightarrow> ptr \<Rightarrow> ptr \<Rightarrow> nat \<Rightarrow> addr \<Rightarrow> addr \<Rightarrow> nat \<Rightarrow> world \<Rightarrow> (nat \<times> world) res" where
  "log_block E M entry off d src n w =
     (let m = mmios w M;
          e = idxs w entry;
          s = log_size e;
          log_offset = off AND (LOG_SIZE s - 1);
          log_start = log e + log_offset;
          log_len = LOG_SIZE s - log_offset;
          n = (if log_len < n then log_len else n)
      in bindE (case policy m of
                  UNDO \<Rightarrow> NTSTORE E log_start d n w
                | REDO \<Rightarrow> NTSTORE E log_start src n w) (\<lambda>w.
         bindE (if 0 < e_len (idxs w entry) \<and> n \<noteq> LOG_SIZE s
                then merge_log E entry d log_offset n w
                else Inr (upd_entry entry
                       (\<lambda>e. (set_policy (policy m) (set_len n (set_offset log_offset e)))
                              \<lparr>dst := d AND LOG_MASK s\<rparr>) w)) (\<lambda>w.
         Inr (n, FLUSH entry w))))"

definition write_entry :: "env \<Rightarrow> ptr \<Rightarrow> ptr \<Rightarrow> nat \<Rightarrow> addr \<Rightarrow> addr \<Rightarrow> nat \<Rightarrow> world \<Rightarrow> (nat \<times> world) res" where
  "write_entry E M entry off d src n w =
     bindE (if e_epoch (idxs w entry) < epoch (mmios w M) then checkpoint_entry E M entry w else Inr w)
       (log_block E M entry off d src n)"

text \<open>The loop: \<^verbatim>\<open>n\<close> is carried from one round to the next, never set to what remains.\<close>

fun write_loop :: "env \<Rightarrow> ptr \<Rightarrow> ptr list \<Rightarrow> nat \<Rightarrow> addr \<Rightarrow> addr \<Rightarrow> nat \<Rightarrow> nat \<Rightarrow> world \<Rightarrow> (nat \<times> world) res" where
  "write_loop E M [] off d src n ret w = Inr (ret, w)"
| "write_loop E M (entry # es) off d src n ret w =
     bindE (write_entry E M entry off d src n w) (\<lambda>(n, w).
       write_loop E M es (off + n) (d + n) (src + n) n (ret + n) w)"

definition mmio_write :: "env \<Rightarrow> tid \<Rightarrow> ptr \<Rightarrow> int \<Rightarrow> nat \<Rightarrow> addr \<Rightarrow> nat \<Rightarrow> world \<Rightarrow> (nat \<times> world) res" where
  "mmio_write E t M fd off buf len w =
     bindE (mm_read_lock t M w) (\<lambda>w.
     bindE (if check_expend (mmios w M) off len then expend_mmio E t M fd off len w else Inr w) (\<lambda>w.
     bindE (LOCK_ENTRIES WR t M (c_int (int len)) off [] w) (\<lambda>(head, w).
     bindE (write_loop E M head off (start (mmios w M) + off) buf (nat (c_int (int len))) 0 w) (\<lambda>(ret, w).
       let w = FENCE (upd_mmio M (\<lambda>m. m\<lparr>write_cnt := increase_counter (write_cnt m)\<rparr>) w) in
     bindE (if policy (mmios w M) = UNDO
            then bindE (NTSTORE E (start (mmios w M) + off) buf len w) (\<lambda>w. Inr (FENCE w))
            else Inr w) (\<lambda>w.
       let w = upd_mmio M (\<lambda>m. if fsize m < int off + int ret then m\<lparr>fsize := int off + int ret\<rparr> else m) w in
     bindE (UNLOCK_ENTRIES head w) (\<lambda>w.
     bindE (mm_read_unlock t M w) (\<lambda>w.
     Inr (ret, w))))))))"

subsection \<open>Reading\<close>

definition w_memcpy :: "addr \<Rightarrow> addr \<Rightarrow> nat \<Rightarrow> world \<Rightarrow> world res" where
  "w_memcpy d s n w = bindE (c_memcpy d s n (mem w)) (\<lambda>m. Inr (w\<lparr>mem := m\<rparr>))"

text \<open>
  One round of the loop of \<^verbatim>\<open>read_redolog\<close>: the destination, offset and remaining length
  after it. In case 3 the source of the last copy adds \<^verbatim>\<open>log_end - req_start\<close> to an offset
  that has already been advanced by it.
\<close>

definition read_entry :: "ptr \<Rightarrow> addr \<Rightarrow> addr \<Rightarrow> nat \<Rightarrow> nat \<Rightarrow> world \<Rightarrow> (addr \<times> nat \<times> nat \<times> world) res" where
  "read_entry entry d file_addr off len w =
     (let e = idxs w entry;
          s = log_size e;
          log_offset = off AND (LOG_SIZE s - 1);
          log_max_len = LOG_SIZE s - log_offset;
          n = (if log_max_len < len then log_max_len else len);
          done = (\<lambda>n w. Inr (d + n, off + n, len - n, w))
      in if 0 < e_len e then
           let log_start = log e + e_offset e;
               log_end = log_start + e_len e;
               req_start = log e + log_offset;
               req_end = req_start + n;
               case_no = check_log req_start req_end log_start log_end
           in if case_no = 1 then
                bindE (w_memcpy d (file_addr + off) n w) (done n)
              else if case_no = 2 then
                let n1 = log_start - req_start; n2 = req_end - log_start in
                bindE (w_memcpy d (file_addr + off) n1 w) (\<lambda>w.
                bindE (w_memcpy (d + n1) log_start n2 w) (done (n1 + n2)))
              else if case_no = 3 then
                let n1 = log_start - req_start; n2 = log_end - log_start; n3 = req_end - log_end in
                bindE (w_memcpy d (file_addr + off) n1 w) (\<lambda>w.
                bindE (w_memcpy (d + n1) log_start n2 w) (\<lambda>w.
                bindE (w_memcpy (d + n1 + n2) (file_addr + (off + n1 + n2) + (log_end - req_start)) n3 w)
                  (done (n1 + n2 + n3))))
              else if case_no = 4 then
                bindE (w_memcpy d req_start (req_end - req_start) w) (done (req_end - req_start))
              else if case_no = 5 then
                let n1 = log_end - req_start; n2 = req_end - log_end in
                bindE (w_memcpy d req_start n1 w) (\<lambda>w.
                bindE (w_memcpy (d + n1) (file_addr + (off + n1)) n2 w) (done (n1 + n2)))
              else
                bindE (w_memcpy d (file_addr + off) (req_end - req_start) w) (done (req_end - req_start))
         else bindE (w_memcpy d (file_addr + off) n w) (done n))"

fun read_redolog :: "ptr list \<Rightarrow> addr \<Rightarrow> addr \<Rightarrow> nat \<Rightarrow> nat \<Rightarrow> world \<Rightarrow> world res" where
  "read_redolog [] d file_addr off len w = Inr w"
| "read_redolog (entry # es) d file_addr off len w =
     bindE (read_entry entry d file_addr off len w) (\<lambda>(d, off, len, w).
       read_redolog es d file_addr off len w)"

text \<open>
  \<^verbatim>\<open>len = mmio->fsize - offset\<close> is stored in a \<^verbatim>\<open>size_t\<close>: an offset beyond the end of the
  file makes it wrap.
\<close>

definition mmio_read :: "tid \<Rightarrow> ptr \<Rightarrow> nat \<Rightarrow> addr \<Rightarrow> nat \<Rightarrow> world \<Rightarrow> (nat \<times> world) res" where
  "mmio_read t M off buf len w =
     bindE (mm_read_lock t M w) (\<lambda>w.
     bindE (LOCK_ENTRIES RD t M (c_int (int len)) off [] w) (\<lambda>(head, w).
       let m = mmios w M;
           len = (if check_fsize m off len then nat ((fsize m - int off) mod 2 ^ 64) else len) in
     bindE (case policy m of
              UNDO \<Rightarrow> w_memcpy buf (start m + off) len w
            | REDO \<Rightarrow> read_redolog head buf (start m) off len w) (\<lambda>w.
       let w = upd_mmio M (\<lambda>m. m\<lparr>read_cnt := increase_counter (read_cnt m)\<rparr>) w in
     bindE (UNLOCK_ENTRIES head w) (\<lambda>w.
     bindE (mm_read_unlock t M w) (\<lambda>w.
     Inr (len, w))))))"

subsection \<open>Committing\<close>

text \<open>
  \<^verbatim>\<open>new_policy\<close> decides whether to checkpoint; it is never stored in \<^verbatim>\<open>mmio->policy\<close>. The
  ratio is computed in integers, the division first.
\<close>

definition determine_policy :: "env \<Rightarrow> tid \<Rightarrow> ptr \<Rightarrow> world \<Rightarrow> world res" where
  "determine_policy E t M w =
     (let m = mmios w M; total_cnt = ul (read_cnt m + write_cnt m) in
      if 0 < total_cnt then
        let write_ratio = ul (write_cnt m div total_cnt * 100);
            new_policy = (if HYBRID_WRITE_RATIO < write_ratio then REDO else UNDO);
            w1 = upd_mmio M (\<lambda>m. m\<lparr>read_cnt := 0, write_cnt := 0\<rparr>) w
        in if policy (mmios w1 M) \<noteq> new_policy then checkpoint_mmio E t M w1 else Inr w1
      else Inr w)"

definition commit_mmio :: "env \<Rightarrow> tid \<Rightarrow> ptr \<Rightarrow> world \<Rightarrow> world res" where
  "commit_mmio E t M w =
     bindE (mm_write_lock M w) (\<lambda>w.
       let w = FENCE (FLUSH M (upd_mmio M (\<lambda>m. m\<lparr>epoch := ul (epoch m + 1)\<rparr>) w)) in
     bindE (determine_policy E t M w) (\<lambda>w.
     mm_write_unlock M w))"

end
