(* ===== verification/Posix.thy ===== *)
theory Posix
  imports Mmio
begin

text \<open>
  The system calls that the library passes requests to, or makes itself, apart from those of
  \<open>env\<close>: none of this code is in the repository, so it is a record of functions over an
  arbitrary kernel state \<open>'k\<close>, an argument of every definition that uses it. An output
  parameter (a \<^verbatim>\<open>struct stat\<close>, a thread id) is part of the result; a call that reads or
  writes user memory takes and returns it. \<open>None\<close> is \<^verbatim>\<open>MAP_FAILED\<close>, a null \<^verbatim>\<open>DIR\<close> or the end
  of a directory.
\<close>

record stat_t =
  st_ino :: nat
  st_size :: nat

record 'k posix =
  sys_dlsym :: "string \<Rightarrow> bool"
  sys_open :: "string \<Rightarrow> int \<Rightarrow> int \<Rightarrow> 'k \<Rightarrow> int \<times> 'k"
  sys_open64 :: "string \<Rightarrow> int \<Rightarrow> int \<Rightarrow> 'k \<Rightarrow> int \<times> 'k"
  sys_read :: "int \<Rightarrow> addr \<Rightarrow> nat \<Rightarrow> memory \<Rightarrow> 'k \<Rightarrow> int \<times> memory \<times> 'k"
  sys_write :: "int \<Rightarrow> addr \<Rightarrow> nat \<Rightarrow> memory \<Rightarrow> 'k \<Rightarrow> int \<times> memory \<times> 'k"
  sys_pread :: "int \<Rightarrow> addr \<Rightarrow> nat \<Rightarrow> int \<Rightarrow> memory \<Rightarrow> 'k \<Rightarrow> int \<times> memory \<times> 'k"
  sys_pwrite :: "int \<Rightarrow> addr \<Rightarrow> nat \<Rightarrow> int \<Rightarrow> memory \<Rightarrow> 'k \<Rightarrow> int \<times> memory \<times> 'k"
  sys_fsync :: "int \<Rightarrow> 'k \<Rightarrow> int \<times> 'k"
  sys_lseek :: "int \<Rightarrow> int \<Rightarrow> int \<Rightarrow> 'k \<Rightarrow> int \<times> 'k"
  sys_truncate :: "string \<Rightarrow> int \<Rightarrow> 'k \<Rightarrow> int \<times> 'k"
  sys_ftruncate :: "int \<Rightarrow> int \<Rightarrow> 'k \<Rightarrow> int \<times> 'k"
  sys_stat :: "string \<Rightarrow> 'k \<Rightarrow> (int \<times> stat_t) \<times> 'k"
  sys_fxstat :: "int \<Rightarrow> 'k \<Rightarrow> (int \<times> stat_t) \<times> 'k"
  sys_close :: "int \<Rightarrow> 'k \<Rightarrow> int \<times> 'k"
  sys_mmap :: "nat \<Rightarrow> int \<Rightarrow> int \<Rightarrow> int \<Rightarrow> memory \<Rightarrow> 'k \<Rightarrow> addr option \<times> memory \<times> 'k"
  sys_munmap :: "addr \<Rightarrow> nat \<Rightarrow> memory \<Rightarrow> 'k \<Rightarrow> int \<times> memory \<times> 'k"
  sys_pthread_create :: "ptr \<Rightarrow> 'k \<Rightarrow> (int \<times> nat) \<times> 'k"
  sys_pthread_cancel :: "nat \<Rightarrow> 'k \<Rightarrow> int \<times> 'k"
  sys_malloc :: "nat \<Rightarrow> 'k \<Rightarrow> addr option \<times> 'k"
  sys_getenv :: "string \<Rightarrow> string option"
  sys_getpid :: nat
  sys_mkdir :: "string \<Rightarrow> int \<Rightarrow> 'k \<Rightarrow> int \<times> 'k"
  sys_opendir :: "string \<Rightarrow> 'k \<Rightarrow> nat option \<times> 'k"
  sys_readdir :: "nat \<Rightarrow> 'k \<Rightarrow> string option \<times> 'k"
  sys_closedir :: "nat \<Rightarrow> 'k \<Rightarrow> int \<times> 'k"
  sys_unlink :: "string \<Rightarrow> 'k \<Rightarrow> int \<times> 'k"
  sys_rmdir :: "string \<Rightarrow> 'k \<Rightarrow> int \<times> 'k"

text \<open>Constants of \<^verbatim>\<open>fcntl.h\<close>, \<^verbatim>\<open>sys/mman.h\<close> and \<^verbatim>\<open>unistd.h\<close> on Linux, and \<^verbatim>\<open>O_ATOMIC\<close> of libnvmmio.h.\<close>

definition O_RDONLY :: int where "O_RDONLY = 0"
definition O_WRONLY :: int where "O_WRONLY = 1"
definition O_RDWR :: int where "O_RDWR = 2"
definition O_ACCMODE :: int where "O_ACCMODE = 3"
definition O_CREAT :: int where "O_CREAT = 64"
definition O_TRUNC :: int where "O_TRUNC = 512"
definition O_ATOMIC :: int where "O_ATOMIC = 2 ^ 27"
definition PROT_READ :: int where "PROT_READ = 1"
definition PROT_WRITE :: int where "PROT_WRITE = 2"
definition MAP_SHARED :: int where "MAP_SHARED = 1"
definition MAP_ANONYMOUS :: int where "MAP_ANONYMOUS = 32"
definition MAP_POPULATE :: int where "MAP_POPULATE = 32768"
definition SEEK_SET :: int where "SEEK_SET = 0"
definition SEEK_CUR :: int where "SEEK_CUR = 1"
definition SEEK_END :: int where "SEEK_END = 2"

definition flag_set :: "int \<Rightarrow> int \<Rightarrow> bool" where
  "flag_set flags f \<longleftrightarrow> flags AND f \<noteq> 0"


definition ex_top :: "memory \<Rightarrow> addr" where
  "ex_top m = 2 ^ 21 * Suc (sum_list (map (\<lambda>(b, l). b + l) (regions m)))"

text \<open>
  A kernel for examples; \<open>tick\<close> is the change of its state by a call, and \<open>ex_posix\<close> counts
  calls. Descriptor 3 is a sparse file of
  \<open>2 ^ 48\<close> bytes with inode 7; files are mapped behind all
  other memory; every other call succeeds and does nothing.
\<close>

definition stub_posix :: "('k \<Rightarrow> 'k) \<Rightarrow> 'k posix" where
  "stub_posix tick = \<lparr>sys_dlsym = (\<lambda>_. True), sys_open = (\<lambda>_ _ _ k. (3, tick k)), sys_open64 = (\<lambda>_ _ _ k. (3, tick k)),
     sys_read = (\<lambda>_ _ n m k. (0, m, tick k)), sys_write = (\<lambda>_ _ n m k. (int n, m, tick k)),
     sys_pread = (\<lambda>_ _ n _ m k. (0, m, tick k)), sys_pwrite = (\<lambda>_ _ n _ m k. (int n, m, tick k)),
     sys_fsync = (\<lambda>_ k. (0, tick k)), sys_lseek = (\<lambda>_ off _ k. (off, tick k)), sys_truncate = (\<lambda>_ _ k. (0, tick k)),
     sys_ftruncate = (\<lambda>_ _ k. (0, tick k)), sys_stat = (\<lambda>_ k. ((0, \<lparr>st_ino = 7, st_size = 2 ^ 48\<rparr>), tick k)),
     sys_fxstat = (\<lambda>fd k. if fd = 3 then ((0, \<lparr>st_ino = 7, st_size = 2 ^ 48\<rparr>), tick k) else ((-1, \<lparr>st_ino = 0, st_size = 0\<rparr>), tick k)),
     sys_close = (\<lambda>_ k. (0, tick k)),
     sys_mmap = (\<lambda>n _ _ _ m k. (Some (ex_top m), m\<lparr>regions := (ex_top m, n) # regions m\<rparr>, tick k)),
     sys_munmap = (\<lambda>_ _ m k. (0, m, tick k)), sys_pthread_create = (\<lambda>_ k. ((0, 1), tick k)),
     sys_pthread_cancel = (\<lambda>_ k. (0, tick k)), sys_malloc = (\<lambda>_ k. (Some (2 ^ 60), tick k)), sys_getenv = (\<lambda>_. None),
     sys_getpid = 42, sys_mkdir = (\<lambda>_ _ k. (0, tick k)), sys_opendir = (\<lambda>_ k. (Some 1, tick k)),
     sys_readdir = (\<lambda>_ k. (None, tick k)), sys_closedir = (\<lambda>_ k. (0, tick k)), sys_unlink = (\<lambda>_ k. (0, tick k)),
     sys_rmdir = (\<lambda>_ k. (0, tick k))\<rparr>"

definition ex_posix :: "nat posix" where
  "ex_posix = stub_posix (\<lambda>k. k + 1)"

end
