(* ===== verification/MmioAlloc.thy ===== *)
theory MmioAlloc
  imports Posix
begin

text \<open>
  Opening and releasing the file behind a descriptor (\<^verbatim>\<open>get_new_mmio\<close> and \<^verbatim>\<open>release_mmio\<close> of
  src/src/allocator.c) and the checkpoint thread of src/src/mmio.c.
\<close>

definition get_prot :: "int \<Rightarrow> int res" where
  "get_prot flags =
     (let acc = flags AND O_ACCMODE in
      if acc = O_RDONLY then Inr PROT_READ
      else if acc = O_WRONLY then Inr PROT_WRITE
      else if acc = O_RDWR then Inr (PROT_READ OR PROT_WRITE)
      else Inl (Exit ''flags is wrong.''))"

definition create_checkpoint_thread :: "'k posix \<Rightarrow> ptr \<Rightarrow> world \<Rightarrow> 'k \<Rightarrow> (world \<times> 'k) res" where
  "create_checkpoint_thread P M w k =
     (case sys_pthread_create P M k of
        ((s, thread), k1) \<Rightarrow>
          if s \<noteq> 0 then Inl (Exit ''pthread_create'')
          else Inr (upd_mmio M (\<lambda>m. m\<lparr>checkpoint_thread := thread\<rparr>) w, k1))"

text \<open>The thread runs for ever; \<open>n\<close> is the number of times it has woken up.\<close>

fun checkpoint_thread_func :: "nat \<Rightarrow> env \<Rightarrow> tid \<Rightarrow> ptr \<Rightarrow> world \<Rightarrow> world res" where
  "checkpoint_thread_func 0 E t M w = Inr w"
| "checkpoint_thread_func (Suc n) E t M w = bindE (checkpoint_mmio E t M w) (checkpoint_thread_func n E t M)"

text \<open>The length to map: an empty file is first given \<^verbatim>\<open>DEFAULT_MMAP_SIZE\<close> bytes.\<close>

definition map_length :: "env \<Rightarrow> int \<Rightarrow> nat \<Rightarrow> nat res" where
  "map_length E fd fsz =
     (if fsz = 0
      then if posix_fallocate E fd 0 DEFAULT_MMAP_SIZE \<noteq> 0 then Inl (Exit ''posix_fallocate'') else Inr DEFAULT_MMAP_SIZE
      else Inr fsz)"

definition get_new_mmio :: "env \<Rightarrow> 'k posix \<Rightarrow> tid \<Rightarrow> int \<Rightarrow> int \<Rightarrow> nat \<Rightarrow> nat \<Rightarrow> world \<Rightarrow> 'k \<Rightarrow> (ptr \<times> world \<times> 'k) res" where
  "get_new_mmio E P t fd flags i fsz w k =
     bindE (POP_PROVIDER t (mmio_pool w)) (\<lambda>(M, pool).
     bindE (map_length E fd fsz) (\<lambda>len.
     bindE (get_prot flags) (\<lambda>prot.
       case sys_mmap P len prot (MAP_SHARED OR MAP_POPULATE) fd (mem w) k of
         (None, mm, k1) \<Rightarrow> Inl (Exit ''mmap'')
       | (Some a, mm, k1) \<Rightarrow>
           let w1 = w\<lparr>mmio_pool := pool, mem := mm\<rparr> in
           bindE (init_radixlog t (radixlog (mmios w1 M)) len w1) (\<lambda>(root, w2).
             let w3 = upd_mmio M (\<lambda>m. m\<lparr>radixlog := root, start := a, end_addr := a + len, fsize := int fsz, ino := i\<rparr>) w2 in
             bindE (create_checkpoint_thread P M w3 k1) (\<lambda>(w4, k2). Inr (M, w4, k2))))))"

text \<open>The three calls of \<^verbatim>\<open>release_mmio\<close> that may fail.\<close>

definition cancel_checkpoint_thread :: "'k posix \<Rightarrow> mmio \<Rightarrow> 'k \<Rightarrow> 'k res" where
  "cancel_checkpoint_thread P m k =
     (if checkpoint_thread m \<noteq> 0
      then case sys_pthread_cancel P (checkpoint_thread m) k of
             (s, k1) \<Rightarrow> if s \<noteq> 0 then Inl (Exit ''pthread_cancel'') else Inr k1
      else Inr k)"

definition unmap_file :: "'k posix \<Rightarrow> mmio \<Rightarrow> world \<Rightarrow> 'k \<Rightarrow> (world \<times> 'k) res" where
  "unmap_file P m w k =
     (case sys_munmap P (start m) (end_addr m - start m) (mem w) k of
        (s, mm, k1) \<Rightarrow> if s \<noteq> 0 then Inl (Exit ''munmap'') else Inr (w\<lparr>mem := mm\<rparr>, k1))"

definition resize_file :: "'k posix \<Rightarrow> int \<Rightarrow> int \<Rightarrow> mmio \<Rightarrow> 'k \<Rightarrow> 'k res" where
  "resize_file P flags fd m k =
     (if 0 < flags AND O_ACCMODE
      then case sys_ftruncate P fd (fsize m) k of
             (s, k1) \<Rightarrow> if s \<noteq> 0 then Inl (Exit ''ftruncate'') else Inr k1
      else Inr k)"

definition release_mmio :: "'k posix \<Rightarrow> tid \<Rightarrow> ptr \<Rightarrow> int \<Rightarrow> int \<Rightarrow> world \<Rightarrow> 'k \<Rightarrow> (world \<times> 'k) res" where
  "release_mmio P t M flags fd w k =
     (let m = mmios w M in
      bindE (cancel_checkpoint_thread P m k) (\<lambda>k.
      bindE (unmap_file P m w k) (\<lambda>(w, k).
      bindE (resize_file P flags fd m k) (\<lambda>k.
      bindE (mm_lock (bravo_rwlock_destroy M) M w) (\<lambda>w.
        let w = upd_mmio M init_mmio w in
      bindE (PUSH_COLLECTOR t M (mmio_pool w)) (\<lambda>pool.
      Inr (w\<lparr>mmio_pool := pool\<rparr>, k)))))))"

end
