(* ===== verification/Example.thy ===== *)
theory Example
  imports Mmio
begin

text \<open>
  A small concrete process state, at which the theorems of the development are instantiated:
  one open file (address 1) of two megabytes mapped at \<open>2 ^ 21\<close>, one radix table (address
  50) with four-kilobyte logs and two spare tables (100 and 200), one index entry (address 70) with its log at \<open>2 ^ 14\<close>, and a
  user buffer at \<open>2 ^ 15\<close>. The environment copies as PMDK documents, and grants every
  request to grow a file.
\<close>

definition ex_env :: env where
  "ex_env = \<lparr>pmem_memcpy_nodrain = mcpy, posix_fallocate = (\<lambda>fd off len. 0),
     mremap = (\<lambda>old n n' m. Some (old, m\<lparr>regions := (old, n') # regions m\<rparr>))\<rparr>"

definition ex_entry :: idx_entry where
  "ex_entry = \<lparr>united = 0, log = 2 ^ 14, dst = 0, rwlockp = RWLOCK_INIT, log_size = 0\<rparr>"

definition ex_table :: log_table where
  "ex_table = \<lparr>tlog_size = 0, ttype = TABLE, entries = (\<lambda>_. None)(0 := Some 70)\<rparr>"

definition ex_root :: radix_root where
  "ex_root = \<lparr>lgd = None, skip = Some 50, prev_table = None, prev_table_index = 2 ^ 64 - 1\<rparr>"

definition ex_mmio :: "policy \<Rightarrow> mmio" where
  "ex_mmio p = \<lparr>rwlock = bravo_rwlock_init, start = 2 ^ 21, end_addr = 2 ^ 22, ino = 7, moffset = 0,
     epoch = 1, policy = p, radixlog = ex_root, read_cnt = 0, write_cnt = 0, fsize = 8192,
     checkpoint_thread = 0, ref = 1\<rparr>"

text \<open>The log area holds the byte 9, the buffer 7; elsewhere the bytes count up.\<close>

definition ex_byte :: "addr \<Rightarrow> byte" where
  "ex_byte a = (if 2 ^ 14 \<le> a \<and> a < 2 ^ 15 then 9 else if 2 ^ 15 \<le> a \<and> a < 2 ^ 16 then 7 else of_nat (a mod 256))"

definition ex_world :: "policy \<Rightarrow> world" where
  "ex_world p = \<lparr>mem = \<lparr>bytes = ex_byte, regions = [(0, 2 ^ 22)]\<rparr>,
     ptrace = [], tables = (\<lambda>p. if p = 50 then ex_table else ex_table\<lparr>entries := \<lambda>_. None\<rparr>), idxs = (\<lambda>_. ex_entry), mmios = (\<lambda>_. ex_mmio p),
     table_pool = two_objects, idx_pool = empty_pool NR_NODE_FILL,
     log_pool = (\<lambda>_. empty_pool NR_NODE_FILL), mmio_pool = empty_pool NR_MMIO_FILL,
     bravo = \<lparr>visible_readers = (\<lambda>_. None), clock = (\<lambda>_. (0, 0)), ticks = 0\<rparr>\<rparr>"

lemma ex_env_copies: "pmem_copies ex_env"
  by (simp add: pmem_copies_def ex_env_def)

lemma ex_entry_fields [simp]:
  "e_epoch ex_entry = 0" "e_offset ex_entry = 0" "e_len ex_entry = 0" "e_policy ex_entry = UNDO"
  "log ex_entry = 2 ^ 14" "log_size ex_entry = 0" "rwlockp ex_entry = RWLOCK_INIT"
  by (simp_all add: ex_entry_def e_epoch_def e_offset_def e_len_def e_policy_def bf_get_def)

lemma ex_world_sel [simp]:
  "idxs (ex_world p) x = ex_entry" "mmios (ex_world p) x = ex_mmio p" 
  "tables (ex_world p) 50 = ex_table" "x \<noteq> 50 \<Longrightarrow> entries (tables (ex_world p) x) = (\<lambda>_. None)"
  "table_pool (ex_world p) = two_objects" "bravo (ex_world p) = \<lparr>visible_readers = (\<lambda>_. None), clock = (\<lambda>_. (0, 0)), ticks = 0\<rparr>"
  "regions (mem (ex_world p)) = [(0, 2 ^ 22)]"
  "bytes (mem (ex_world p)) = ex_byte"
  by (simp_all add: ex_world_def)

lemma ex_root_sel [simp]:
  "skip ex_root = Some 50" "prev_table_index ex_root = 2 ^ 64 - 1" "prev_table ex_root = None"
  by (simp_all add: ex_root_def)

lemma two_objects_avail [simp]: "avail two_objects = {100, 200}"
proof -
  have o: "objs_at two_objects l = (if l = Glob then [100, 200] else [])" for l
    by (cases l) (simp_all add: two_objects_def objs_def)
  show ?thesis by (auto simp: avail_def o)
qed

lemma ex_mmio_sel [simp]:
  "policy (ex_mmio p) = p" "epoch (ex_mmio p) = 1" "start (ex_mmio p) = 2 ^ 21" "end_addr (ex_mmio p) = 2 ^ 22"
  "fsize (ex_mmio p) = 8192" "rwlock (ex_mmio p) = bravo_rwlock_init" "radixlog (ex_mmio p) = ex_root"
  by (simp_all add: ex_mmio_def)

text \<open>The same state with fifty bytes logged at offset 100 of the block, in the current epoch.\<close>

definition ex_logged :: "policy \<Rightarrow> world" where
  "ex_logged p = upd_entry 70 (\<lambda>e. set_policy p (set_epoch 1 (set_len 50 (set_offset 100 (e\<lparr>dst := 2 ^ 21\<rparr>))))) (ex_world p)"

lemma ex_logged_sel [simp]:
  "e_epoch (idxs (ex_logged p) 70) = 1" "e_offset (idxs (ex_logged p) 70) = 100" "e_len (idxs (ex_logged p) 70) = 50"
  "e_policy (idxs (ex_logged p) 70) = p" "log (idxs (ex_logged p) 70) = 2 ^ 14" "log_size (idxs (ex_logged p) 70) = 0"
  "dst (idxs (ex_logged p) 70) = 2 ^ 21" "rwlockp (idxs (ex_logged p) 70) = RWLOCK_INIT"
  "mmios (ex_logged p) = mmios (ex_world p)" "mem (ex_logged p) = mem (ex_world p)" "tables (ex_logged p) = tables (ex_world p)"
  by (simp_all add: ex_logged_def)

end
