(* ===== verification/FileHash.thy ===== *)
theory FileHash
  imports MmioAlloc Linked_List Example
begin

text \<open>
  The table of open files by inode number of src/src/file_hash.c: an array of circular lists
  (theory Linked_List) of nodes that point to the files. A node is known by the address of
  its \<^verbatim>\<open>struct list_head\<close>; \<open>hptr\<close> has its \<^verbatim>\<open>ptr\<close> field. \<^verbatim>\<open>malloc\<close> returns addresses that have
  never been used, from \<open>next_hnode\<close> on. The mutex of a bucket makes each operation one step.
\<close>

definition sizeof_hash_head :: nat where "sizeof_hash_head = 56"
definition sizeof_hash_node :: nat where "sizeof_hash_node = 24"

record file_hash =
  links :: lheap
  hptr :: "ptr \<Rightarrow> ptr"
  hash_base :: addr
  next_hnode :: ptr

definition get_hash_index :: "nat \<Rightarrow> nat" where
  "get_hash_index i = i mod FILE_HASH_SIZE"

text \<open>\<^verbatim>\<open>&file_hash[index].head\<close>, after a mutex of 40 bytes.\<close>

definition bucket :: "file_hash \<Rightarrow> nat \<Rightarrow> ptr" where
  "bucket H index = hash_base H + index * sizeof_hash_head + 40"

text \<open>The search loop that both lookups share; \<open>None\<close> when the list does not lead back to its head.\<close>

partial_function (option) hash_search :: "file_hash \<Rightarrow> (ptr \<Rightarrow> mmio) \<Rightarrow> nat \<Rightarrow> ptr \<Rightarrow> ptr \<Rightarrow> ptr option option" where
  "hash_search H ms i head pos =
     (if pos = head then Some None
      else if i = ino (ms (hptr H pos)) then Some (Some (hptr H pos))
      else hash_search H ms i head (nxt (links H pos)))"

definition lookup_bucket :: "file_hash \<Rightarrow> (ptr \<Rightarrow> mmio) \<Rightarrow> nat \<Rightarrow> ptr option res" where
  "lookup_bucket H ms i =
     (let head = bucket H (get_hash_index i) in
      if \<not> list_empty head (links H)
      then case hash_search H ms i head (nxt (links H head)) of None \<Rightarrow> Inl Blocked | Some r \<Rightarrow> Inr r
      else Inr None)"

definition get_mmio_hash :: "nat \<Rightarrow> file_hash \<Rightarrow> world \<Rightarrow> (ptr option \<times> world) res" where
  "get_mmio_hash i H w =
     bindE (lookup_bucket H (mmios w) i) (\<lambda>r.
       case r of
         Some M \<Rightarrow> Inr (Some M, upd_mmio M (\<lambda>m. m\<lparr>ref := ref m + 1\<rparr>) w)
       | None \<Rightarrow> Inr (None, w))"

text \<open>The second result of \<open>put_mmio_hash\<close> is the file that is in the table afterwards.\<close>

definition put_mmio_hash :: "nat \<Rightarrow> ptr \<Rightarrow> file_hash \<Rightarrow> world \<Rightarrow> (ptr \<times> file_hash \<times> world) res" where
  "put_mmio_hash i M H w =
     bindE (lookup_bucket H (mmios w) i) (\<lambda>r.
       case r of
         Some other \<Rightarrow> Inr (other, H, w)
       | None \<Rightarrow>
           let w1 = upd_mmio M (\<lambda>m. m\<lparr>ref := ref m + 1\<rparr>) w;
               hnode = next_hnode H;
               H1 = H\<lparr>next_hnode := hnode + sizeof_hash_node, hptr := (hptr H)(hnode := M)\<rparr>;
               H2 = H1\<lparr>links := list_add hnode (bucket H (get_hash_index i)) (links H1)\<rparr>
           in Inr (M, H2, w1))"

text \<open>
  One round of the loop of \<^verbatim>\<open>delete_mmio_hash\<close>, and the loop: the successor \<open>tmp\<close> is read before
  the body may free the node. \<open>None\<close> when the list does not lead back to its head.
\<close>

definition delete_node :: "env \<Rightarrow> 'k posix \<Rightarrow> tid \<Rightarrow> int \<Rightarrow> int \<Rightarrow> nat \<Rightarrow> ptr \<Rightarrow> file_hash \<times> world \<times> 'k \<Rightarrow> (file_hash \<times> world \<times> 'k) res" where
  "delete_node E P t fd flags i hnode s =
     (case s of (H, w, k) \<Rightarrow>
        let M = hptr H hnode in
        if i = ino (mmios w M) then
          let w1 = upd_mmio M (\<lambda>m. m\<lparr>ref := ref m - 1\<rparr>) w in
          if ref (mmios w1 M) \<le> 0 then
            bindE (checkpoint_mmio E t M w1) (\<lambda>w2.
              let H1 = H\<lparr>links := list_del hnode (links H)\<rparr> in
            bindE (release_mmio P t M flags fd w2 k) (\<lambda>(w3, k1).
            Inr (H1, w3, k1)))
          else Inr (H, w1, k)
        else Inr (H, w, k))"

partial_function (option) delete_loop :: "env \<Rightarrow> 'k posix \<Rightarrow> tid \<Rightarrow> int \<Rightarrow> int \<Rightarrow> nat \<Rightarrow> ptr \<Rightarrow> ptr \<Rightarrow> ptr \<Rightarrow> file_hash \<times> world \<times> 'k \<Rightarrow> (file_hash \<times> world \<times> 'k) res option" where
  "delete_loop E P t fd flags i head pos tmp s =
     (if pos = head then Some (Inr s)
      else case delete_node E P t fd flags i pos s of
             Inl e \<Rightarrow> Some (Inl e)
           | Inr s1 \<Rightarrow> delete_loop E P t fd flags i head tmp (nxt (links (fst s1) tmp)) s1)"

definition delete_mmio_hash :: "env \<Rightarrow> 'k posix \<Rightarrow> tid \<Rightarrow> int \<Rightarrow> int \<Rightarrow> nat \<Rightarrow> file_hash \<times> world \<times> 'k \<Rightarrow> (file_hash \<times> world \<times> 'k) res" where
  "delete_mmio_hash E P t fd flags i s =
     (let H = fst s; head = bucket H (get_hash_index i); pos = nxt (links H head) in
      if \<not> list_empty head (links H)
      then case delete_loop E P t fd flags i head pos (nxt (links H pos)) s of None \<Rightarrow> Inl Blocked | Some r \<Rightarrow> r
      else Inr s)"

text \<open>\<^verbatim>\<open>init_file_hash\<close>; initialising a mutex does not fail on Linux.\<close>

definition init_file_hash :: "file_hash \<Rightarrow> file_hash" where
  "init_file_hash H = H\<lparr>links := fold (\<lambda>i. INIT_LIST_HEAD (bucket H i)) [0..<FILE_HASH_SIZE] (links H)\<rparr>"

subsection \<open>The table as a map\<close>

text \<open>
  \<open>hash_ok H B\<close>: bucket \<open>i\<close> is a well-formed list of the nodes \<open>B i\<close>; no node is in two
  buckets, is a head, or is at an address that \<^verbatim>\<open>malloc\<close> has still to return.
\<close>

definition hash_ok :: "file_hash \<Rightarrow> (nat \<Rightarrow> ptr list) \<Rightarrow> bool" where
  "hash_ok H B \<longleftrightarrow>
     (\<forall>i < FILE_HASH_SIZE. dlist (links H) (bucket H i) (B i)) \<and>
     (\<forall>i < FILE_HASH_SIZE. \<forall>j < FILE_HASH_SIZE. i \<noteq> j \<longrightarrow> set (B i) \<inter> set (B j) = {}) \<and>
     (\<forall>i < FILE_HASH_SIZE. \<forall>p \<in> set (B i). p < next_hnode H \<and> (\<forall>j < FILE_HASH_SIZE. p \<noteq> bucket H j)) \<and>
     (\<forall>j < FILE_HASH_SIZE. bucket H j < next_hnode H)"

text \<open>The files of a bucket, and the one that a lookup of \<open>i\<close> is to find.\<close>

definition bucket_find :: "file_hash \<Rightarrow> (ptr \<Rightarrow> mmio) \<Rightarrow> (nat \<Rightarrow> ptr list) \<Rightarrow> nat \<Rightarrow> ptr option" where
  "bucket_find H ms B i =
     map_option (hptr H) (find (\<lambda>p. ino (ms (hptr H p)) = i) (B (get_hash_index i)))"

lemma get_hash_index_less [simp]: "get_hash_index i < FILE_HASH_SIZE"
  by (simp add: get_hash_index_def FILE_HASH_SIZE_def MAX_FD_def)

lemma bucket_eq_iff [simp]: "bucket H i = bucket H j \<longleftrightarrow> i = j"
  by (simp add: bucket_def sizeof_hash_head_def)

lemma hash_search_list:
  assumes "dseg (links H) a xs head" and "head \<notin> set xs"
  shows "hash_search H ms i head (nxt (links H a)) = Some (map_option (hptr H) (find (\<lambda>p. ino (ms (hptr H p)) = i) xs))"
  using assms
proof (induction xs arbitrary: a)
  case Nil
  then show ?case by (simp add: hash_search.simps)
next
  case (Cons x xs)
  then show ?case by (subst hash_search.simps) auto
qed

text \<open>On a well-formed table, the loop ends and finds what the map has.\<close>

lemma lookup_bucket_find:
  assumes "hash_ok H B"
  shows "lookup_bucket H ms i = Inr (bucket_find H ms B i)"
proof -
  let ?k = "get_hash_index i"
  have d: "dlist (links H) (bucket H ?k) (B ?k)" using assms by (simp add: hash_ok_def)
  show ?thesis
  proof (cases "B ?k = []")
    case True
    then show ?thesis using list_empty_iff [OF d] by (simp add: lookup_bucket_def bucket_find_def Let_def)
  next
    case False
    then show ?thesis using list_empty_iff [OF d] d hash_search_list [of H "bucket H ?k" "B ?k" "bucket H ?k" ms i]
      by (simp add: lookup_bucket_def bucket_find_def Let_def dlist_def)
  qed
qed


text \<open>What a lookup finds, read off the table.\<close>

definition table_find :: "file_hash \<Rightarrow> (ptr \<Rightarrow> mmio) \<Rightarrow> nat \<Rightarrow> ptr option" where
  "table_find H ms i = (case lookup_bucket H ms i of Inr r \<Rightarrow> r | Inl _ \<Rightarrow> None)"

text \<open>
  The invariant of the table: well-formed, every file in the bucket of its inode, and no two
  files of one inode.
\<close>

definition hash_inv :: "file_hash \<Rightarrow> (ptr \<Rightarrow> mmio) \<Rightarrow> (nat \<Rightarrow> ptr list) \<Rightarrow> bool" where
  "hash_inv H ms B \<longleftrightarrow> hash_ok H B \<and>
     (\<forall>k < FILE_HASH_SIZE. distinct (map (\<lambda>p. ino (ms (hptr H p))) (B k)) \<and>
        (\<forall>p \<in> set (B k). get_hash_index (ino (ms (hptr H p))) = k))"

definition table_ok :: "file_hash \<Rightarrow> (ptr \<Rightarrow> mmio) \<Rightarrow> bool" where
  "table_ok H ms \<longleftrightarrow> (\<exists>B. hash_inv H ms B)"

lemma table_find_eq: "hash_ok H B \<Longrightarrow> table_find H ms = bucket_find H ms B"
  by (rule ext) (simp add: table_find_def lookup_bucket_find)

lemma lookup_bucket_ok: "table_ok H ms \<Longrightarrow> lookup_bucket H ms i = Inr (table_find H ms i)"
  by (auto simp: table_ok_def hash_inv_def table_find_def lookup_bucket_find)

text \<open>Only the inode numbers of the files matter.\<close>

lemma table_cong:
  assumes "\<And>p. ino (ms' p) = ino (ms p)"
  shows "table_ok H ms' = table_ok H ms" and "table_ok H ms \<Longrightarrow> table_find H ms' = table_find H ms"
  using assms by (auto simp: table_ok_def hash_inv_def table_find_eq bucket_find_def fun_eq_iff)

text \<open>Buckets share no cell.\<close>

lemma hash_ok_node: "hash_ok H B \<Longrightarrow> i < FILE_HASH_SIZE \<Longrightarrow> p \<in> set (B i) \<Longrightarrow> j < FILE_HASH_SIZE \<Longrightarrow> p \<noteq> bucket H j"
  unfolding hash_ok_def by blast

lemma hash_ok_dlist: "hash_ok H B \<Longrightarrow> i < FILE_HASH_SIZE \<Longrightarrow> dlist (links H) (bucket H i) (B i)"
  by (simp add: hash_ok_def)

lemma find_skip_elem: "\<not> Q e \<Longrightarrow> find Q (ys @ e # zs) = find Q (ys @ zs)"
  by (induction ys) auto

lemma hash_ok_lt: "hash_ok H B \<Longrightarrow> i < FILE_HASH_SIZE \<Longrightarrow> p \<in> set (B i) \<Longrightarrow> p < next_hnode H"
  unfolding hash_ok_def by blast

lemma hash_ok_sep:
  assumes "hash_ok H B" and "i < FILE_HASH_SIZE" and "k < FILE_HASH_SIZE" and "i \<noteq> k" and "p \<in> set (bucket H i # B i)"
  shows "p \<notin> set (bucket H k # B k)"
proof
  assume k: "p \<in> set (bucket H k # B k)"
  have d: "set (B i) \<inter> set (B k) = {}" using assms unfolding hash_ok_def by blast
  show False using assms(2-5) k d hash_ok_node [OF assms(1)] by auto
qed

lemma find_in_set: "find Q xs = Some x \<Longrightarrow> x \<in> set xs"
  by (induction xs) (auto split: if_splits)

text \<open>Adding a node at the head of a bucket.\<close>

lemma hash_ok_add:
  fixes M
  assumes ok: "hash_ok H B" and k: "k < FILE_HASH_SIZE"
  defines "n \<equiv> next_hnode H"
  defines "H' \<equiv> H\<lparr>next_hnode := n + sizeof_hash_node, hptr := (hptr H)(n := M), links := list_add n (bucket H k) (links H)\<rparr>"
  shows "hash_ok H' (B(k := n # B k))"
proof -
  have d: "dlist (links H) (bucket H i) (B i)" if "i < FILE_HASH_SIZE" for i using ok that by (simp add: hash_ok_def)
  have lt: "p < n" if "i < FILE_HASH_SIZE" "p \<in> set (bucket H i # B i)" for i p
    using ok that by (auto simp: hash_ok_def n_def)
  have new: "n \<notin> set (bucket H i # B i)" if "i < FILE_HASH_SIZE" for i using lt [OF that] by blast
  have b: "bucket H' i = bucket H i" for i by (simp add: bucket_def H'_def)
  have "dlist (links H') (bucket H' i) ((B(k := n # B k)) i)" if i: "i < FILE_HASH_SIZE" for i
  proof (cases "i = k")
    case True
    then show ?thesis using list_add_refines [OF d [OF k] new [OF k]] by (simp add: b) (simp add: H'_def)
  next
    case False
    have "links H' p = links H p" if "p \<in> set (bucket H i # B i)" for p
    proof -
      have "p \<notin> set (n # bucket H k # B k)" using hash_ok_sep [OF ok i k False that] new [OF i] that by auto
      then show ?thesis using list_add_untouched [OF d [OF k]] by (simp add: H'_def)
    qed
    then show ?thesis using dlist_frame [OF d [OF i]] False by (simp add: b)
  qed
  moreover have "set ((B(k := n # B k)) i) \<inter> set ((B(k := n # B k)) j) = {}"
    if "i < FILE_HASH_SIZE" "j < FILE_HASH_SIZE" "i \<noteq> j" for i j
    using ok that new by (auto simp: hash_ok_def)
  moreover have "p < next_hnode H' \<and> (\<forall>j < FILE_HASH_SIZE. p \<noteq> bucket H' j)"
    if "i < FILE_HASH_SIZE" "p \<in> set ((B(k := n # B k)) i)" for i p
  proof -
    have "p = n \<or> p \<in> set (B i)" using that(2) by (auto split: if_splits)
    moreover have "n \<noteq> bucket H j" if "j < FILE_HASH_SIZE" for j using new [OF that] by simp
    moreover have "next_hnode H' = n + sizeof_hash_node" by (simp add: H'_def)
    ultimately show ?thesis
      using that(1) lt [of i p] hash_ok_node [OF ok that(1)] by (auto simp: b sizeof_hash_node_def)
  qed
  moreover have "bucket H' j < next_hnode H'" if "j < FILE_HASH_SIZE" for j
    using ok that by (simp add: b) (simp add: H'_def hash_ok_def n_def trans_less_add1)
  ultimately show ?thesis unfolding hash_ok_def by blast
qed

lemma put_mmio_hash_new:
  assumes ok: "table_ok H (mmios w)" and f: "table_find H (mmios w) i = None" and M: "ino (mmios w M) = i"
  shows "\<exists>H'. put_mmio_hash i M H w = Inr (M, H', upd_mmio M (\<lambda>m. m\<lparr>ref := ref m + 1\<rparr>) w) \<and> table_ok H' (mmios w) \<and>
    table_find H' (mmios w) = (table_find H (mmios w))(i := Some M)"
proof -
  obtain B where B: "hash_ok H B" and u: "\<And>k. k < FILE_HASH_SIZE \<Longrightarrow> distinct (map (\<lambda>p. ino (mmios w (hptr H p))) (B k))"
    and ix: "\<And>k p. k < FILE_HASH_SIZE \<Longrightarrow> p \<in> set (B k) \<Longrightarrow> get_hash_index (ino (mmios w (hptr H p))) = k"
    using ok by (auto simp: table_ok_def hash_inv_def)
  define n k where "n = next_hnode H" and "k = get_hash_index i"
  define H' where "H' = H\<lparr>next_hnode := n + sizeof_hash_node, hptr := (hptr H)(n := M), links := list_add n (bucket H k) (links H)\<rparr>"
  let ?B = "B(k := n # B k)"
  have ok': "hash_ok H' ?B" using hash_ok_add [OF B, of k M] by (simp add: H'_def n_def k_def)
  have put: "put_mmio_hash i M H w = Inr (M, H', upd_mmio M (\<lambda>m. m\<lparr>ref := ref m + 1\<rparr>) w)"
    using lookup_bucket_ok [OF ok, of i] f by (simp add: put_mmio_hash_def Let_def H'_def n_def k_def)
  have h: "hptr H' p = hptr H p" if "l < FILE_HASH_SIZE" "p \<in> set (B l)" for p l
    using B that by (auto simp: H'_def hash_ok_def n_def)
  have hn: "hptr H' n = M" by (simp add: H'_def)
  have inos: "map (\<lambda>p. ino (mmios w (hptr H' p))) (B l) = map (\<lambda>p. ino (mmios w (hptr H p))) (B l)" if "l < FILE_HASH_SIZE" for l
    using h [OF that] by simp
  have "find (\<lambda>p. ino (mmios w (hptr H p)) = i) (B k) = None"
    using f by (simp add: table_find_eq [OF B] bucket_find_def k_def)
  then have "i \<notin> set (map (\<lambda>p. ino (mmios w (hptr H p))) (B k))" by (auto simp: find_None_iff)
  then have "distinct (map (\<lambda>p. ino (mmios w (hptr H' p))) (?B l))" if "l < FILE_HASH_SIZE" for l
    using u [OF that] that hn M unfolding fun_upd_def by (cases "l = k") (simp_all only: simp_thms if_True if_False list.map distinct.simps inos)
  moreover have "get_hash_index (ino (mmios w (hptr H' p))) = l" if "l < FILE_HASH_SIZE" "p \<in> set (?B l)" for l p
  proof -
    have "p = n \<and> l = k \<or> p \<in> set (B l)" using that(2) by (auto split: if_splits)
    then show ?thesis using that(1) ix [of l p] h [of l p] hn M by (auto simp: k_def)
  qed
  ultimately have inv: "table_ok H' (mmios w)" using ok' unfolding table_ok_def hash_inv_def by blast
  have same: "map_option (hptr H') (find (\<lambda>p. ino (mmios w (hptr H' p)) = j) (B l)) =
      map_option (hptr H) (find (\<lambda>p. ino (mmios w (hptr H p)) = j) (B l))" if "l < FILE_HASH_SIZE" for j l
  proof -
    have "find (\<lambda>p. ino (mmios w (hptr H' p)) = j) (B l) = find (\<lambda>p. ino (mmios w (hptr H p)) = j) (B l)"
      using h [OF that] by (intro find_cong) simp_all
    then show ?thesis using h [OF that] by (cases "find (\<lambda>p. ino (mmios w (hptr H p)) = j) (B l)") (auto dest: find_in_set)
  qed
  have "bucket_find H' (mmios w) ?B j = ((bucket_find H (mmios w) B)(i := Some M)) j" for j
    using same M by (cases "get_hash_index j = k"; cases "j = i") (simp_all add: bucket_find_def k_def hn)
  then have "table_find H' (mmios w) = (table_find H (mmios w))(i := Some M)"
    by (simp add: table_find_eq [OF ok'] table_find_eq [OF B] fun_eq_iff)
  then show ?thesis using put inv by blast
qed

subsection \<open>The contract that opening a file relies on\<close>

locale open_files =
  fixes inv :: "'s \<Rightarrow> bool" and look :: "'s \<Rightarrow> nat \<Rightarrow> 'f option" and name_of :: "'s \<Rightarrow> 'f \<Rightarrow> nat"
    and get :: "nat \<Rightarrow> 's \<Rightarrow> ('f option \<times> 's) res" and put :: "nat \<Rightarrow> 'f \<Rightarrow> 's \<Rightarrow> ('f \<times> 's) res"
  assumes get_law: "inv s \<Longrightarrow> \<exists>s'. get i s = Inr (look s i, s') \<and> inv s' \<and> look s' = look s"
    and put_absent: "inv s \<Longrightarrow> look s i = None \<Longrightarrow> name_of s f = i \<Longrightarrow>
      \<exists>s'. put i f s = Inr (f, s') \<and> inv s' \<and> look s' = (look s)(i := Some f)"
    and put_present: "inv s \<Longrightarrow> look s i = Some f' \<Longrightarrow> put i f s = Inr (f', s)"
begin

lemma put_law:
  assumes "inv s" and "name_of s f = i"
  shows "\<exists>f' s'. put i f s = Inr (f', s') \<and> inv s' \<and> look s' i = Some f' \<and> (\<forall>j. j \<noteq> i \<longrightarrow> look s' j = look s j)"
  using assms put_absent [of s i f] put_present [of s i _ f] by (cases "look s i") fastforce+

lemma get_after_put:
  assumes "inv s" and "name_of s f = i" and "put i f s = Inr (f', s')"
  shows "\<exists>s''. get i s' = Inr (Some f', s'') \<and> inv s''"
proof -
  have "inv s'" "look s' i = Some f'" using put_law [OF assms(1,2)] assms(3) by auto
  then show ?thesis using get_law [of s' i] by auto
qed

end

interpretation fh: open_files "\<lambda>(H, w). table_ok H (mmios w)" "\<lambda>(H, w). table_find H (mmios w)"
  "\<lambda>(H, w) M. ino (mmios w M)"
  "\<lambda>i (H, w). bindE (get_mmio_hash i H w) (\<lambda>(r, w'). Inr (r, H, w'))"
  "\<lambda>i M (H, w). put_mmio_hash i M H w"
proof (unfold_locales, goal_cases)
  case (1 s i)
  obtain H w where s: "s = (H, w)" by (cases s)
  have ok: "table_ok H (mmios w)" using 1 s by simp
  let ?w = "\<lambda>M. upd_mmio M (\<lambda>m. m\<lparr>ref := ref m + 1\<rparr>) w"
  have c: "ino (mmios (?w M) p) = ino (mmios w p)" for M p by simp
  show ?case using lookup_bucket_ok [OF ok, of i] table_cong [of "mmios (?w _)" "mmios w" H, OF c] ok s
    by (cases "table_find H (mmios w) i") (simp_all add: get_mmio_hash_def)
next
  case (2 s i M)
  obtain H w where s: "s = (H, w)" by (cases s)
  let ?w = "upd_mmio M (\<lambda>m. m\<lparr>ref := ref m + 1\<rparr>) w"
  have c: "ino (mmios ?w p) = ino (mmios w p)" for p by simp
  show ?case using put_mmio_hash_new [of H w i M] 2 s table_cong [of "mmios ?w" "mmios w", OF c] by auto
next
  case (3 s i M' M)
  then show ?case using lookup_bucket_ok by (auto simp: put_mmio_hash_def)
qed


subsection \<open>Closing a file\<close>

text \<open>A checkpoint changes no file but its own, and of that only the lock.\<close>

definition relock_only :: "ptr \<Rightarrow> world \<Rightarrow> world \<Rightarrow> bool" where
  "relock_only M w w' \<longleftrightarrow> (\<exists>b. mmios w' = (mmios w)(M := (mmios w M)\<lparr>rwlock := b\<rparr>))"

lemma relock_only_refl: "mmios w' = mmios w \<Longrightarrow> relock_only M w w'"
  unfolding relock_only_def by (intro exI [of _ "rwlock (mmios w M)"]) simp

lemma relock_only_trans: "relock_only M w w1 \<Longrightarrow> relock_only M w1 w2 \<Longrightarrow> relock_only M w w2"
  by (auto simp: relock_only_def)

lemma relock_only_ino: "relock_only M w w' \<Longrightarrow> ino (mmios w' p) = ino (mmios w p)"
  by (auto simp: relock_only_def)

lemma mm_lock_relock: "mm_lock f M w = Inr w' \<Longrightarrow> relock_only M w w'"
  by (auto simp: mm_lock_def relock_only_def elim!: bindE_InrE)

lemma copy_log_mmios: "copy_log E entry w = Inr w' \<Longrightarrow> mmios w' = mmios w"
  by (auto simp: copy_log_def NTSTORE_def Let_def elim!: bindE_InrE split: if_splits)

lemma free_idx_entry_mmios: "free_idx_entry t entry s w = Inr w' \<Longrightarrow> mmios w' = mmios w"
  by (auto simp: free_idx_entry_eq free_log_data_def Let_def elim!: bindE_InrE)

lemma checkpoint_slot_mmios: "checkpoint_slot E t ep tb s i w = Inr w' \<Longrightarrow> mmios w' = mmios w"
  by (auto simp: checkpoint_slot_def Let_def set_table_entry_def dest!: copy_log_mmios free_idx_entry_mmios
      elim!: bindE_InrE split: option.splits if_splits)

lemma checkpoint_table_mmios:
  assumes "checkpoint_table E t ep tb w = Inr w'"
  shows "mmios w' = mmios w"
proof -
  have "foldE (checkpoint_slot E t ep tb (tlog_size (tables w tb))) [0..<NR_ENTRIES (tlog_size (tables w tb))] w = Inr w'"
    using assms by (simp add: checkpoint_table_def Let_def split: if_splits)
  then show ?thesis by (rule foldE_invariant [where P = "\<lambda>w1. mmios w1 = mmios w"]) (auto dest: checkpoint_slot_mmios)
qed

lemma checkpoint_chunk_relock: "checkpoint_chunk E t M ep off w = Inr (n, w') \<Longrightarrow> relock_only M w w'"
proof -
  assume r: "checkpoint_chunk E t M ep off w = Inr (n, w')"
  obtain got b st where tl: "bravo_read_trylock t M (rwlock (mmios w M)) (bravo w) = (got, b, st)" by (metis prod_cases3)
  define w1 where "w1 = upd_mmio M (\<lambda>m. m\<lparr>rwlock := b\<rparr>) (w\<lparr>bravo := st\<rparr>)"
  have w1: "relock_only M w w1" by (auto simp: relock_only_def w1_def)
  show ?thesis
  proof (cases got)
    case False
    then show ?thesis using r tl by (simp add: checkpoint_chunk_def relock_only_refl)
  next
    case True
    have r': "(case find_log_table w1 (radixlog (mmios w1 M)) off of
         None \<Rightarrow> bindE (mm_read_unlock t M w1) (\<lambda>w2. Inr (NR_ENTRIES LOG_4K * LOG_SIZE LOG_4K, w2))
       | Some table \<Rightarrow> bindE (checkpoint_table E t ep table w1) (\<lambda>w2.
           bindE (mm_read_unlock t M w2) (\<lambda>w3. Inr (NR_ENTRIES (tlog_size (tables w1 table)) * LOG_SIZE (tlog_size (tables w1 table)), w3)))) = Inr (n, w')"
      using r by (simp add: checkpoint_chunk_def tl True w1_def Let_def cong: option.case_cong)
    show ?thesis
    proof (cases "find_log_table w1 (radixlog (mmios w1 M)) off")
      case None
      then have "mm_read_unlock t M w1 = Inr w'" using r' by (auto elim!: bindE_InrE)
      then show ?thesis using mm_lock_relock relock_only_trans [OF w1] by (auto simp: mm_read_unlock_def)
    next
      case (Some tb)
      then obtain w2 where "checkpoint_table E t ep tb w1 = Inr w2" "mm_read_unlock t M w2 = Inr w'"
        using r' by (auto elim!: bindE_InrE)
      then have "relock_only M w1 w2" "relock_only M w2 w'"
        using checkpoint_table_mmios relock_only_refl mm_lock_relock by (auto simp: mm_read_unlock_def)
      then show ?thesis using w1 relock_only_trans by blast
    qed
  qed
qed

lemma checkpoint_loop_relock: "checkpoint_loop fuel E t M ep endoff off w = Inr w' \<Longrightarrow> relock_only M w w'"
proof (induction fuel arbitrary: off w)
  case 0
  then show ?case by (auto simp: relock_only_refl split: if_splits)
next
  case (Suc fuel)
  show ?case
  proof (cases "off < endoff")
    case True
    then obtain n w1 where "checkpoint_chunk E t M ep off w = Inr (n, w1)" "checkpoint_loop fuel E t M ep endoff (off + n) w1 = Inr w'"
      using Suc.prems by (auto elim!: bindE_InrE)
    then show ?thesis using Suc.IH checkpoint_chunk_relock relock_only_trans by blast
  next
    case False
    then show ?thesis using Suc.prems by (simp add: relock_only_refl)
  qed
qed

lemma checkpoint_mmio_relock: "checkpoint_mmio E t M w = Inr w' \<Longrightarrow> relock_only M w w'"
  unfolding checkpoint_mmio_def Let_def by (rule checkpoint_loop_relock)

lemma release_mmio_mmios:
  assumes "release_mmio P t M flags fd w k = Inr (w', k')"
  shows "\<exists>m. mmios w' = (mmios w)(M := init_mmio m)"
proof -
  obtain w1 w2 pool where "mm_lock (bravo_rwlock_destroy M) M w1 = Inr w2" "mmios w1 = mmios w"
    "w' = (upd_mmio M init_mmio w2)\<lparr>mmio_pool := pool\<rparr>"
    using assms by (auto simp: release_mmio_def unmap_file_def Let_def elim!: bindE_InrE split: prod.splits if_splits)
  moreover from this(1) obtain b where "mmios w2 = (mmios w1)(M := (mmios w1 M)\<lparr>rwlock := b\<rparr>)"
    using mm_lock_relock unfolding relock_only_def by blast
  ultimately show ?thesis by (intro exI [of _ "mmios w2 M"]) simp
qed


lemma hash_ok_del:
  assumes ok: "hash_ok H B" and k: "k < FILE_HASH_SIZE" and B: "B k = ys @ e # zs"
  shows "hash_ok (H\<lparr>links := list_del e (links H)\<rparr>) (B(k := ys @ zs))"
proof -
  let ?H = "H\<lparr>links := list_del e (links H)\<rparr>" and ?B = "B(k := ys @ zs)"
  have d: "dlist (links H) (bucket H i) (B i)" if "i < FILE_HASH_SIZE" for i using ok that by (simp add: hash_ok_def)
  have b: "bucket ?H i = bucket H i" for i by (simp add: bucket_def)
  have sub: "set (?B i) \<subseteq> set (B i)" for i using B by auto
  have "dlist (links ?H) (bucket ?H i) (?B i)" if i: "i < FILE_HASH_SIZE" for i
  proof (cases "i = k")
    case True
    then show ?thesis using list_del_refines [of "links H" "bucket H k" ys e zs] d [OF k] B by (simp add: b)
  next
    case False
    have "links ?H p = links H p" if "p \<in> set (bucket H i # B i)" for p
      using list_del_untouched [OF d [OF k], of e p] hash_ok_sep [OF ok i k False that] B by simp
    then show ?thesis using dlist_frame [OF d [OF i]] False by (simp add: b)
  qed
  moreover have "set (?B i) \<inter> set (?B j) = {}" if "i < FILE_HASH_SIZE" "j < FILE_HASH_SIZE" "i \<noteq> j" for i j
  proof -
    have "set (B i) \<inter> set (B j) = {}" using ok that unfolding hash_ok_def by blast
    then show ?thesis using sub [of i] sub [of j] by blast
  qed
  moreover have "p < next_hnode ?H \<and> (\<forall>j < FILE_HASH_SIZE. p \<noteq> bucket ?H j)" if "i < FILE_HASH_SIZE" "p \<in> set (?B i)" for i p
  proof -
    have "p \<in> set (B i)" using that(2) sub by blast
    then show ?thesis using hash_ok_lt [OF ok that(1)] hash_ok_node [OF ok that(1)] by (simp add: b)
  qed
  moreover have "bucket ?H j < next_hnode ?H" if "j < FILE_HASH_SIZE" for j using ok that unfolding hash_ok_def b by simp
  ultimately show ?thesis unfolding hash_ok_def by blast
qed

text \<open>The loop passes over the nodes of other files.\<close>

lemma delete_loop_skip:
  assumes "dseg (links H) a ys b" and "head \<notin> set ys" and "\<And>p. p \<in> set ys \<Longrightarrow> ino (mmios w (hptr H p)) \<noteq> i"
  shows "delete_loop E P t fd flags i head (nxt (links H a)) (nxt (links H (nxt (links H a)))) (H, w, k) =
    delete_loop E P t fd flags i head b (nxt (links H b)) (H, w, k)"
  using assms
proof (induction ys arbitrary: a)
  case Nil
  then show ?case by simp
next
  case (Cons x xs)
  have "delete_node E P t fd flags i x (H, w, k) = Inr (H, w, k)"
    using Cons.prems(3) [of x] by (auto simp: delete_node_def Let_def)
  then show ?case using Cons by (subst delete_loop.simps) auto
qed

lemma delete_loop_end: "delete_loop E P t fd flags i head head tmp s = Some (Inr s)"
  by (subst delete_loop.simps) simp

lemma delete_absent:
  assumes ok: "hash_inv H (mmios w) B" and f: "table_find H (mmios w) i = None"
  shows "delete_mmio_hash E P t fd flags i (H, w, k) = Inr (H, w, k)"
proof -
  let ?k = "get_hash_index i" and ?h = "bucket H (get_hash_index i)"
  have hk: "hash_ok H B" using ok by (simp add: hash_inv_def)
  then have d: "dlist (links H) ?h (B ?k)" by (simp add: hash_ok_def)
  have "ino (mmios w (hptr H p)) \<noteq> i" if "p \<in> set (B ?k)" for p
    using f that by (auto simp: table_find_eq [OF hk] bucket_find_def find_None_iff)
  then have "delete_loop E P t fd flags i ?h (nxt (links H ?h)) (nxt (links H (nxt (links H ?h)))) (H, w, k) = Some (Inr (H, w, k))"
    using delete_loop_skip [of H ?h "B ?k" ?h ?h w i E P t fd flags k] d delete_loop_end by (simp add: dlist_def)
  then show ?thesis by (simp add: delete_mmio_hash_def Let_def)
qed

text \<open>The file of an inode has one node, and no other node refers to it.\<close>

lemma found_node:
  assumes ok: "hash_inv H ms B" and f: "table_find H ms i = Some M"
  obtains ys e zs where "B (get_hash_index i) = ys @ e # zs" and "hptr H e = M" and "ino (ms M) = i"
    and "\<And>p. p \<in> set ys \<union> set zs \<Longrightarrow> ino (ms (hptr H p)) \<noteq> i"
    and "\<And>k p. k < FILE_HASH_SIZE \<Longrightarrow> p \<in> set ((B(get_hash_index i := ys @ zs)) k) \<Longrightarrow> hptr H p \<noteq> M"
proof -
  let ?k = "get_hash_index i"
  have hk: "hash_ok H B" and u: "distinct (map (\<lambda>p. ino (ms (hptr H p))) (B ?k))"
    and ix: "\<And>k p. k < FILE_HASH_SIZE \<Longrightarrow> p \<in> set (B k) \<Longrightarrow> get_hash_index (ino (ms (hptr H p))) = k"
    using ok by (auto simp: hash_inv_def)
  obtain e where e: "find (\<lambda>p. ino (ms (hptr H p)) = i) (B ?k) = Some e" "hptr H e = M"
    using f by (auto simp: table_find_eq [OF hk] bucket_find_def)
  have ei: "e \<in> set (B ?k)" "ino (ms M) = i" using e find_in_set by (auto simp: find_Some_iff)
  then obtain ys zs where B: "B ?k = ys @ e # zs" by (metis split_list)
  have other: "ino (ms (hptr H p)) \<noteq> i" if "p \<in> set ys \<union> set zs" for p
  proof -
    have "ino (ms (hptr H e)) \<notin> (\<lambda>p. ino (ms (hptr H p))) ` (set ys \<union> set zs)" using u by (auto simp: B)
    then have "ino (ms (hptr H p)) \<noteq> ino (ms (hptr H e))" using that by (metis imageI)
    then show ?thesis using e(2) ei(2) by simp
  qed
  have "hptr H p \<noteq> M" if "k < FILE_HASH_SIZE" "p \<in> set ((B(?k := ys @ zs)) k)" for k p
    using that other [of p] ix [of k p] ei(2) by (cases "k = ?k") auto
  then show thesis using that [OF B e(2) ei(2) other] by blast
qed

lemma delete_loop_found:
  assumes ok: "hash_ok H B" and B: "B (get_hash_index i) = ys @ e # zs"
    and o: "\<And>p. p \<in> set ys \<Longrightarrow> ino (mmios w (hptr H p)) \<noteq> i"
  shows "delete_mmio_hash E P t fd flags i (H, w, k) =
    (case delete_node E P t fd flags i e (H, w, k) of
       Inl x \<Rightarrow> Inl x
     | Inr s1 \<Rightarrow> (case delete_loop E P t fd flags i (bucket H (get_hash_index i)) (nxt (links H e)) (nxt (links (fst s1) (nxt (links H e)))) s1 of
          None \<Rightarrow> Inl Blocked | Some r \<Rightarrow> r))"
proof -
  let ?h = "bucket H (get_hash_index i)"
  have d: "dlist (links H) ?h (ys @ e # zs)" using ok B by (simp add: hash_ok_def flip: B)
  then have s: "dseg (links H) ?h ys e" "?h \<notin> set ys" "e \<noteq> ?h" by (auto simp: dlist_def dseg_append)
  have ne: "\<not> list_empty ?h (links H)" using list_empty_iff [OF d] by simp
  have "delete_loop E P t fd flags i ?h (nxt (links H ?h)) (nxt (links H (nxt (links H ?h)))) (H, w, k) =
      delete_loop E P t fd flags i ?h e (nxt (links H e)) (H, w, k)"
    by (rule delete_loop_skip [OF s(1,2) o])
  also have "\<dots> = (case delete_node E P t fd flags i e (H, w, k) of Inl x \<Rightarrow> Some (Inl x)
      | Inr s1 \<Rightarrow> delete_loop E P t fd flags i ?h (nxt (links H e)) (nxt (links (fst s1) (nxt (links H e)))) s1)"
    using s(3) by (subst delete_loop.simps) simp
  finally show ?thesis using ne by (simp add: delete_mmio_hash_def Let_def split: sum.split)
qed


lemma delete_shared_result:
  assumes ok: "table_ok H (mmios w)" and f: "table_find H (mmios w) i = Some M" and r: "1 < ref (mmios w M)"
  shows "delete_mmio_hash E P t fd flags i (H, w, k) = Inr (H, upd_mmio M (\<lambda>m. m\<lparr>ref := ref m - 1\<rparr>) w, k)"
proof -
  obtain B where inv: "hash_inv H (mmios w) B" using ok by (auto simp: table_ok_def)
  have hk: "hash_ok H B" using inv by (simp add: hash_inv_def)
  let ?w = "upd_mmio M (\<lambda>m. m\<lparr>ref := ref m - 1\<rparr>) w" and ?h = "bucket H (get_hash_index i)"
  obtain ys e zs where B: "B (get_hash_index i) = ys @ e # zs" and M: "hptr H e = M" "ino (mmios w M) = i"
    and o: "\<And>p. p \<in> set ys \<union> set zs \<Longrightarrow> ino (mmios w (hptr H p)) \<noteq> i"
    by (rule found_node [OF inv f]) (rule that)
  have n: "delete_node E P t fd flags i e (H, w, k) = Inr (H, ?w, k)" using r M by (simp add: delete_node_def Let_def)
  have "dlist (links H) ?h (ys @ e # zs)" using hk by (simp add: hash_ok_def flip: B)
  then have s: "dseg (links H) e zs ?h" "?h \<notin> set zs" by (auto simp: dlist_def dseg_append)
  have "ino (mmios ?w (hptr H p)) \<noteq> i" if "p \<in> set zs" for p using o [of p] that by auto
  then have "delete_loop E P t fd flags i ?h (nxt (links H e)) (nxt (links H (nxt (links H e)))) (H, ?w, k) = Some (Inr (H, ?w, k))"
    using delete_loop_skip [OF s, of ?w i E P t fd flags k] delete_loop_end by metis
  then show ?thesis using delete_loop_found [OF hk B, of w E P t fd flags k] o n by simp
qed

lemma delete_last_result:
  assumes ok: "table_ok H (mmios w)" and f: "table_find H (mmios w) i = Some M" and r: "ref (mmios w M) \<le> 1"
    and c: "checkpoint_mmio E t M (upd_mmio M (\<lambda>m. m\<lparr>ref := ref m - 1\<rparr>) w) = Inr w2"
    and l: "release_mmio P t M flags fd w2 k = Inr (w3, k1)"
  shows "\<exists>H'. delete_mmio_hash E P t fd flags i (H, w, k) = Inr (H', w3, k1) \<and> table_ok H' (mmios w3) \<and>
    table_find H' (mmios w3) = (table_find H (mmios w))(i := None)"
proof -
  obtain B where inv: "hash_inv H (mmios w) B" using ok by (auto simp: table_ok_def)
  have hk: "hash_ok H B" using inv by (simp add: hash_inv_def)
  let ?k = "get_hash_index i" and ?h = "bucket H (get_hash_index i)"
  obtain ys e zs where B: "B ?k = ys @ e # zs" and M: "hptr H e = M" "ino (mmios w M) = i"
    and o: "\<And>p. p \<in> set ys \<union> set zs \<Longrightarrow> ino (mmios w (hptr H p)) \<noteq> i"
    and nM: "\<And>k p. k < FILE_HASH_SIZE \<Longrightarrow> p \<in> set ((B(?k := ys @ zs)) k) \<Longrightarrow> hptr H p \<noteq> M"
    by (rule found_node [OF inv f]) (rule that)
  define H' where "H' = H\<lparr>links := list_del e (links H)\<rparr>"
  have h': "hptr H' = hptr H" "bucket H' = bucket H" by (simp_all add: H'_def bucket_def fun_eq_iff)
  have ok': "hash_ok H' (B(?k := ys @ zs))" unfolding H'_def by (rule hash_ok_del [OF hk _ B]) simp
  have i3: "ino (mmios w3 p) = ino (mmios w p)" if "p \<noteq> M" for p
    using relock_only_ino [OF checkpoint_mmio_relock [OF c], of p] release_mmio_mmios [OF l] that by auto
  have n: "delete_node E P t fd flags i e (H, w, k) = Inr (H', w3, k1)"
    using r M c l by (simp add: delete_node_def Let_def H'_def)
  have d': "dlist (links H') ?h (ys @ zs)" using hash_ok_dlist [OF ok', of ?k] by (simp add: h')
  then have s: "dseg (links H') (last (?h # ys)) zs ?h" "?h \<notin> set zs" by (auto simp: dlist_split)
  have "dlist (links H) ?h (ys @ e # zs)" using hk by (simp add: hash_ok_def flip: B)
  then have "nxt (links H e) = hd (zs @ [?h])" by (auto simp: dlist_def dseg_append dest: dseg_first)
  then have nx: "nxt (links H e) = nxt (links H' (last (?h # ys)))" using dseg_first [OF s(1)] by simp
  have o3: "ino (mmios w3 (hptr H' p)) \<noteq> i" if "p \<in> set ys \<union> set zs" for p
    using o [OF that] i3 [of "hptr H p"] nM [of ?k p] that by (simp add: h')
  then have "delete_loop E P t fd flags i ?h (nxt (links H e)) (nxt (links H' (nxt (links H e)))) (H', w3, k1) = Some (Inr (H', w3, k1))"
    using delete_loop_skip [OF s, of w3 i E P t fd flags k1] delete_loop_end unfolding nx by auto
  then have run: "delete_mmio_hash E P t fd flags i (H, w, k) = Inr (H', w3, k1)"
    using delete_loop_found [OF hk B, of w E P t fd flags k] o n by simp
  have same: "ino (mmios w3 (hptr H p)) = ino (mmios w (hptr H p))" if "l < FILE_HASH_SIZE" "p \<in> set ((B(?k := ys @ zs)) l)" for l p
    using i3 nM [OF that] by blast
  have "distinct (map (\<lambda>p. ino (mmios w3 (hptr H' p))) ((B(?k := ys @ zs)) l)) \<and>
      (\<forall>p \<in> set ((B(?k := ys @ zs)) l). get_hash_index (ino (mmios w3 (hptr H' p))) = l)" if l: "l < FILE_HASH_SIZE" for l
  proof -
    have "distinct (map (\<lambda>p. ino (mmios w (hptr H p))) (B l)) \<and> (\<forall>p \<in> set (B l). get_hash_index (ino (mmios w (hptr H p))) = l)"
      using inv l by (simp add: hash_inv_def)
    then have "distinct (map (\<lambda>p. ino (mmios w (hptr H p))) ((B(?k := ys @ zs)) l)) \<and>
        (\<forall>p \<in> set ((B(?k := ys @ zs)) l). get_hash_index (ino (mmios w (hptr H p))) = l)"
      using B by (cases "l = ?k") auto
    moreover have "map (\<lambda>p. ino (mmios w3 (hptr H' p))) ((B(?k := ys @ zs)) l) = map (\<lambda>p. ino (mmios w (hptr H p))) ((B(?k := ys @ zs)) l)"
      using same [OF l] unfolding h' by (intro map_cong refl)
    ultimately show ?thesis using same [OF l] unfolding h' by (simp only:) simp
  qed
  then have "hash_inv H' (mmios w3) (B(?k := ys @ zs))" using ok' unfolding hash_inv_def by blast
  moreover have "bucket_find H' (mmios w3) (B(?k := ys @ zs)) j = ((bucket_find H (mmios w) B)(i := None)) j" for j
  proof -
    have "find (\<lambda>p. ino (mmios w3 (hptr H p)) = j) ((B(?k := ys @ zs)) (get_hash_index j)) =
        find (\<lambda>p. ino (mmios w (hptr H p)) = j) ((B(?k := ys @ zs)) (get_hash_index j))"
      using same [of "get_hash_index j"] by (intro find_cong refl) simp
    then show ?thesis using o M B
      by (cases "j = i") (auto simp: bucket_find_def h' find_None_iff find_skip_elem)
  qed
  then have "table_find H' (mmios w3) = (table_find H (mmios w))(i := None)"
    by (simp add: table_find_eq [OF ok'] table_find_eq [OF hk] fun_eq_iff)
  ultimately show ?thesis using run by (auto simp: table_ok_def)
qed


subsection \<open>The empty table\<close>

lemma INIT_LIST_HEAD_eq: "INIT_LIST_HEAD l h = h(l := \<lparr>nxt = l, prv = l\<rparr>)"
  by (rule ext) (simp add: INIT_LIST_HEAD_def set_nxt_def set_prv_def)

lemma init_buckets:
  "fold (\<lambda>i. INIT_LIST_HEAD (bucket H i)) xs h p =
     (if p \<in> bucket H ` set xs then \<lparr>nxt = p, prv = p\<rparr> else h p)"
  by (induction xs arbitrary: h) (auto simp: INIT_LIST_HEAD_eq)

lemma init_file_hash_empty:
  assumes "hash_base H + FILE_HASH_SIZE * sizeof_hash_head \<le> next_hnode H"
  shows "table_ok (init_file_hash H) ms" and "table_find (init_file_hash H) ms i = None"
proof -
  have b: "bucket (init_file_hash H) i = bucket H i" for i by (simp add: bucket_def init_file_hash_def)
  have "bucket H i < next_hnode H" if "i < FILE_HASH_SIZE" for i
  proof -
    have "Suc i * sizeof_hash_head \<le> FILE_HASH_SIZE * sizeof_hash_head" using that by (intro mult_le_mono1) simp
    then show ?thesis using assms by (simp add: bucket_def sizeof_hash_head_def)
  qed
  moreover have "dlist (links (init_file_hash H)) (bucket H i) []" if "i < FILE_HASH_SIZE" for i
    using that init_buckets [of H "[0..<FILE_HASH_SIZE]" "links H" "bucket H i"]
    by (simp add: init_file_hash_def dlist_def)
  moreover have "next_hnode (init_file_hash H) = next_hnode H" by (simp add: init_file_hash_def)
  ultimately have ok: "hash_ok (init_file_hash H) (\<lambda>_. [])" by (simp add: hash_ok_def b)
  then show "table_ok (init_file_hash H) ms" by (auto simp: table_ok_def hash_inv_def intro!: exI [of _ "\<lambda>_. []"])
  show "table_find (init_file_hash H) ms i = None" by (simp add: table_find_eq [OF ok] bucket_find_def)
qed

definition ex_hash :: file_hash where
  "ex_hash = init_file_hash \<lparr>links = (\<lambda>_. \<lparr>nxt = 0, prv = 0\<rparr>), hptr = (\<lambda>_. 0), hash_base = 4096, next_hnode = 2 ^ 20\<rparr>"

lemma ex_hash_empty [simp]: "table_ok ex_hash ms" "table_find ex_hash ms i = None"
  using init_file_hash_empty [of "\<lparr>links = (\<lambda>_. \<lparr>nxt = 0, prv = 0\<rparr>), hptr = (\<lambda>_. 0), hash_base = 4096, next_hnode = 2 ^ 20\<rparr>"]
  by (simp_all add: ex_hash_def FILE_HASH_SIZE_def MAX_FD_def sizeof_hash_head_def)

subsection \<open>Properties\<close>

text \<open>
  C38: The table of open files is a map from inode numbers. \<^verbatim>\<open>put_mmio_hash\<close> and
  \<^verbatim>\<open>get_mmio_hash\<close> always end on a well-formed table; a put leaves exactly one file for its
  inode, the one already there or else the new one, disturbs no other inode, and the next
  get finds that file and counts one more reference.
\<close>

theorem put_then_get_mmio_hash:
  assumes "table_ok H (mmios w)" and "ino (mmios w M) = i"
  shows "\<exists>M' H' w' w''. put_mmio_hash i M H w = Inr (M', H', w') \<and> table_ok H' (mmios w') \<and>
    table_find H' (mmios w') i = Some M' \<and> (\<forall>j. j \<noteq> i \<longrightarrow> table_find H' (mmios w') j = table_find H (mmios w) j) \<and>
    get_mmio_hash i H' w' = Inr (Some M', w'') \<and> ref (mmios w'' M') = ref (mmios w' M') + 1"
proof -
  obtain M' H' w' where p: "put_mmio_hash i M H w = Inr (M', H', w')" "table_ok H' (mmios w')" "table_find H' (mmios w') i = Some M'"
    "\<forall>j. j \<noteq> i \<longrightarrow> table_find H' (mmios w') j = table_find H (mmios w) j"
    using fh.put_law [of "(H, w)" M i] assms by auto
  have "get_mmio_hash i H' w' = Inr (Some M', upd_mmio M' (\<lambda>m. m\<lparr>ref := ref m + 1\<rparr>) w')"
    using lookup_bucket_ok [OF p(2), of i] p(3) by (simp add: get_mmio_hash_def)
  then show ?thesis using p by auto
qed

theorem put_then_get_mmio_hash_witness:
  "\<exists>M' H' w' w''. put_mmio_hash 7 1 ex_hash (ex_world UNDO) = Inr (M', H', w') \<and>
     get_mmio_hash 7 H' w' = Inr (Some M', w'') \<and> table_find H' (mmios w') 8 = None"
proof -
  have "ino (mmios (ex_world UNDO) 1) = 7" by (simp add: ex_mmio_def)
  from put_then_get_mmio_hash [OF ex_hash_empty(1) this] show ?thesis by fastforce
qed


text \<open>
  C39: \<^verbatim>\<open>delete_mmio_hash\<close> always ends on a well-formed table. If the file of the inode has
  other references it loses one and nothing else changes. If this is the last one, the file
  is checkpointed and released, and the table has exactly this inode less, provided that the
  checkpoint and the release succeed. An inode that is not in the table changes nothing.
\<close>

theorem delete_mmio_hash_correct:
  assumes "table_ok H (mmios w)"
  shows "case table_find H (mmios w) i of
      None \<Rightarrow> delete_mmio_hash E P t fd flags i (H, w, k) = Inr (H, w, k)
    | Some M \<Rightarrow>
        (let w1 = upd_mmio M (\<lambda>m. m\<lparr>ref := ref m - 1\<rparr>) w in
         if 1 < ref (mmios w M) then delete_mmio_hash E P t fd flags i (H, w, k) = Inr (H, w1, k)
         else \<forall>w2 w3 k1. checkpoint_mmio E t M w1 = Inr w2 \<and> release_mmio P t M flags fd w2 k = Inr (w3, k1) \<longrightarrow>
           (\<exists>H'. delete_mmio_hash E P t fd flags i (H, w, k) = Inr (H', w3, k1) \<and> table_ok H' (mmios w3) \<and>
              table_find H' (mmios w3) = (table_find H (mmios w))(i := None)))"
proof (cases "table_find H (mmios w) i")
  case None
  obtain B where "hash_inv H (mmios w) B" using assms by (auto simp: table_ok_def)
  then show ?thesis using delete_absent [OF _ None] None by simp
next
  case (Some M)
  then show ?thesis
    using delete_shared_result [OF assms Some, of E P t fd flags k] delete_last_result [OF assms Some, of E t _ P flags fd k]
    by (simp add: Let_def not_less)
qed

theorem delete_mmio_hash_correct_witness:
  "\<exists>H' w'. put_mmio_hash 7 1 ex_hash (ex_world UNDO) = Inr (1, H', w') \<and> ref (mmios w' 1) = 2 \<and>
     delete_mmio_hash ex_env ex_posix 5 3 O_RDWR 7 (H', w', 0) = Inr (H', upd_mmio 1 (\<lambda>m. m\<lparr>ref := ref m - 1\<rparr>) w', 0)"
proof -
  let ?w = "ex_world UNDO" and ?w1 = "upd_mmio 1 (\<lambda>m. m\<lparr>ref := ref m + 1\<rparr>) (ex_world UNDO)"
  have "ino (mmios ?w 1) = 7" by (simp add: ex_mmio_def)
  then obtain H' where p: "put_mmio_hash 7 1 ex_hash ?w = Inr (1, H', ?w1)" and ok: "table_ok H' (mmios ?w)"
    and f: "table_find H' (mmios ?w) = (table_find ex_hash (mmios ?w))(7 := Some 1)"
    using put_mmio_hash_new [of ex_hash ?w 7 1] by auto
  have c: "ino (mmios ?w1 p) = ino (mmios ?w p)" for p by simp
  have ok1: "table_ok H' (mmios ?w1)" and f1: "table_find H' (mmios ?w1) 7 = Some 1"
    using table_cong [of "mmios ?w1" "mmios ?w", OF c] ok f by simp_all
  have r: "ref (mmios ?w1 1) = 2" by (simp add: ex_mmio_def)
  from delete_mmio_hash_correct [OF ok1, where i = 7 and E = ex_env and P = ex_posix and t = 5 and fd = 3 and flags = O_RDWR and k = 0] f1 r
  have "delete_mmio_hash ex_env ex_posix 5 3 O_RDWR 7 (H', ?w1, 0) = Inr (H', upd_mmio 1 (\<lambda>m. m\<lparr>ref := ref m - 1\<rparr>) ?w1, 0)"
    by (simp add: Let_def)
  then show ?thesis using p r by blast
qed

end
