(* ===== verification/LogFiles.thy ===== *)
theory LogFiles
  imports MmioAlloc
begin

text \<open>
  The log files on persistent memory and the initial pools of src/src/allocator.c: the
  directory of the process, the files mapped from it, the lists of free objects in them, and
  the removal of the directory when the process ends.
\<close>

subsection \<open>File names\<close>

text \<open>\<^verbatim>\<open>%lu\<close> and \<^verbatim>\<open>%d\<close> of a number that is not negative.\<close>

definition digit :: "nat \<Rightarrow> char" where
  "digit d = ''0123456789'' ! (d mod 10)"

fun decimal :: "nat \<Rightarrow> string" where
  "decimal n = (if n < 10 then [digit n] else decimal (n div 10) @ [digit n])"

declare decimal.simps [simp del]

definition DEFAULT_PMEM_PATH :: string where
  "DEFAULT_PMEM_PATH = ''/mnt/pmem''"

definition DIR_PATH :: "string \<Rightarrow> nat \<Rightarrow> string" where
  "DIR_PATH pmem_path pid = pmem_path @ ''/.libnvmmio-'' @ decimal pid"

text \<open>The size of \<^verbatim>\<open>logdir_path\<close>, which has to hold the terminating null character too.\<close>

definition sizeof_logdir_path :: nat where "sizeof_logdir_path = 128"

text \<open>
  \<^verbatim>\<open>get_env\<close> returns the directory it has stored in \<^verbatim>\<open>logdir_path\<close> and the result of \<^verbatim>\<open>mkdir\<close>.
  It reads the character before the string if \<^verbatim>\<open>PMEM_PATH\<close> is empty.
\<close>

definition get_env :: "'k posix \<Rightarrow> 'k \<Rightarrow> (string \<times> int \<times> 'k) res" where
  "get_env P k =
     (let pmem_path = (case sys_getenv P ''PMEM_PATH'' of Some p \<Rightarrow> p | None \<Rightarrow> DEFAULT_PMEM_PATH) in
      if pmem_path = [] then Inl (UB ''pmem_path[len - 1]'')
      else
        let pmem_path = (if last pmem_path = CHR ''/'' then butlast pmem_path else pmem_path);
            logdir_path = DIR_PATH pmem_path (sys_getpid P)
        in if sizeof_logdir_path \<le> length logdir_path then Inl (UB ''sprintf(logdir_path)'')
           else case sys_mkdir P logdir_path 448 k of (s, k) \<Rightarrow> Inr (logdir_path, s, k))"

definition log_filename :: "string \<Rightarrow> string \<Rightarrow> nat \<Rightarrow> string" where
  "log_filename logdir_path name number = logdir_path @ ''/'' @ name @ ''-'' @ decimal number @ ''.log''"

subsection \<open>Mapping log files\<close>

text \<open>A null \<^verbatim>\<open>path\<close> asks for anonymous memory; the mode 0644 is 420.\<close>

definition open_logfile :: "env \<Rightarrow> 'k posix \<Rightarrow> string option \<Rightarrow> nat \<Rightarrow> 'k \<Rightarrow> (int \<times> int \<times> 'k) res" where
  "open_logfile E P name len k =
     (case name of
        None \<Rightarrow> Inr (-1, MAP_ANONYMOUS OR MAP_SHARED, k)
      | Some f \<Rightarrow>
          (case sys_open P f (O_CREAT OR O_TRUNC OR O_RDWR) 420 k of
             (fd, k) \<Rightarrow>
               if fd = -1 then Inl (Exit ''open'')
               else if posix_fallocate E fd 0 len \<noteq> 0 then Inl (Exit ''posix_fallocate'')
               else Inr (fd, MAP_SHARED OR MAP_POPULATE, k)))"

definition mmap_logfile :: "env \<Rightarrow> 'k posix \<Rightarrow> string option \<Rightarrow> nat \<Rightarrow> memory \<Rightarrow> 'k \<Rightarrow> (addr \<times> memory \<times> 'k) res" where
  "mmap_logfile E P name len m k =
     bindE (open_logfile E P name len k) (\<lambda>(fd, flags, k).
       case sys_mmap P len (PROT_READ OR PROT_WRITE) flags fd m k of
         (None, m, k) \<Rightarrow> Inl (Exit ''mmap'')
       | (Some a, m, k) \<Rightarrow> Inr (a, m, k))"

definition alloc_pmem :: "env \<Rightarrow> 'k posix \<Rightarrow> string \<Rightarrow> string \<Rightarrow> nat \<Rightarrow> nat \<Rightarrow> memory \<Rightarrow> 'k \<Rightarrow> (addr \<times> memory \<times> 'k) res" where
  "alloc_pmem E P logdir_path name number len m k =
     mmap_logfile E P (Some (log_filename logdir_path name number)) len m k"

subsection \<open>The pools\<close>

text \<open>
  Object \<open>i\<close> of an area is at \<open>base + i * size\<close>; \<open>init_range\<close> applies the initialiser to each.
\<close>

definition sizeof_log_table :: nat where "sizeof_log_table = 4112"
definition sizeof_idx_entry :: nat where "sizeof_idx_entry = 48"
definition sizeof_mmio :: nat where "sizeof_mmio = 192"

definition in_array :: "addr \<Rightarrow> nat \<Rightarrow> nat \<Rightarrow> addr \<Rightarrow> bool" where
  "in_array base sz count p \<longleftrightarrow> base \<le> p \<and> (p - base) mod sz = 0 \<and> (p - base) div sz < count"

definition init_range :: "addr \<Rightarrow> nat \<Rightarrow> nat \<Rightarrow> ('a \<Rightarrow> 'a) \<Rightarrow> (addr \<Rightarrow> 'a) \<Rightarrow> addr \<Rightarrow> 'a" where
  "init_range base sz count f h = (\<lambda>p. if in_array base sz count p then f (h p) else h p)"

definition create_global_table_list :: "'k posix \<Rightarrow> world \<Rightarrow> 'k \<Rightarrow> (world \<times> 'k) res" where
  "create_global_table_list P w k =
     (let count = NR_ALLOC_TABLES - NR_ALLOC_TABLES mod NR_NODE_FILL in
      case sys_malloc P (sizeof_log_table * count) k of
        (None, k) \<Rightarrow> Inl (Exit ''malloc'')
      | (Some a, k) \<Rightarrow>
          bindE (create_global_list a sizeof_log_table count (empty_pool NR_NODE_FILL)) (\<lambda>pool.
            Inr (w\<lparr>table_pool := pool, tables := init_range a sizeof_log_table count init_table (tables w)\<rparr>, k)))"

definition log_list_count :: "log_size_t \<Rightarrow> nat" where
  "log_list_count i = (let count = LOG_FILE_SIZE div 2 ^ LOG_SHIFT i in count - count mod NR_NODE_FILL)"

definition create_log_pool :: "env \<Rightarrow> 'k posix \<Rightarrow> string \<Rightarrow> nat \<Rightarrow> world \<times> 'k \<Rightarrow> (world \<times> 'k) res" where
  "create_log_pool E P logdir_path i s =
     (case s of
        (w, k) \<Rightarrow>
          bindE (alloc_pmem E P logdir_path ''logs'' i (2 ^ LOG_SHIFT i * log_list_count i) (mem w) k) (\<lambda>(a, m, k).
          bindE (create_global_list a (2 ^ LOG_SHIFT i) (log_list_count i) (empty_pool NR_NODE_FILL)) (\<lambda>pool.
            Inr (w\<lparr>mem := m, log_pool := (log_pool w)(i := pool)\<rparr>, k))))"

definition create_global_log_list :: "env \<Rightarrow> 'k posix \<Rightarrow> string \<Rightarrow> world \<Rightarrow> 'k \<Rightarrow> (world \<times> 'k) res" where
  "create_global_log_list E P logdir_path w k = foldE (create_log_pool E P logdir_path) [0..<NR_LOG_SIZES] (w, k)"

definition idx_list_count :: nat where
  "idx_list_count =
     fold (\<lambda>i count. count + count div 2) [1..<NR_LOG_SIZES] (LOG_FILE_SIZE div 2 ^ PAGE_SHIFT)"

definition create_global_idx_list :: "env \<Rightarrow> 'k posix \<Rightarrow> string \<Rightarrow> world \<Rightarrow> 'k \<Rightarrow> (world \<times> 'k) res" where
  "create_global_idx_list E P logdir_path w k =
     bindE (alloc_pmem E P logdir_path ''index'' 0 (idx_list_count * sizeof_idx_entry) (mem w) k) (\<lambda>(a, m, k).
     bindE (create_global_list a sizeof_idx_entry idx_list_count (empty_pool NR_NODE_FILL)) (\<lambda>pool.
       Inr (w\<lparr>mem := m, idx_pool := pool, idxs := init_range a sizeof_idx_entry idx_list_count init_idx (idxs w)\<rparr>, k)))"

definition mmio_list_count :: nat where
  "mmio_list_count = NR_MMIOS - NR_MMIOS mod NR_MMIO_FILL"

definition create_global_mmio_list :: "env \<Rightarrow> 'k posix \<Rightarrow> string \<Rightarrow> world \<Rightarrow> 'k \<Rightarrow> (world \<times> 'k) res" where
  "create_global_mmio_list E P logdir_path w k =
     bindE (alloc_pmem E P logdir_path ''mmio'' 0 (sizeof_mmio * mmio_list_count) (mem w) k) (\<lambda>(a, m, k).
     bindE (create_global_list a sizeof_mmio mmio_list_count (empty_pool NR_MMIO_FILL)) (\<lambda>pool.
       Inr (w\<lparr>mem := m, mmio_pool := pool, mmios := init_range a sizeof_mmio mmio_list_count init_mmio (mmios w)\<rparr>, k)))"

text \<open>The result of \<^verbatim>\<open>get_env\<close>, that is of \<^verbatim>\<open>mkdir\<close>, is ignored.\<close>

definition init_allocator :: "env \<Rightarrow> 'k posix \<Rightarrow> world \<Rightarrow> 'k \<Rightarrow> (string \<times> world \<times> 'k) res" where
  "init_allocator E P w k =
     bindE (get_env P k) (\<lambda>(logdir_path, _, k).
     bindE (create_global_idx_list E P logdir_path w k) (\<lambda>(w, k).
     bindE (create_global_log_list E P logdir_path w k) (\<lambda>(w, k).
     bindE (create_global_mmio_list E P logdir_path w k) (\<lambda>(w, k).
     bindE (create_global_table_list P w k) (\<lambda>(w, k).
     Inr (logdir_path, w, k))))))"

subsection \<open>Removing the log files\<close>

text \<open>The loop over the directory ends when \<^verbatim>\<open>readdir\<close> does; \<open>None\<close> is a loop without an end.\<close>

partial_function (option) remove_loop :: "'k posix \<Rightarrow> string \<Rightarrow> nat \<Rightarrow> 'k \<Rightarrow> 'k res option" where
  [code]: "remove_loop P logdir_path dirptr k =
     (case sys_readdir P dirptr k of
        (None, k) \<Rightarrow> Some (Inr k)
      | (Some d_name, k) \<Rightarrow>
          if d_name = ''.'' \<or> d_name = ''..'' then remove_loop P logdir_path dirptr k
          else (case sys_unlink P (logdir_path @ ''/'' @ d_name) k of
                  (s, k) \<Rightarrow> if s \<noteq> 0 then Some (Inl (Exit ''unlink'')) else remove_loop P logdir_path dirptr k))"

definition remove_logs :: "'k posix \<Rightarrow> string \<Rightarrow> 'k \<Rightarrow> 'k res option" where
  "remove_logs P logdir_path k =
     (case sys_opendir P logdir_path k of
        (None, k) \<Rightarrow> Some (Inl (Exit ''opendir''))
      | (Some dirptr, k) \<Rightarrow>
          map_option (\<lambda>r. bindE r (\<lambda>k.
            case sys_closedir P dirptr k of
              (s, k) \<Rightarrow>
                if s \<noteq> 0 then Inl (Exit ''unlink'')
                else (case sys_rmdir P logdir_path k of (s, k) \<Rightarrow> if s \<noteq> 0 then Inl (Exit ''rmdir'') else Inr k)))
            (remove_loop P logdir_path dirptr k))"

end
