(* ===== verification/File.thy ===== *)
theory File
  imports FileHash LogFiles
begin

text \<open>
  The interposed file operations of src/src/file.c. \<open>fd_table\<close> has the \<^verbatim>\<open>file_t\<close> of each
  descriptor opened with \<^verbatim>\<open>O_ATOMIC\<close>; an index outside of the array is undefined. \<open>fops\<close> says
  which of the pointers in \<^verbatim>\<open>posix\<close> (a \<^verbatim>\<open>struct fops_struct\<close>) have been looked up with
  \<^verbatim>\<open>dlsym\<close>. The mutex of a file makes each operation on it one step.
\<close>

record file_t =
  fmmio :: ptr
  fflags :: int
  fmode :: int
  fpos :: int
  fino :: nat

record 'k lib =
  wld :: world
  fhash :: file_hash
  fd_table :: "nat \<Rightarrow> file_t option"
  fops :: "string \<Rightarrow> bool"
  initialized :: bool
  logdir :: string
  kern :: 'k

definition get_file :: "int \<Rightarrow> 'k lib \<Rightarrow> file_t option res" where
  "get_file fd L = (if 0 \<le> fd \<and> nat fd < MAX_FD then Inr (fd_table L (nat fd)) else Inl (UB ''fd_table index''))"

definition set_file :: "int \<Rightarrow> file_t option \<Rightarrow> 'k lib \<Rightarrow> 'k lib" where
  "set_file fd f L = L\<lparr>fd_table := (fd_table L)(nat fd := f)\<rparr>"

text \<open>
  \<^verbatim>\<open>if (posix.f == NULL) { posix.f = dlsym(RTLD_NEXT, name); if (posix.f == NULL) HANDLE_ERROR }\<close>.
\<close>

definition resolve :: "'k posix \<Rightarrow> string \<Rightarrow> string \<Rightarrow> string \<Rightarrow> 'k lib \<Rightarrow> 'k lib res" where
  "resolve P f symb msg L =
     (if fops L f then Inr L
      else if sys_dlsym P symb then Inr (L\<lparr>fops := (fops L)(f := True)\<rparr>)
      else Inl (Exit msg))"

subsection \<open>Opening\<close>

definition libnvmmio_open :: "env \<Rightarrow> 'k posix \<Rightarrow> tid \<Rightarrow> int \<Rightarrow> int \<Rightarrow> int \<Rightarrow> 'k lib \<Rightarrow> 'k lib res" where
  "libnvmmio_open E P t fd flags mode L =
     bindE (resolve P ''__fxstat'' ''__fxstat'' ''dlsym(__fxstat)'' L) (\<lambda>L.
       case sys_fxstat P fd (kern L) of ((s, st), k) \<Rightarrow>
         if s \<noteq> 0 then Inl (Exit ''fstat'')
         else
           let i = st_ino st; fsz = st_size st in
           bindE (get_mmio_hash i (fhash L) (wld L)) (\<lambda>(found, w).
           bindE (case found of
                    Some M \<Rightarrow> Inr (M, L\<lparr>wld := w, kern := k\<rparr>)
                  | None \<Rightarrow>
                      bindE (get_new_mmio E P t fd flags i fsz w k) (\<lambda>(M, w, k).
                      bindE (put_mmio_hash i M (fhash L) w) (\<lambda>(M, H, w).
                      Inr (M, L\<lparr>wld := w, fhash := H, kern := k\<rparr>)))) (\<lambda>(M, L).
             if 0 \<le> fd \<and> nat fd < MAX_FD
             then Inr (set_file fd (Some \<lparr>fmmio = M, fflags = flags, fmode = mode, fpos = 0, fino = i\<rparr>) L)
             else Inl (UB ''fd_table index''))))"

text \<open>The tail that \<^verbatim>\<open>open\<close> and \<^verbatim>\<open>open64\<close> share; \<open>arg\<close> is the variadic mode argument.\<close>

definition open_with :: "(string \<Rightarrow> int \<Rightarrow> int \<Rightarrow> 'k \<Rightarrow> int \<times> 'k) \<Rightarrow> env \<Rightarrow> 'k posix \<Rightarrow> tid \<Rightarrow> string \<Rightarrow> int \<Rightarrow> int \<Rightarrow> 'k lib \<Rightarrow> (int \<times> 'k lib) res" where
  "open_with call E P t pathname flags arg L =
     (let mode = (if flag_set flags O_CREAT then arg else 0) in
      case call pathname flags mode (kern L) of (fd, k) \<Rightarrow>
        let L = L\<lparr>kern := k\<rparr> in
        if flag_set flags O_ATOMIC
        then bindE (libnvmmio_open E P t fd flags mode L) (\<lambda>L. Inr (fd, L))
        else Inr (fd, L))"

definition open_file :: "env \<Rightarrow> 'k posix \<Rightarrow> tid \<Rightarrow> string \<Rightarrow> int \<Rightarrow> int \<Rightarrow> 'k lib \<Rightarrow> (int \<times> 'k lib) res" where
  "open_file E P t pathname flags arg L =
     bindE (resolve P ''open'' ''open'' ''dlsym(open)'' L) (open_with (sys_open P) E P t pathname flags arg)"

definition open64 :: "env \<Rightarrow> 'k posix \<Rightarrow> tid \<Rightarrow> string \<Rightarrow> int \<Rightarrow> int \<Rightarrow> 'k lib \<Rightarrow> (int \<times> 'k lib) res" where
  "open64 E P t pathname flags arg L =
     bindE (resolve P ''open64'' ''open64'' ''dlsym(open64)'' L) (open_with (sys_open64 P) E P t pathname flags arg)"

subsection \<open>Reading and writing\<close>

text \<open>
  The result of \<^verbatim>\<open>mmio_read\<close> and \<^verbatim>\<open>mmio_write\<close> is stored in an \<^verbatim>\<open>int\<close>. A negative position
  makes the address of the request point before the mapping.
\<close>

definition passed :: "(int \<times> memory \<times> 'k) \<Rightarrow> 'k lib \<Rightarrow> (int \<times> 'k lib) res" where
  "passed r L = (case r of (s, mm, k) \<Rightarrow> Inr (s, L\<lparr>wld := (wld L)\<lparr>mem := mm\<rparr>, kern := k\<rparr>))"

definition moved :: "int \<Rightarrow> file_t \<Rightarrow> nat \<Rightarrow> world \<Rightarrow> 'k lib \<Rightarrow> (int \<times> 'k lib) res" where
  "moved fd file n w L =
     (let ret = c_int (int n)
      in Inr (ret, set_file fd (Some (file\<lparr>fpos := fpos file + ret\<rparr>)) (L\<lparr>wld := w\<rparr>)))"

definition read_file :: "'k posix \<Rightarrow> tid \<Rightarrow> int \<Rightarrow> addr \<Rightarrow> nat \<Rightarrow> 'k lib \<Rightarrow> (int \<times> 'k lib) res" where
  "read_file P t fd buf len L =
     bindE (get_file fd L) (\<lambda>f.
       case f of
         Some file \<Rightarrow>
           if fpos file < 0 then Inl (UB ''negative offset'')
           else bindE (mmio_read t (fmmio file) (nat (fpos file)) buf len (wld L)) (\<lambda>(n, w). moved fd file n w L)
       | None \<Rightarrow>
           bindE (resolve P ''read'' ''read'' ''dlsym(read)'' L) (\<lambda>L.
             passed (sys_read P fd buf len (mem (wld L)) (kern L)) L))"

definition write_file :: "env \<Rightarrow> 'k posix \<Rightarrow> tid \<Rightarrow> int \<Rightarrow> addr \<Rightarrow> nat \<Rightarrow> 'k lib \<Rightarrow> (int \<times> 'k lib) res" where
  "write_file E P t fd buf len L =
     bindE (get_file fd L) (\<lambda>f.
       case f of
         Some file \<Rightarrow>
           if fpos file < 0 then Inl (UB ''negative offset'')
           else bindE (mmio_write E t (fmmio file) fd (nat (fpos file)) buf len (wld L)) (\<lambda>(n, w). moved fd file n w L)
       | None \<Rightarrow>
           bindE (resolve P ''write'' ''write'' ''dlsym(write)'' L) (\<lambda>L.
             passed (sys_write P fd buf len (mem (wld L)) (kern L)) L))"

definition pread :: "'k posix \<Rightarrow> int \<Rightarrow> addr \<Rightarrow> nat \<Rightarrow> int \<Rightarrow> 'k lib \<Rightarrow> (int \<times> 'k lib) res" where
  "pread P fd buf count off L =
     bindE (resolve P ''pread'' ''pread'' ''dlsym(pread)'' L) (\<lambda>L.
       passed (sys_pread P fd buf count off (mem (wld L)) (kern L)) L)"

definition pwrite :: "'k posix \<Rightarrow> int \<Rightarrow> addr \<Rightarrow> nat \<Rightarrow> int \<Rightarrow> 'k lib \<Rightarrow> (int \<times> 'k lib) res" where
  "pwrite P fd buf count off L =
     bindE (resolve P ''pwrite'' ''pwrite'' ''dlsym(pwrite)'' L) (\<lambda>L.
       passed (sys_pwrite P fd buf count off (mem (wld L)) (kern L)) L)"

subsection \<open>Synchronising and seeking\<close>

definition in_kernel :: "('k \<Rightarrow> 'r \<times> 'k) \<Rightarrow> 'k lib \<Rightarrow> ('r \<times> 'k lib) res" where
  "in_kernel call L = (case call (kern L) of (r, k) \<Rightarrow> Inr (r, L\<lparr>kern := k\<rparr>))"

definition fsync :: "env \<Rightarrow> 'k posix \<Rightarrow> tid \<Rightarrow> int \<Rightarrow> 'k lib \<Rightarrow> (int \<times> 'k lib) res" where
  "fsync E P t fd L =
     bindE (get_file fd L) (\<lambda>f.
       case f of
         Some file \<Rightarrow> bindE (commit_mmio E t (fmmio file) (wld L)) (\<lambda>w. Inr (0, L\<lparr>wld := w\<rparr>))
       | None \<Rightarrow> bindE (resolve P ''fsync'' ''fsync'' ''dlsym(fsync)'' L) (in_kernel (sys_fsync P fd)))"

text \<open>Signed overflow of an \<^verbatim>\<open>off_t\<close> is undefined.\<close>

definition off_t_add :: "int \<Rightarrow> int \<Rightarrow> int res" where
  "off_t_add a b = (if - (2 ^ 63) \<le> a + b \<and> a + b < 2 ^ 63 then Inr (a + b) else Inl (UB ''signed overflow''))"

definition seek_error :: string where
  "seek_error = ''The requested offset exceeds the file size: filesize=%lu, offset=%lu''"

definition seek_target :: "int \<Rightarrow> int \<Rightarrow> int \<Rightarrow> int \<Rightarrow> int res" where
  "seek_target pos fsz offset whence =
     (if whence = SEEK_SET then
        if fsz < offset then Inl (Exit seek_error) else Inr offset
      else if whence = SEEK_CUR then
        bindE (off_t_add pos offset) (\<lambda>p. if fsz < p then Inl (Exit seek_error) else Inr p)
      else if whence = SEEK_END then
        bindE (off_t_add fsz offset) (\<lambda>p. if fsz < p then Inl (Exit seek_error) else Inr p)
      else Inl (Exit ''wrong whence''))"

definition lseek :: "'k posix \<Rightarrow> int \<Rightarrow> int \<Rightarrow> int \<Rightarrow> 'k lib \<Rightarrow> (int \<times> 'k lib) res" where
  "lseek P fd offset whence L =
     bindE (get_file fd L) (\<lambda>f.
       case f of
         Some file \<Rightarrow>
           bindE (seek_target (fpos file) (fsize (mmios (wld L) (fmmio file))) offset whence) (\<lambda>p.
             Inr (p, set_file fd (Some (file\<lparr>fpos := p\<rparr>)) L))
       | None \<Rightarrow> bindE (resolve P ''lseek'' ''lseek'' ''dlsym(lseek)'' L) (in_kernel (sys_lseek P fd offset whence)))"

definition lseek64 :: "'k posix \<Rightarrow> int \<Rightarrow> int \<Rightarrow> int \<Rightarrow> 'k lib \<Rightarrow> (int \<times> 'k lib) res" where
  "lseek64 P fd offset whence L = lseek P fd offset whence L"

subsection \<open>Operations that are only passed on\<close>

definition truncate_path :: "'k posix \<Rightarrow> string \<Rightarrow> int \<Rightarrow> 'k lib \<Rightarrow> (int \<times> 'k lib) res" where
  "truncate_path P name len L =
     bindE (resolve P ''truncate'' ''truncate'' ''dlsym(truncate)'' L) (in_kernel (sys_truncate P name len))"

definition ftruncate :: "'k posix \<Rightarrow> int \<Rightarrow> int \<Rightarrow> 'k lib \<Rightarrow> (int \<times> 'k lib) res" where
  "ftruncate P fd len L =
     bindE (resolve P ''ftruncate'' ''ftruncate'' ''dlsym(ftruncate)'' L) (in_kernel (sys_ftruncate P fd len))"

definition stat :: "'k posix \<Rightarrow> string \<Rightarrow> 'k lib \<Rightarrow> ((int \<times> stat_t) \<times> 'k lib) res" where
  "stat P pathname L = bindE (resolve P ''stat'' ''__xstat64'' ''dlsym(stat)'' L) (in_kernel (sys_stat P pathname))"

definition fstat :: "'k posix \<Rightarrow> int \<Rightarrow> 'k lib \<Rightarrow> ((int \<times> stat_t) \<times> 'k lib) res" where
  "fstat P fd L = bindE (resolve P ''__fxstat'' ''__fxstat'' ''dlsym(__fxstat)'' L) (in_kernel (sys_fxstat P fd))"

subsection \<open>Closing\<close>

definition close :: "env \<Rightarrow> 'k posix \<Rightarrow> tid \<Rightarrow> int \<Rightarrow> 'k lib \<Rightarrow> (int \<times> 'k lib) res" where
  "close E P t fd L =
     bindE (get_file fd L) (\<lambda>f.
     bindE (case f of
              Some file \<Rightarrow>
                bindE (delete_mmio_hash E P t fd (fflags file) (fino file) (fhash L, wld L, kern L)) (\<lambda>(H, w, k).
                  Inr (set_file fd None (L\<lparr>fhash := H, wld := w, kern := k\<rparr>)))
            | None \<Rightarrow> Inr L) (\<lambda>L.
     bindE (resolve P ''close'' ''close'' ''dlsym(close)'' L) (in_kernel (sys_close P fd))))"

subsection \<open>Loading the library\<close>

text \<open>\<^verbatim>\<open>init_fops\<close>: each pointer with the symbol it is looked up by and the message on failure.\<close>

definition fops_table :: "(string \<times> string \<times> string) list" where
  "fops_table =
     [(''open'', ''open'', ''dlsym(open)''), (''open64'', ''open64'', ''dlsym(open64)''),
      (''read'', ''read'', ''dlsym(read)''), (''write'', ''write'', ''dlsym(write)''),
      (''pread'', ''pread'', ''dlsym(pread)''), (''pwrite'', ''pwrite'', ''dlsym(pwrite)''),
      (''fsync'', ''fsync'', ''dlsym(fsync)''), (''lseek'', ''lseek'', ''dlsym(lseek)''),
      (''truncate'', ''truncate'', ''dlsym(truncate)''), (''ftruncate'', ''ftruncate'', ''dlsym(ftruncate)''),
      (''stat'', ''__xstat64'', ''dlsym(stat)''), (''__fxstat'', ''__fxstat'', ''dlsym(__fxstat)''),
      (''close'', ''close'', ''dlsym(close)'')]"

definition init_fops :: "'k posix \<Rightarrow> 'k lib \<Rightarrow> 'k lib res" where
  "init_fops P L =
     foldE (\<lambda>(f, symb, msg) L. if sys_dlsym P symb then Inr (L\<lparr>fops := (fops L)(f := True)\<rparr>) else Inl (Exit msg)) fops_table L"

definition init_libnvmmio :: "env \<Rightarrow> 'k posix \<Rightarrow> 'k lib \<Rightarrow> 'k lib res" where
  "init_libnvmmio E P L =
     bindE (init_fops P L) (\<lambda>L.
     bindE (init_allocator E P (wld L) (kern L)) (\<lambda>(dir, w, k).
     Inr (L\<lparr>wld := w, kern := k, logdir := dir, fhash := init_file_hash (fhash L)\<rparr>)))"

definition load_libnvmmio :: "env \<Rightarrow> 'k posix \<Rightarrow> 'k lib \<Rightarrow> 'k lib res" where
  "load_libnvmmio E P L =
     (if \<not> initialized L then init_libnvmmio E P (L\<lparr>initialized := True\<rparr>) else Inr L)"

end
