(* ===== verification/LogEntry.thy ===== *)
theory LogEntry
  imports Example
begin

text \<open>
  What one round of the write loop and of the redo read loop do to one log entry. The entry
  covers a block of the file at address \<open>blk\<close>; offsets within the block are compared with the
  recorded range of the log. The current contents of a block under redo logging are the file
  bytes overlaid with the recorded range of the log (\<open>redo_view\<close>).
\<close>

definition in_range :: "nat \<Rightarrow> nat \<Rightarrow> nat \<Rightarrow> bool" where
  "in_range off n i \<longleftrightarrow> off \<le> i \<and> i < off + n"

definition redo_view :: "(addr \<Rightarrow> byte) \<Rightarrow> idx_entry \<Rightarrow> addr \<Rightarrow> nat \<Rightarrow> byte" where
  "redo_view b e blk i = (if in_range (e_offset e) (e_len e) i then b (log e + i) else b (blk + i))"

text \<open>The least range that covers the recorded one and the new one.\<close>

definition hull_off :: "idx_entry \<Rightarrow> nat \<Rightarrow> nat" where
  "hull_off e lo = min (e_offset e) lo"

definition hull_len :: "idx_entry \<Rightarrow> nat \<Rightarrow> nat \<Rightarrow> nat" where
  "hull_len e lo n = max (e_offset e + e_len e) (lo + n) - hull_off e lo"

text \<open>
  The entry \<open>entry\<close> logs a block at \<open>blk\<close> of which \<open>K\<close> bytes are mapped: its log space is
  mapped and apart from the block, and the recorded range lies within the mapped part.
\<close>

definition entry_ok :: "world \<Rightarrow> ptr \<Rightarrow> addr \<Rightarrow> nat \<Rightarrow> bool" where
  "entry_ok w entry blk K \<longleftrightarrow>
     (let e = idxs w entry; S = LOG_SIZE (log_size e) in
      log_size e < NR_LOG_SIZES \<and> K \<le> S \<and> e_offset e + e_len e \<le> K \<and>
      accessible (mem w) (log e) S \<and> accessible (mem w) blk K \<and>
      disjoint_ranges (log e) S blk K)"

lemma entry_ok_less:
  assumes "entry_ok w entry blk K"
  shows "K \<le> 2 ^ 21" and "LOG_SIZE (log_size (idxs w entry)) \<le> 2 ^ 21"
  using assms LOG_SIZE_le [of "log_size (idxs w entry)"] by (auto simp: entry_ok_def Let_def)

lemma check_log_cases:
  "check_log a b c d = 1 \<longleftrightarrow> a \<le> c \<and> b < c"
  "check_log a b c d = 2 \<longleftrightarrow> a \<le> c \<and> c \<le> b \<and> b < d"
  "check_log a b c d = 3 \<longleftrightarrow> a \<le> c \<and> c \<le> b \<and> d \<le> b"
  "check_log a b c d = 4 \<longleftrightarrow> c < a \<and> b \<le> d"
  "check_log a b c d = 5 \<longleftrightarrow> c < a \<and> d < b \<and> a \<le> d"
  "check_log a b c d = 6 \<longleftrightarrow> c < a \<and> d < b \<and> d < a"
  by (auto simp: check_log_def)

lemma check_log_range: "check_log a b c d \<in> {1, 2, 3, 4, 5, 6}"
  by (simp add: check_log_def)

text \<open>
  What merging does: the recorded range becomes the hull, and the bytes of the log that
  belong to neither range are filled from the file. Nothing else changes.
\<close>

definition same_but_range :: "idx_entry \<Rightarrow> idx_entry \<Rightarrow> bool" where
  "same_but_range e e' \<longleftrightarrow> e_policy e' = e_policy e \<and> e_epoch e' = e_epoch e \<and>
     log e' = log e \<and> dst e' = dst e \<and> rwlockp e' = rwlockp e \<and> log_size e' = log_size e"

definition gap :: "idx_entry \<Rightarrow> nat \<Rightarrow> nat \<Rightarrow> nat \<Rightarrow> bool" where
  "gap e lo n i \<longleftrightarrow> in_range (hull_off e lo) (hull_len e lo n) i \<and> \<not> in_range lo n i \<and>
     \<not> in_range (e_offset e) (e_len e) i"

definition only_entry :: "ptr \<Rightarrow> world \<Rightarrow> world \<Rightarrow> bool" where
  "only_entry entry w w' \<longleftrightarrow>
     regions (mem w') = regions (mem w) \<and> (\<forall>p. p \<noteq> entry \<longrightarrow> idxs w' p = idxs w p) \<and>
     tables w' = tables w \<and> mmios w' = mmios w \<and> table_pool w' = table_pool w \<and>
     idx_pool w' = idx_pool w \<and> log_pool w' = log_pool w \<and> mmio_pool w' = mmio_pool w \<and> bravo w' = bravo w"

lemma only_entry_refl: "only_entry entry w w"
  by (simp add: only_entry_def)

lemma only_entry_trans: "only_entry entry w w1 \<Longrightarrow> only_entry entry w1 w2 \<Longrightarrow> only_entry entry w w2"
  by (simp add: only_entry_def)

lemma only_entry_accessible: "only_entry entry w w' \<Longrightarrow> accessible (mem w') a n = accessible (mem w) a n"
  by (simp add: only_entry_def accessible_def)

definition merged :: "world \<Rightarrow> ptr \<Rightarrow> addr \<Rightarrow> nat \<Rightarrow> nat \<Rightarrow> world \<Rightarrow> bool" where
  "merged w entry blk lo n w' \<longleftrightarrow>
     (let e = idxs w entry; e' = idxs w' entry; b = bytes (mem w); b' = bytes (mem w') in
      only_entry entry w w' \<and>
      (\<forall>i. b' (log e + i) = b (if gap e lo n i then blk + i else log e + i)) \<and>
      (\<forall>a < log e. b' a = b a) \<and>
      e_offset e' = hull_off e lo \<and> e_len e' = hull_len e lo n \<and> same_but_range e e')"

lemmas range_defs = in_range_def hull_off_def hull_len_def gap_def same_but_range_def

lemma merged_upd_entry:
  assumes "b0 = bytes (mem w)"
    and "e_offset (f (idxs w entry)) = hull_off (idxs w entry) lo"
    and "e_len (f (idxs w entry)) = hull_len (idxs w entry) lo n"
    and "same_but_range (idxs w entry) (f (idxs w entry))"
    and "\<And>i. b (log (idxs w entry) + i) = b0 (if gap (idxs w entry) lo n i then blk + i else log (idxs w entry) + i)"
    and "\<And>a. a < log (idxs w entry) \<Longrightarrow> b a = b0 a"
  shows "merged w entry blk lo n (upd_entry entry f (w\<lparr>mem := (mem w)\<lparr>bytes := b\<rparr>, ptrace := tr\<rparr>))"
  using assms by (simp add: merged_def Let_def only_entry_def upd_entry_def)

lemma merged_nogap:
  assumes "e_offset (f (idxs w entry)) = hull_off (idxs w entry) lo"
    and "e_len (f (idxs w entry)) = hull_len (idxs w entry) lo n"
    and "same_but_range (idxs w entry) (f (idxs w entry))"
    and "\<And>i. \<not> gap (idxs w entry) lo n i"
  shows "merged w entry blk lo n (upd_entry entry f w)"
  using merged_upd_entry [of "bytes (mem w)" w f entry lo n "bytes (mem w)" blk "ptrace w"] assms by simp

lemma merge_log_eq:
  fixes w entry defines "e \<equiv> idxs w entry" and "p \<equiv> e_offset (idxs w entry)"
    and "q \<equiv> e_offset (idxs w entry) + e_len (idxs w entry)"
  shows "merge_log E entry (blk + lo) lo n w =
    (if lo + n < p then
       bindE (NTSTORE E (log e + (lo + n)) (blk + (lo + n)) (p - (lo + n)) w)
         (\<lambda>w. Inr (upd_entry entry (\<lambda>e. set_len (q - lo) (set_offset lo e)) w))
     else if lo \<le> p \<and> lo + n < q then
       Inr (upd_entry entry (\<lambda>e. set_len (q - lo) (set_offset lo e)) w)
     else if lo \<le> p then Inr (upd_entry entry (\<lambda>e. set_len n (set_offset lo e)) w)
     else if lo + n \<le> q then Inr w
     else if lo \<le> q then Inr (upd_entry entry (set_len (lo + n - p)) w)
     else
       bindE (NTSTORE E (log e + q) (blk + q) (lo - q) w)
         (\<lambda>w. Inr (upd_entry entry (set_len (lo + n - p)) w)))"
proof -
  have q: "p + e_len e = q" by (simp add: p_def q_def e_def)
  have c: "check_log (log e + lo) (log e + lo + n) (log e + p) (log e + p + e_len e) =
      (if lo \<le> p then if p \<le> lo + n then if lo + n < q then 2 else 3 else 1
       else if lo + n \<le> q then 4 else if q < lo then 6 else 5)"
    unfolding q [symmetric] by (auto simp: check_log_def)
  have p: "e_offset e = p" by (simp add: p_def e_def)
  consider "lo + n < p" | "p \<le> lo + n" "lo \<le> p" | "p < lo" "lo + n \<le> q"
    | "p < lo" "q < lo + n" "lo \<le> q" | "p < lo" "q < lo" by linarith
  then show ?thesis
    unfolding merge_log_def Let_def e_def [symmetric] p c
    by cases (simp_all add: add.assoc q)
qed

lemma entry_ok_accessible:
  assumes "entry_ok w entry blk K" and "i + k \<le> K"
  shows "accessible (mem w) (log (idxs w entry) + i) k" and "accessible (mem w) (blk + i) k"
  using assms accessible_sub [of "mem w" "log (idxs w entry)" "LOG_SIZE (log_size (idxs w entry))" "log (idxs w entry) + i" k]
    accessible_sub [of "mem w" blk K "blk + i" k] by (simp_all add: entry_ok_def Let_def)

text \<open>With a gap between the two ranges, on either side, it is copied from the file.\<close>

lemma merge_log_gap:
  assumes E: "pmem_copies E" and ok: "entry_ok w entry blk K" and n: "0 < n" "lo + n \<le> K"
  defines "e \<equiv> idxs w entry"
  assumes g: "lo + n < e_offset e \<or> e_offset e + e_len e < lo"
  shows "\<exists>w'. merge_log E entry (blk + lo) lo n w = Inr w' \<and> merged w entry blk lo n w'"
proof -
  have K: "K \<le> 2 ^ 21" "e_offset e + e_len e \<le> K"
    using ok entry_ok_less [OF ok] by (simp_all add: entry_ok_def Let_def e_def)
  define x k f where "x = (if lo + n < e_offset e then lo + n else e_offset e + e_len e)"
    and "k = (if lo + n < e_offset e then e_offset e - (lo + n) else lo - (e_offset e + e_len e))"
    and "f = (if lo + n < e_offset e then \<lambda>e'. set_len (e_offset e + e_len e - lo) (set_offset lo e')
              else set_len (lo + n - e_offset e))"
  let ?w = "w\<lparr>mem := (mem w)\<lparr>bytes := mcpy (log e + x) (blk + x) k (bytes (mem w))\<rparr>,
      ptrace := ptrace w @ [PStore (log e + x) k]\<rparr>"
  have xk: "x + k \<le> K" using g n K by (auto simp: x_def k_def)
  note acc = entry_ok_accessible [OF ok xk, folded e_def]
  have "merge_log E entry (blk + lo) lo n w = Inr (upd_entry entry f ?w)"
  proof (cases "lo + n < e_offset e")
    case True
    then show ?thesis using acc by (simp add: merge_log_eq NTSTORE_Inr [OF E] e_def [symmetric] x_def k_def f_def)
  next
    case False
    then show ?thesis using acc g n
      by (simp add: merge_log_eq NTSTORE_Inr [OF E] e_def [symmetric] x_def k_def f_def)
  qed
  moreover have "merged w entry blk lo n (upd_entry entry f ?w)"
    by (rule merged_upd_entry [OF refl])
      (use g n K in \<open>auto simp: e_def [symmetric] range_defs mcpy_def x_def k_def f_def\<close>)
  ultimately show ?thesis by blast
qed

lemma merge_log_nogap:
  assumes ok: "entry_ok w entry blk K" and n: "0 < n" "lo + n \<le> K"
  defines "e \<equiv> idxs w entry"
  assumes g: "\<not> (lo + n < e_offset e \<or> e_offset e + e_len e < lo)"
  shows "\<exists>w'. merge_log E entry (blk + lo) lo n w = Inr w' \<and> merged w entry blk lo n w'"
proof -
  have K: "K \<le> 2 ^ 21" "e_offset e + e_len e \<le> K"
    using ok entry_ok_less [OF ok] by (simp_all add: entry_ok_def Let_def e_def)
  let ?p = "e_offset e" and ?q = "e_offset e + e_len e"
  define f where "f = (if lo \<le> ?p \<and> lo + n < ?q then \<lambda>e'. set_len (?q - lo) (set_offset lo e')
     else if lo \<le> ?p then \<lambda>e'. set_len n (set_offset lo e')
     else if lo + n \<le> ?q then \<lambda>e'. e' else set_len (lo + n - ?p))"
  have "merge_log E entry (blk + lo) lo n w = Inr (upd_entry entry f w)"
    using g by (auto simp: merge_log_eq e_def f_def upd_entry_def)
  moreover have "merged w entry blk lo n (upd_entry entry f w)"
    by (rule merged_nogap)
      (use g n K in \<open>auto simp: e_def [symmetric] range_defs f_def\<close>)
  ultimately show ?thesis by blast
qed

lemma merge_log_merged:
  assumes "pmem_copies E" and "entry_ok w entry blk K" and "0 < n" and "lo + n \<le> K"
  shows "\<exists>w'. merge_log E entry (blk + lo) lo n w = Inr w' \<and> merged w entry blk lo n w'"
  using merge_log_gap [OF assms] merge_log_nogap [OF assms(2-4)] by blast

subsection \<open>One round of the write loop\<close>

text \<open>
  What \<open>log_block\<close> does when the request lies within the block: \<open>from\<close> is where the logged
  bytes come from (the file under undo logging, the caller's buffer under redo logging).
\<close>

definition replaces :: "idx_entry \<Rightarrow> nat \<Rightarrow> bool" where
  "replaces e n \<longleftrightarrow> \<not> (0 < e_len e \<and> n \<noteq> LOG_SIZE (log_size e))"

definition logged_entry :: "policy \<Rightarrow> addr \<Rightarrow> nat \<Rightarrow> nat \<Rightarrow> idx_entry \<Rightarrow> idx_entry \<Rightarrow> bool" where
  "logged_entry pol blk lo n e e' \<longleftrightarrow>
     (if replaces e n
      then e_offset e' = lo \<and> e_len e' = n \<and> e_policy e' = pol \<and> dst e' = (blk + lo) AND LOG_MASK (log_size e)
      else e_offset e' = hull_off e lo \<and> e_len e' = hull_len e lo n \<and> e_policy e' = e_policy e \<and> dst e' = dst e) \<and>
     e_epoch e' = e_epoch e \<and> log e' = log e \<and> rwlockp e' = rwlockp e \<and> log_size e' = log_size e"

definition logged_bytes :: "(addr \<Rightarrow> byte) \<Rightarrow> addr \<Rightarrow> addr \<Rightarrow> nat \<Rightarrow> nat \<Rightarrow> idx_entry \<Rightarrow> (addr \<Rightarrow> byte) \<Rightarrow> bool" where
  "logged_bytes b from blk lo n e b' \<longleftrightarrow>
     (\<forall>i. b' (log e + i) =
        (if in_range lo n i then b (from + (i - lo))
         else if \<not> replaces e n \<and> gap e lo n i then b (blk + i) else b (log e + i))) \<and>
     (\<forall>a < log e. b' a = b a)"

definition logged :: "world \<Rightarrow> policy \<Rightarrow> ptr \<Rightarrow> addr \<Rightarrow> addr \<Rightarrow> nat \<Rightarrow> nat \<Rightarrow> world \<Rightarrow> bool" where
  "logged w pol entry from blk lo n w' \<longleftrightarrow>
     only_entry entry w w' \<and>
     logged_bytes (bytes (mem w)) from blk lo n (idxs w entry) (bytes (mem w')) \<and>
     logged_entry pol blk lo n (idxs w entry) (idxs w' entry)"

definition stored :: "addr \<Rightarrow> addr \<Rightarrow> nat \<Rightarrow> world \<Rightarrow> world" where
  "stored d s n w = w\<lparr>mem := (mem w)\<lparr>bytes := mcpy d s n (bytes (mem w))\<rparr>, ptrace := ptrace w @ [PStore d n]\<rparr>"

lemma stored_sel [simp]: "idxs (stored d s n w) = idxs w" "mmios (stored d s n w) = mmios w"
  "accessible (mem (stored d s n w)) a k = accessible (mem w) a k"
  by (simp_all add: stored_def)

lemma entry_ok_stored [simp]: "entry_ok (stored d s n w) entry blk K = entry_ok w entry blk K"
  by (simp add: entry_ok_def Let_def)

lemma hull_le:
  "entry_ok w entry blk K \<Longrightarrow> lo + n \<le> K \<Longrightarrow> hull_off (idxs w entry) lo + hull_len (idxs w entry) lo n \<le> K"
  by (auto simp: entry_ok_def Let_def hull_off_def hull_len_def)

lemma mcpy_at: "mcpy (l + lo) s n b (l + i) = (if in_range lo n i then b (s + (i - lo)) else b (l + i))"
  by (auto simp: mcpy_def in_range_def)

lemma mcpy_below: "a < l \<Longrightarrow> mcpy (l + lo) s n b a = b a"
  by (simp add: mcpy_def)

lemma logged_merge:
  assumes ok: "entry_ok w entry blk K" and n: "0 < n" "lo + n \<le> K"
    and old: "0 < e_len (idxs w entry)" "n \<noteq> LOG_SIZE (log_size (idxs w entry))"
    and m: "merged (stored (log (idxs w entry) + lo) from n w) entry blk lo n w2"
  shows "logged w pol entry from blk lo n (FLUSH entry w2)"
proof -
  define e where "e = idxs w entry"
  have w2: "only_entry entry (stored (log e + lo) from n w) w2"
    and b: "\<And>i. bytes (mem w2) (log e + i) =
        mcpy (log e + lo) from n (bytes (mem w)) (if gap e lo n i then blk + i else log e + i)"
      "\<And>a. a < log e \<Longrightarrow> bytes (mem w2) a = mcpy (log e + lo) from n (bytes (mem w)) a"
    and e': "e_offset (idxs w2 entry) = hull_off e lo" "e_len (idxs w2 entry) = hull_len e lo n"
      "same_but_range e (idxs w2 entry)"
    using m unfolding merged_def Let_def e_def by (auto simp: stored_def)
  have r: "\<not> replaces e n" using old by (simp add: replaces_def e_def)
  have gapK: "gap e lo n i \<Longrightarrow> i < K \<and> \<not> in_range lo n i" for i
    using hull_le [OF ok n(2)] by (auto simp: gap_def in_range_def e_def)
  have dis: "blk + i < log e \<or> log e + LOG_SIZE (log_size e) \<le> blk + i" "lo + n \<le> LOG_SIZE (log_size e)" if "i < K" for i
    using ok that n by (auto simp: entry_ok_def Let_def e_def disjoint_ranges_def)
  have "mcpy (log e + lo) from n (bytes (mem w)) (blk + i) = bytes (mem w) (blk + i)" if "gap e lo n i" for i
    using dis [of i] gapK [OF that] by (intro mcpy_out) linarith
  then have "logged_bytes (bytes (mem w)) from blk lo n e (bytes (mem w2))"
    using b r gapK by (simp add: logged_bytes_def mcpy_at mcpy_below)
  moreover have "logged_entry pol blk lo n e (idxs w2 entry)"
    using e' r by (simp add: logged_entry_def same_but_range_def)
  moreover have "only_entry entry w (FLUSH entry w2)"
    using w2 by (simp add: only_entry_def stored_def)
  ultimately show ?thesis by (simp add: logged_def e_def)
qed

lemma logged_fresh:
  assumes r: "replaces (idxs w entry) n" and n: "0 < n" "lo + n \<le> 2 ^ 21"
  shows "logged w pol entry from blk lo n (FLUSH entry (upd_entry entry
     (\<lambda>e. (set_policy pol (set_len n (set_offset lo e)))\<lparr>dst := (blk + lo) AND LOG_MASK (log_size (idxs w entry))\<rparr>)
     (stored (log (idxs w entry) + lo) from n w)))"
proof -
  have "logged_bytes (bytes (mem w)) from blk lo n (idxs w entry)
      (mcpy (log (idxs w entry) + lo) from n (bytes (mem w)))"
    using r by (simp add: logged_bytes_def mcpy_at mcpy_below)
  then show ?thesis using r n
    by (simp add: logged_def only_entry_def logged_entry_def FLUSH_def upd_entry_def stored_def)
qed

lemma log_block_logged:
  assumes E: "pmem_copies E" and ok: "entry_ok w entry blk K"
    and lo: "LOG_OFFSET off (log_size (idxs w entry)) = lo" and n: "0 < n" "lo + n \<le> K"
    and fr: "from = (case policy (mmios w M) of UNDO \<Rightarrow> blk + lo | REDO \<Rightarrow> src)" "accessible (mem w) from n"
  shows "\<exists>w'. log_block E M entry off (blk + lo) src n w = Inr (n, w') \<and>
    logged w (policy (mmios w M)) entry from blk lo n w'"
proof -
  let ?e = "idxs w entry" and ?pol = "policy (mmios w M)"
  let ?w1 = "stored (log ?e + lo) from n w"
  have K: "K \<le> LOG_SIZE (log_size ?e)" "K \<le> 2 ^ 21" using ok entry_ok_less [OF ok] by (auto simp: entry_ok_def Let_def)
  have "(case ?pol of UNDO \<Rightarrow> NTSTORE E (log ?e + lo) (blk + lo) n w
         | REDO \<Rightarrow> NTSTORE E (log ?e + lo) src n w) = Inr ?w1"
    using fr entry_ok_accessible [OF ok n(2)]
    by (cases ?pol) (simp_all add: NTSTORE_Inr [OF E] stored_def)
  moreover have nn: "(if LOG_SIZE (log_size ?e) - lo < n then LOG_SIZE (log_size ?e) - lo else n) = n"
    using K n by simp
  ultimately have lb: "log_block E M entry off (blk + lo) src n w =
     bindE (if 0 < e_len ?e \<and> n \<noteq> LOG_SIZE (log_size ?e) then merge_log E entry (blk + lo) lo n ?w1
            else Inr (upd_entry entry (\<lambda>e. (set_policy ?pol (set_len n (set_offset lo e)))
                              \<lparr>dst := (blk + lo) AND LOG_MASK (log_size ?e)\<rparr>) ?w1))
       (\<lambda>w. Inr (n, FLUSH entry w))"
    unfolding log_block_def Let_def LOG_OFFSET_def [symmetric] lo nn by simp
  show ?thesis
  proof (cases "replaces ?e n")
    case True
    then have c: "(0 < e_len ?e \<and> n \<noteq> LOG_SIZE (log_size ?e)) = False" by (simp add: replaces_def)
    show ?thesis unfolding lb c using logged_fresh [OF True n(1)] n K by simp
  next
    case False
    obtain w2 where "merge_log E entry (blk + lo) lo n ?w1 = Inr w2" "merged ?w1 entry blk lo n w2"
      using merge_log_merged [OF E, of ?w1 entry blk K n lo] ok n by auto
    then show ?thesis using lb logged_merge [OF ok n] False by (auto simp: replaces_def)
  qed
qed

subsection \<open>The contents of a block\<close>

definition entry_view :: "world \<Rightarrow> ptr \<Rightarrow> addr \<Rightarrow> nat \<Rightarrow> byte" where
  "entry_view w entry blk i =
     (if e_policy (idxs w entry) = REDO then redo_view (bytes (mem w)) (idxs w entry) blk i
      else bytes (mem w) (blk + i))"

text \<open>
  The invariant of an entry between two requests: a redo log knows its block, and a log of
  the current epoch was written under the file's policy.
\<close>

definition entry_inv :: "world \<Rightarrow> ptr \<Rightarrow> ptr \<Rightarrow> addr \<Rightarrow> nat \<Rightarrow> bool" where
  "entry_inv w M entry blk K \<longleftrightarrow>
     (let e = idxs w entry; m = mmios w M in
      entry_ok w entry blk K \<and> LOG_SIZE (log_size e) dvd blk \<and> blk + K \<le> 2 ^ 64 \<and>
      (e_policy e = REDO \<and> 0 < e_len e \<longrightarrow> dst e = blk) \<and>
      (0 < e_len e \<and> epoch m \<le> e_epoch e \<longrightarrow> e_policy e = policy m))"

text \<open>What checkpointing an entry leaves: the block holds the contents, the log is empty.\<close>

definition checkpointed :: "world \<Rightarrow> ptr \<Rightarrow> ptr \<Rightarrow> addr \<Rightarrow> nat \<Rightarrow> world \<Rightarrow> bool" where
  "checkpointed w M entry blk K w' \<longleftrightarrow>
     (let e = idxs w entry; e' = idxs w' entry; m = mmios w M in
      only_entry entry w w' \<and>
      (\<forall>i. bytes (mem w') (blk + i) = (if i < K then entry_view w entry blk i else bytes (mem w) (blk + i))) \<and>
      (\<forall>a < blk. bytes (mem w') a = bytes (mem w) a) \<and>
      e_len e' = 0 \<and> e_offset e' = 0 \<and> e_policy e' = policy m \<and> e_epoch e' = epoch m mod 2 ^ 20 \<and>
      log e' = log e \<and> dst e' = dst e \<and> rwlockp e' = rwlockp e \<and> log_size e' = log_size e)"

lemma checkpoint_entry_checkpointed:
  assumes E: "pmem_copies E" and inv: "entry_inv w M entry blk K"
  shows "\<exists>w'. checkpoint_entry E M entry w = Inr w' \<and> checkpointed w M entry blk K w'"
proof (cases "e_policy (idxs w entry) = REDO")
  case True
  let ?e = "idxs w entry"
  have ok: "entry_ok w entry blk K" and d: "e_len ?e = 0 \<or> dst ?e = blk" and le: "e_offset ?e + e_len ?e \<le> K"
    using inv True by (auto simp: entry_inv_def entry_ok_def Let_def)
  let ?w = "stored (dst ?e + e_offset ?e) (log ?e + e_offset ?e) (e_len ?e) w"
  have "copy_log E entry w = Inr (FENCE ?w)"
    using d entry_ok_accessible [OF ok le] by (auto simp: copy_log_def Let_def NTSTORE_Inr [OF E] stored_def)
  then have "checkpoint_entry E M entry w = Inr (FENCE (FLUSH entry (upd_entry entry
     (\<lambda>e. set_offset 0 (set_len 0 (set_policy (policy (mmios w M)) (set_epoch (epoch (mmios w M)) e)))) (FENCE ?w))))"
    using True by (simp add: checkpoint_entry_def Let_def)
  moreover have "bytes (mem ?w) (blk + i) = (if i < K then entry_view w entry blk i else bytes (mem w) (blk + i))" for i
    using d True le by (auto simp: stored_def entry_view_def redo_view_def mcpy_at in_range_def)
  moreover have "bytes (mem ?w) a = bytes (mem w) a" if "a < blk" for a
    using d that by (auto simp: stored_def mcpy_below)
  ultimately show ?thesis
    by (simp add: checkpointed_def only_entry_def Let_def FENCE_def FLUSH_def upd_entry_def stored_def)
next
  case False
  then show ?thesis
    by (simp add: checkpoint_entry_def checkpointed_def only_entry_def Let_def FENCE_def FLUSH_def upd_entry_def entry_view_def)
qed

text \<open>Only the entry, its block and its log may have changed; it keeps its lock and log.\<close>

definition touches_only :: "ptr \<Rightarrow> addr \<Rightarrow> nat \<Rightarrow> world \<Rightarrow> world \<Rightarrow> bool" where
  "touches_only entry blk K w w' \<longleftrightarrow>
     (let e = idxs w entry; e' = idxs w' entry in
      only_entry entry w w' \<and> log e' = log e \<and> log_size e' = log_size e \<and> rwlockp e' = rwlockp e \<and>
      (\<forall>a. (a < blk \<or> blk + K \<le> a) \<and> (a < log e \<or> log e + LOG_SIZE (log_size e) \<le> a) \<longrightarrow>
         bytes (mem w') a = bytes (mem w) a))"

lemma touches_only_refl: "touches_only entry blk K w w"
  by (simp add: touches_only_def only_entry_refl Let_def)

lemma touches_only_trans:
  "touches_only entry blk K w w1 \<Longrightarrow> touches_only entry blk K w1 w2 \<Longrightarrow> touches_only entry blk K w w2"
  by (simp add: touches_only_def Let_def only_entry_def)

lemma touches_onlyD: "touches_only entry blk K w w' \<Longrightarrow> only_entry entry w w'"
  by (simp add: touches_only_def Let_def)

lemma entry_inv_ok: "entry_inv w M entry blk K \<Longrightarrow> entry_ok w entry blk K"
  by (simp add: entry_inv_def Let_def)

lemma checkpointed_inv:
  assumes "entry_inv w M entry blk K" and "checkpointed w M entry blk K w'"
  shows "entry_inv w' M entry blk K" and "i < K \<Longrightarrow> entry_view w' entry blk i = entry_view w entry blk i"
    and "a < blk \<or> blk + K \<le> a \<Longrightarrow> bytes (mem w') a = bytes (mem w) a"
    and "touches_only entry blk K w w'" and "e_len (idxs w' entry) = 0"
    and "log (idxs w' entry) = log (idxs w entry)" and "log_size (idxs w' entry) = log_size (idxs w entry)"
proof -
  note c = assms(2) [unfolded checkpointed_def Let_def]
  show "entry_inv w' M entry blk K"
    using assms(1) c by (auto simp: entry_inv_def entry_ok_def Let_def only_entry_def accessible_def)
  show "i < K \<Longrightarrow> entry_view w' entry blk i = entry_view w entry blk i"
    using c by (simp add: entry_view_def [of w'] redo_view_def in_range_def)
  show o: "bytes (mem w') a = bytes (mem w) a" if "a < blk \<or> blk + K \<le> a" for a
  proof (cases "a < blk")
    case False
    then obtain i where "a = blk + i" using le_Suc_ex [of blk a] by auto
    then show ?thesis using c that by simp
  qed (use c in simp)
  show "e_len (idxs w' entry) = 0"
    and "log (idxs w' entry) = log (idxs w entry)" and "log_size (idxs w' entry) = log_size (idxs w entry)"
    using c by simp_all
  then show "touches_only entry blk K w w'" using c o by (simp add: touches_only_def Let_def)
qed

text \<open>
  A request on one block: at offset \<open>lo\<close> of the block, from a buffer that overlaps neither
  the block nor its log.
\<close>

definition block_request :: "world \<Rightarrow> ptr \<Rightarrow> nat \<Rightarrow> addr \<Rightarrow> nat \<Rightarrow> nat \<Rightarrow> addr \<Rightarrow> nat \<Rightarrow> bool" where
  "block_request w entry off blk K lo buf n \<longleftrightarrow>
     (let e = idxs w entry in
      LOG_OFFSET off (log_size e) = lo \<and> 0 < n \<and> lo + n \<le> K \<and> accessible (mem w) buf n \<and>
      disjoint_ranges buf n blk K \<and> disjoint_ranges buf n (log e) (LOG_SIZE (log_size e)))"

text \<open>A round of the loop: an optional checkpoint, to \<open>w1\<close>, and then the log is written.\<close>

lemma write_entry_logged:
  assumes E: "pmem_copies E" and inv: "entry_inv w M entry blk K"
    and req: "block_request w entry off blk K lo src n"
  obtains w1 w' where "write_entry E M entry off (blk + lo) src n w = Inr (n, w')"
    and "entry_inv w1 M entry blk K" and "touches_only entry blk K w w1" and "mmios w1 = mmios w"
    and "\<And>i. i < K \<Longrightarrow> entry_view w1 entry blk i = entry_view w entry blk i"
    and "\<And>j. j < n \<Longrightarrow> bytes (mem w1) (src + j) = bytes (mem w) (src + j)"
    and "e_len (idxs w1 entry) = 0 \<or> epoch (mmios w1 M) \<le> e_epoch (idxs w1 entry)"
    and "e_epoch (idxs w entry) < epoch (mmios w M) \<or> e_len (idxs w entry) = 0 \<Longrightarrow> e_len (idxs w1 entry) = 0"
    and "lo < LOG_SIZE (log_size (idxs w1 entry))"
    and "logged w1 (policy (mmios w1 M)) entry (case policy (mmios w1 M) of UNDO \<Rightarrow> blk + lo | REDO \<Rightarrow> src) blk lo n w'"
proof -
  let ?old = "e_epoch (idxs w entry) < epoch (mmios w M)"
  obtain w1 where w1: "(if ?old then checkpoint_entry E M entry w else Inr w) = Inr w1"
    "if ?old then checkpointed w M entry blk K w1 else w1 = w"
    using checkpoint_entry_checkpointed [OF E inv] by (cases ?old) auto
  have inv1: "entry_inv w1 M entry blk K" and to: "touches_only entry blk K w w1"
    and v: "\<And>i. i < K \<Longrightarrow> entry_view w1 entry blk i = entry_view w entry blk i"
    and o: "\<And>a. a < blk \<or> blk + K \<le> a \<Longrightarrow> bytes (mem w1) a = bytes (mem w) a"
    and l: "?old \<Longrightarrow> e_len (idxs w1 entry) = 0" and keep: "\<not> ?old \<Longrightarrow> w1 = w"
    and s: "log (idxs w1 entry) = log (idxs w entry)" "log_size (idxs w1 entry) = log_size (idxs w entry)"
    using w1(2) inv checkpointed_inv [OF inv, of w1] touches_only_refl [of entry blk K w] by (cases ?old; simp)+
  note oe = touches_onlyD [OF to]
  have m1: "mmios w1 = mmios w" using oe by (simp add: only_entry_def)
  let ?from = "case policy (mmios w1 M) of UNDO \<Rightarrow> blk + lo | REDO \<Rightarrow> src"
  have r: "LOG_OFFSET off (log_size (idxs w1 entry)) = lo" "0 < n" "lo + n \<le> K" "accessible (mem w1) src n"
    and dis: "disjoint_ranges src n blk K"
    using req s only_entry_accessible [OF oe] by (simp_all add: block_request_def Let_def)
  have "accessible (mem w1) ?from n"
    using r(4) entry_ok_accessible [OF entry_inv_ok [OF inv1] r(3)]
    by (cases "policy (mmios w1 M)") simp_all
  then obtain w' where w': "log_block E M entry off (blk + lo) src n w1 = Inr (n, w')"
    "logged w1 (policy (mmios w1 M)) entry ?from blk lo n w'"
    using log_block_logged [OF E entry_inv_ok [OF inv1] r(1-3) refl] by blast
  have "write_entry E M entry off (blk + lo) src n w = Inr (n, w')"
    using w'(1) w1(1) by (auto simp: write_entry_def split: if_splits)
  then show thesis
  proof (rule that [OF _ inv1 to m1 v _ _ _ _ w'(2)])
    show "bytes (mem w1) (src + j) = bytes (mem w) (src + j)" if "j < n" for j
      using dis that by (intro o) (auto simp: disjoint_ranges_def)
    show "e_len (idxs w1 entry) = 0 \<or> epoch (mmios w1 M) \<le> e_epoch (idxs w1 entry)"
      using l keep by (cases ?old) auto
    show "e_len (idxs w1 entry) = 0" if "?old \<or> e_len (idxs w entry) = 0" using l keep that by (cases ?old) auto
    show "lo < LOG_SIZE (log_size (idxs w1 entry))" using r(1) LOG_OFFSET_less by blast
  qed
qed

lemma logged_elsewhere:
  assumes ok: "entry_ok w entry blk K" and n: "lo + n \<le> K" and l: "logged w pol entry from blk lo n w'"
    and a: "a < log (idxs w entry) \<or> log (idxs w entry) + LOG_SIZE (log_size (idxs w entry)) \<le> a"
  shows "bytes (mem w') a = bytes (mem w) a"
proof (cases "a < log (idxs w entry)")
  case True
  then show ?thesis using l by (simp add: logged_def logged_bytes_def)
next
  case False
  then obtain i where i: "a = log (idxs w entry) + i" using le_Suc_ex [of "log (idxs w entry)" a] by auto
  have "K \<le> i" using ok a False i by (auto simp: entry_ok_def Let_def)
  then have "\<not> in_range lo n i" "\<not> gap (idxs w entry) lo n i"
    using n hull_le [OF ok n] by (auto simp: in_range_def gap_def)
  then show ?thesis using l by (simp add: logged_def logged_bytes_def i)
qed

lemma logged_touches:
  assumes "entry_ok w entry blk K" and "lo + n \<le> K" and "logged w pol entry from blk lo n w'"
  shows "touches_only entry blk K w w'"
  using assms(3) logged_elsewhere [OF assms] by (simp add: touches_only_def logged_def logged_entry_def Let_def)

lemma logged_block:
  assumes ok: "entry_ok w entry blk K" and n: "lo + n \<le> K" and l: "logged w pol entry from blk lo n w'" and i: "i < K"
  shows "bytes (mem w') (blk + i) = bytes (mem w) (blk + i)"
  by (rule logged_elsewhere [OF ok n l])
    (use ok i in \<open>auto simp: entry_ok_def Let_def disjoint_ranges_def\<close>)

lemma logged_ok:
  assumes ok: "entry_ok w entry blk K" and n: "0 < n" "lo + n \<le> K" and l: "logged w pol entry from blk lo n w'"
  shows "entry_ok w' entry blk K"
  using ok n hull_le [OF ok n(2)] l
  by (auto simp: entry_ok_def Let_def logged_def logged_entry_def only_entry_def accessible_def split: if_splits)

lemma logged_inv:
  assumes inv: "entry_inv w M entry blk K" and n: "0 < n" "lo + n \<le> K"
    and l: "logged w (policy (mmios w M)) entry from blk lo n w'"
    and cur: "e_len (idxs w entry) = 0 \<or> epoch (mmios w M) \<le> e_epoch (idxs w entry)"
    and lo: "lo < LOG_SIZE (log_size (idxs w entry))"
  shows "entry_inv w' M entry blk K" and "e_policy (idxs w' entry) = policy (mmios w M)"
proof -
  let ?e = "idxs w entry" and ?m = "mmios w M"
  have s: "log_size ?e < NR_LOG_SIZES" "LOG_SIZE (log_size ?e) dvd blk" "blk + K \<le> 2 ^ 64"
    using inv by (auto simp: entry_inv_def entry_ok_def Let_def)
  have "(blk + lo) AND LOG_MASK (log_size ?e) = blk"
    using s n lo by (subst and_LOG_MASK) (auto simp: mod_add_left_eq [symmetric] elim: dvdE)
  moreover show "e_policy (idxs w' entry) = policy ?m"
    using l inv cur by (auto simp: logged_def logged_entry_def replaces_def entry_inv_def Let_def split: if_splits)
  moreover have "mmios w' = mmios w" "e_len ?e = 0 \<or> e_policy ?e = REDO \<longrightarrow> dst ?e = blk \<or> e_len ?e = 0"
    using l inv by (auto simp: logged_def only_entry_def entry_inv_def Let_def)
  ultimately show "entry_inv w' M entry blk K"
    using inv logged_ok [OF entry_inv_ok [OF inv] n l] l
    by (auto simp: entry_inv_def Let_def logged_def logged_entry_def replaces_def split: if_splits)
qed

text \<open>Under redo logging the contents of the block change exactly by the request.\<close>

lemma logged_redo_view:
  assumes inv: "entry_inv w M entry blk K" and n: "0 < n" "lo + n \<le> K" and i: "i < K"
    and pol: "policy (mmios w M) = REDO"
    and cur: "e_len (idxs w entry) = 0 \<or> epoch (mmios w M) \<le> e_epoch (idxs w entry)"
    and l: "logged w REDO entry src blk lo n w'"
  shows "entry_view w' entry blk i = overlay (entry_view w entry blk) lo n (\<lambda>j. bytes (mem w) (src + j)) i"
proof -
  let ?e = "idxs w entry"
  note ok = entry_inv_ok [OF inv]
  have f: "bytes (mem w') (blk + i) = bytes (mem w) (blk + i)" by (rule logged_block [OF ok n(2) l i])
  have e': "logged_entry REDO blk lo n ?e (idxs w' entry)" and log: "log (idxs w' entry) = log ?e"
    and b: "logged_bytes (bytes (mem w)) src blk lo n ?e (bytes (mem w'))"
    using l by (simp_all add: logged_def logged_entry_def)
  show ?thesis
  proof (cases "replaces ?e n")
    case True
    have "n = LOG_SIZE (log_size ?e) \<Longrightarrow> in_range lo n i"
      using ok i n by (auto simp: in_range_def entry_ok_def Let_def)
    then show ?thesis using True e' b f
      by (auto simp: entry_view_def redo_view_def overlay_def logged_entry_def logged_bytes_def replaces_def in_range_def)
  next
    case False
    then have "e_policy ?e = REDO" using inv cur pol by (auto simp: entry_inv_def Let_def replaces_def)
    then show ?thesis using False e' b f log
      by (auto simp: entry_view_def redo_view_def overlay_def logged_entry_def logged_bytes_def range_defs)
  qed
qed

subsection \<open>What a round of the write loop does to its block\<close>

lemma write_entry_redo_result:
  assumes "pmem_copies E" and "entry_inv w M entry blk K" and "policy (mmios w M) = REDO"
    and "block_request w entry off blk K lo src n"
  shows "\<exists>w'. write_entry E M entry off (blk + lo) src n w = Inr (n, w') \<and>
    (\<forall>i < K. entry_view w' entry blk i =
        overlay (entry_view w entry blk) lo n (\<lambda>j. bytes (mem w) (src + j)) i) \<and>
    entry_inv w' M entry blk K \<and> e_policy (idxs w' entry) = REDO \<and> touches_only entry blk K w w'"
proof -
  have n: "0 < n" "lo + n \<le> K" using assms(4) by (auto simp: block_request_def Let_def)
  obtain w1 w' where r: "write_entry E M entry off (blk + lo) src n w = Inr (n, w')"
    and inv1: "entry_inv w1 M entry blk K" and o1: "touches_only entry blk K w w1" and m1: "mmios w1 = mmios w"
    and v: "\<And>i. i < K \<Longrightarrow> entry_view w1 entry blk i = entry_view w entry blk i"
    and b: "\<And>j. j < n \<Longrightarrow> bytes (mem w1) (src + j) = bytes (mem w) (src + j)"
    and cur: "e_len (idxs w1 entry) = 0 \<or> epoch (mmios w1 M) \<le> e_epoch (idxs w1 entry)"
    and "e_epoch (idxs w entry) < epoch (mmios w M) \<or> e_len (idxs w entry) = 0 \<Longrightarrow> e_len (idxs w1 entry) = 0"
    and lo: "lo < LOG_SIZE (log_size (idxs w1 entry))"
    and l: "logged w1 (policy (mmios w1 M)) entry (case policy (mmios w1 M) of UNDO \<Rightarrow> blk + lo | REDO \<Rightarrow> src) blk lo n w'"
    by (rule write_entry_logged [OF assms(1,2,4)]) (rule that)
  have p1: "policy (mmios w1 M) = REDO" and l1: "logged w1 REDO entry src blk lo n w'" using l m1 assms(3) by simp_all
  have "entry_view w' entry blk i = overlay (entry_view w entry blk) lo n (\<lambda>j. bytes (mem w) (src + j)) i" if "i < K" for i
    using logged_redo_view [OF inv1 n that p1 cur l1] v [OF that] b [of "i - lo"]
    by (auto simp: overlay_def)
  moreover have "touches_only entry blk K w w'"
    by (rule touches_only_trans [OF o1 logged_touches [OF entry_inv_ok [OF inv1] n(2) l]])
  ultimately show ?thesis using r logged_inv [OF inv1 n l cur lo] p1 by auto
qed

text \<open>
  C12: Under redo logging, one round of \<^verbatim>\<open>mmio_write\<close> on a block never fails, logs all of the
  request, and changes the contents of the block exactly by the bytes of the request,
  whether the entry is empty, belongs to an older epoch (and is checkpointed first) or
  already holds a log that the request overlaps, touches or misses. Nothing else in memory
  or in the state changes, and the entry is ready for the next round.
\<close>

theorem write_entry_redo:
  assumes "pmem_copies E" and "entry_inv w M entry blk K" and "policy (mmios w M) = REDO"
    and "block_request w entry off blk K lo src n"
  shows "\<exists>w'. write_entry E M entry off (blk + lo) src n w = Inr (n, w') \<and>
    (\<forall>i < K. entry_view w' entry blk i =
        overlay (entry_view w entry blk) lo n (\<lambda>j. bytes (mem w) (src + j)) i) \<and>
    entry_inv w' M entry blk K \<and> touches_only entry blk K w w'"
  using write_entry_redo_result [OF assms] by blast

theorem write_entry_redo_witness:
  "\<exists>w'. write_entry ex_env 1 70 (2 ^ 21 + 100) (2 ^ 21 + 100) (2 ^ 15) 50 (ex_world REDO) = Inr (50, w') \<and>
     entry_view w' 70 (2 ^ 21) 99 = 99 \<and> entry_view w' 70 (2 ^ 21) 100 = 7"
proof -
  have "entry_inv (ex_world REDO) 1 70 (2 ^ 21) 4096"
    by (simp add: entry_inv_def entry_ok_def Let_def accessible_def disjoint_ranges_def LOG_SIZE_eq NR_LOG_SIZES_def)
  moreover have "block_request (ex_world REDO) 70 (2 ^ 21 + 100) (2 ^ 21) 4096 100 (2 ^ 15) 50"
    by (simp add: block_request_def Let_def accessible_def disjoint_ranges_def LOG_SIZE_eq LOG_OFFSET_mod)
  ultimately obtain w' where
    "write_entry ex_env 1 70 (2 ^ 21 + 100) (2 ^ 21 + 100) (2 ^ 15) 50 (ex_world REDO) = Inr (50, w')"
    "\<forall>i < 4096. entry_view w' 70 (2 ^ 21) i =
        overlay (entry_view (ex_world REDO) 70 (2 ^ 21)) 100 50 (\<lambda>j. bytes (mem (ex_world REDO)) (2 ^ 15 + j)) i"
    using write_entry_redo [OF ex_env_copies] by fastforce
  then show ?thesis by (simp add: overlay_def entry_view_def ex_byte_def)
qed

lemma write_entry_undo_result:
  assumes "pmem_copies E" and "entry_inv w M entry blk K" and "policy (mmios w M) = UNDO"
    and "block_request w entry off blk K lo src n"
  shows "\<exists>w'. write_entry E M entry off (blk + lo) src n w = Inr (n, w') \<and>
    (\<forall>i < K. bytes (mem w') (blk + i) = entry_view w entry blk i \<and> entry_view w' entry blk i = entry_view w entry blk i) \<and>
    (\<forall>i. in_range lo n i \<longrightarrow> in_range (e_offset (idxs w' entry)) (e_len (idxs w' entry)) i \<and>
         bytes (mem w') (log (idxs w' entry) + i) = entry_view w entry blk i) \<and>
    (e_epoch (idxs w entry) < epoch (mmios w M) \<or> e_len (idxs w entry) = 0 \<longrightarrow>
       (\<forall>i < K. redo_view (mcpy (blk + lo) src n (bytes (mem w'))) (idxs w' entry) blk i = entry_view w entry blk i)) \<and>
    entry_inv w' M entry blk K \<and> e_policy (idxs w' entry) = UNDO \<and> touches_only entry blk K w w'"
proof -
  have n: "0 < n" "lo + n \<le> K" using assms(4) by (auto simp: block_request_def Let_def)
  obtain w1 w' where r: "write_entry E M entry off (blk + lo) src n w = Inr (n, w')"
    and inv1: "entry_inv w1 M entry blk K" and o1: "touches_only entry blk K w w1" and m1: "mmios w1 = mmios w"
    and v: "\<And>i. i < K \<Longrightarrow> entry_view w1 entry blk i = entry_view w entry blk i"
    and "\<And>j. j < n \<Longrightarrow> bytes (mem w1) (src + j) = bytes (mem w) (src + j)"
    and cur: "e_len (idxs w1 entry) = 0 \<or> epoch (mmios w1 M) \<le> e_epoch (idxs w1 entry)"
    and first: "e_epoch (idxs w entry) < epoch (mmios w M) \<or> e_len (idxs w entry) = 0 \<Longrightarrow> e_len (idxs w1 entry) = 0"
    and lo: "lo < LOG_SIZE (log_size (idxs w1 entry))"
    and l: "logged w1 (policy (mmios w1 M)) entry (case policy (mmios w1 M) of UNDO \<Rightarrow> blk + lo | REDO \<Rightarrow> src) blk lo n w'"
    by (rule write_entry_logged [OF assms(1,2,4)]) (rule that)
  note l1 = l [unfolded m1 assms(3), simplified]
  note ok1 = entry_inv_ok [OF inv1]
  have view1: "entry_view w1 entry blk i = bytes (mem w1) (blk + i)" for i
    using inv1 cur m1 assms(3)
    by (auto simp: entry_inv_def Let_def entry_view_def redo_view_def in_range_def)
  have f: "bytes (mem w') (blk + i) = entry_view w entry blk i" if "i < K" for i
    using logged_block [OF ok1 n(2) l1 that] view1 v [OF that] by simp
  have p': "e_policy (idxs w' entry) = UNDO" using logged_inv(2) [OF inv1 n l cur lo] m1 assms(3) by simp
  have lg: "in_range (e_offset (idxs w' entry)) (e_len (idxs w' entry)) i"
    "bytes (mem w') (log (idxs w' entry) + i) = entry_view w entry blk i" if "in_range lo n i" for i
    using that l1 n view1 v [of i]
    by (auto simp: logged_def logged_entry_def logged_bytes_def range_defs split: if_splits)
  have roll: "redo_view (mcpy (blk + lo) src n (bytes (mem w'))) (idxs w' entry) blk i = entry_view w entry blk i"
    if "e_len (idxs w1 entry) = 0" "i < K" for i
  proof -
    have "e_offset (idxs w' entry) = lo" "e_len (idxs w' entry) = n" "log (idxs w' entry) = log (idxs w1 entry)"
      using l1 that(1) by (auto simp: logged_def logged_entry_def replaces_def)
    moreover have "mcpy (blk + lo) src n (bytes (mem w')) (log (idxs w1 entry) + i) = bytes (mem w') (log (idxs w1 entry) + i)"
      using ok1 n that(2) by (intro mcpy_out) (auto simp: entry_ok_def Let_def disjoint_ranges_def)
    ultimately show ?thesis using lg [of i] f [OF that(2)] by (auto simp: redo_view_def mcpy_at)
  qed
  have oe: "touches_only entry blk K w w'"
    by (rule touches_only_trans [OF o1 logged_touches [OF ok1 n(2) l]])
  have "entry_view w' entry blk i = entry_view w entry blk i" if "i < K" for i
    using f [OF that] p' by (simp add: entry_view_def [of w'])
  then show ?thesis
    by (intro exI [of _ w'] conjI allI impI r f lg roll first oe p' logged_inv(1) [OF inv1 n l cur lo]) simp_all
qed

text \<open>
  C13: Under undo logging, one round of \<^verbatim>\<open>mmio_write\<close> on a block never fails and leaves the
  contents of the block alone; the log then holds, for every byte of the request, what the
  block holds now. If it is the first request to the block in this epoch, the recorded range
  is the request, so copying the log back after the store in place (of whatever bytes \<open>src\<close>
  has) restores the block as it was.
\<close>

theorem write_entry_undo:
  assumes "pmem_copies E" and "entry_inv w M entry blk K" and "policy (mmios w M) = UNDO"
    and "block_request w entry off blk K lo src n"
  shows "\<exists>w'. write_entry E M entry off (blk + lo) src n w = Inr (n, w') \<and>
    (\<forall>i < K. bytes (mem w') (blk + i) = entry_view w entry blk i \<and> entry_view w' entry blk i = entry_view w entry blk i) \<and>
    (\<forall>i. in_range lo n i \<longrightarrow> in_range (e_offset (idxs w' entry)) (e_len (idxs w' entry)) i \<and>
         bytes (mem w') (log (idxs w' entry) + i) = entry_view w entry blk i) \<and>
    (e_epoch (idxs w entry) < epoch (mmios w M) \<or> e_len (idxs w entry) = 0 \<longrightarrow>
       (\<forall>i < K. redo_view (mcpy (blk + lo) src n (bytes (mem w'))) (idxs w' entry) blk i = entry_view w entry blk i)) \<and>
    entry_inv w' M entry blk K \<and> touches_only entry blk K w w'"
  using write_entry_undo_result [OF assms] by (elim exE conjE) (intro exI conjI; assumption)

theorem write_entry_undo_witness:
  "\<exists>w'. write_entry ex_env 1 70 (2 ^ 21 + 100) (2 ^ 21 + 100) (2 ^ 15) 50 (ex_world UNDO) = Inr (50, w') \<and>
     bytes (mem w') (2 ^ 21 + 100) = 100 \<and> bytes (mem w') (log (idxs w' 70) + 100) = 100 \<and>
     redo_view (mcpy (2 ^ 21 + 100) (2 ^ 15) 50 (bytes (mem w'))) (idxs w' 70) (2 ^ 21) 100 = 100"
proof -
  have i: "entry_inv (ex_world UNDO) 1 70 (2 ^ 21) 4096"
    by (simp add: entry_inv_def entry_ok_def Let_def accessible_def disjoint_ranges_def LOG_SIZE_eq NR_LOG_SIZES_def)
  have r: "block_request (ex_world UNDO) 70 (2 ^ 21 + 100) (2 ^ 21) 4096 100 (2 ^ 15) 50"
    by (simp add: block_request_def Let_def accessible_def disjoint_ranges_def LOG_SIZE_eq LOG_OFFSET_mod)
  have v: "entry_view (ex_world UNDO) 70 (2 ^ 21) 100 = 100" "in_range 100 50 100"
    by (simp_all add: entry_view_def in_range_def ex_byte_def)
  have p: "policy (mmios (ex_world UNDO) 1) = UNDO" by simp
  have f: "e_epoch (idxs (ex_world UNDO) 70) < epoch (mmios (ex_world UNDO) 1) \<or> e_len (idxs (ex_world UNDO) 70) = 0"
    by simp
  let ?v = "entry_view (ex_world UNDO) 70 (2 ^ 21)"
  obtain w' where "write_entry ex_env 1 70 (2 ^ 21 + 100) (2 ^ 21 + 100) (2 ^ 15) 50 (ex_world UNDO) = Inr (50, w')"
    and "\<forall>i < 4096. bytes (mem w') (2 ^ 21 + i) = ?v i \<and> entry_view w' 70 (2 ^ 21) i = ?v i"
    and "\<forall>i. in_range 100 50 i \<longrightarrow> in_range (e_offset (idxs w' 70)) (e_len (idxs w' 70)) i \<and>
         bytes (mem w') (log (idxs w' 70) + i) = ?v i"
    and "\<forall>i < 4096. redo_view (mcpy (2 ^ 21 + 100) (2 ^ 15) 50 (bytes (mem w'))) (idxs w' 70) (2 ^ 21) i = ?v i"
    using write_entry_undo [OF ex_env_copies i p r] f by blast
  moreover have "(100::nat) < 4096" by simp
  ultimately show ?thesis using v by metis
qed

subsection \<open>One round of the redo read loop\<close>

definition filled :: "addr \<Rightarrow> nat \<Rightarrow> (nat \<Rightarrow> byte) \<Rightarrow> world \<Rightarrow> world" where
  "filled d n f w = w\<lparr>mem := (mem w)\<lparr>bytes := overlay (bytes (mem w)) d n f\<rparr>\<rparr>"

lemma filled_cong: "(\<And>j. j < n \<Longrightarrow> f j = g j) \<Longrightarrow> filled d n f w = filled d n g w"
proof -
  assume "\<And>j. j < n \<Longrightarrow> f j = g j"
  then have "overlay (bytes (mem w)) d n f = overlay (bytes (mem w)) d n g" by (auto simp: overlay_def intro!: ext)
  then show ?thesis by (simp add: filled_def)
qed

lemma read_filled_cong:
  assumes "r = Inr (a, b, c, filled d n f w)" and "\<And>j. j < n \<Longrightarrow> f j = g j"
  shows "r = Inr (a, b, c, filled d n g w)"
  using assms filled_cong [of n f g d w] by simp

lemma w_memcpy_0 [simp]: "w_memcpy d s 0 w = Inr w"
  by (simp add: w_memcpy_def c_memcpy_def)

lemma w_memcpy_filled:
  assumes "accessible (mem w) d n" and "accessible (mem w) s n"
  shows "w_memcpy d s n w = Inr (filled d n (\<lambda>j. bytes (mem w) (s + j)) w)"
  using assms by (simp add: w_memcpy_def c_memcpy_def filled_def overlay_def mcpy_def)

lemma w_memcpy_append:
  assumes "accessible (mem w) (d + n1) n2" and "accessible (mem w) s n2" and "disjoint_ranges d n1 s n2"
  shows "w_memcpy (d + n1) s n2 (filled d n1 f w) =
     Inr (filled d (n1 + n2) (\<lambda>j. if j < n1 then f j else bytes (mem w) (s + (j - n1))) w)"
proof -
  have "mcpy (d + n1) s n2 (overlay (bytes (mem w)) d n1 f) =
      overlay (bytes (mem w)) d (n1 + n2) (\<lambda>j. if j < n1 then f j else bytes (mem w) (s + (j - n1)))"
    using assms(3) by (auto simp: mcpy_def overlay_def disjoint_ranges_def intro!: ext)
  then show ?thesis using assms(1,2) by (simp add: w_memcpy_def c_memcpy_def filled_def)
qed

text \<open>
  The round in terms of offsets within the block: \<open>[p, q)\<close> is the recorded range of the log.
\<close>

lemma read_entry_eq:
  fixes w entry defines "e \<equiv> idxs w entry" and "p \<equiv> e_offset (idxs w entry)"
    and "q \<equiv> e_offset (idxs w entry) + e_len (idxs w entry)"
  assumes lo: "LOG_OFFSET off (log_size e) = lo" and n: "lo + n \<le> LOG_SIZE (log_size e)" and fo: "fa + off = blk + lo"
  shows "read_entry entry d fa off n w =
    bindE (if e_len e = 0 \<or> lo + n < p \<or> q < lo \<and> q < lo + n then w_memcpy d (blk + lo) n w
      else if lo \<le> p \<and> lo + n < q then
        bindE (w_memcpy d (blk + lo) (p - lo) w) (w_memcpy (d + (p - lo)) (log e + p) (lo + n - p))
      else if lo \<le> p then
        bindE (w_memcpy d (blk + lo) (p - lo) w) (\<lambda>w.
        bindE (w_memcpy (d + (p - lo)) (log e + p) (q - p) w)
          (w_memcpy (d + ((p - lo) + (q - p))) (blk + (lo + (p - lo) + (q - p)) + (q - lo)) (lo + n - q)))
      else if lo + n \<le> q then w_memcpy d (log e + lo) n w
      else bindE (w_memcpy d (log e + lo) (q - lo) w)
             (w_memcpy (d + (q - lo)) (blk + q) (lo + n - q)))
      (\<lambda>w. Inr (d + n, off + n, 0, w))"
proof -
  have q: "p + e_len e = q" by (simp add: p_def q_def e_def)
  have p: "e_offset e = p" by (simp add: p_def e_def)
  have c: "check_log (log e + lo) (log e + lo + n) (log e + p) (log e + p + e_len e) =
      (if lo \<le> p then if p \<le> lo + n then if lo + n < q then 2 else 3 else 1
       else if lo + n \<le> q then 4 else if q < lo then 6 else 5)"
    unfolding q [symmetric] by (auto simp: check_log_def)
  have nn: "(if LOG_SIZE (log_size e) - lo < n then LOG_SIZE (log_size e) - lo else n) = n" using n by simp
  have fk: "fa + (off + k) = blk + (lo + k)" for k using fo by simp
  have pq: "p \<le> q" "p + (q - p) = q" "\<And>x. p + (q - p + x) = q + x" using q by auto
  consider "e_len e = 0" | "0 < e_len e" "lo + n < p" | "0 < e_len e" "lo \<le> p" "p \<le> lo + n" "lo + n < q"
    | "0 < e_len e" "lo \<le> p" "p \<le> lo + n" "q \<le> lo + n" "\<not> q < lo" | "0 < e_len e" "p < lo" "lo + n \<le> q"
    | "0 < e_len e" "p < lo" "q < lo + n" "lo \<le> q" | "0 < e_len e" "p < lo" "q < lo + n" "q < lo" using pq(1) by linarith
  then show ?thesis
    unfolding read_entry_def Let_def e_def [symmetric] LOG_OFFSET_def [symmetric] lo nn p c
    by cases (simp_all add: add.assoc q fo fk bindE_assoc pq(2,3))
qed

text \<open>The bytes from a buffer outside of a block and its log.\<close>

lemma block_request_sub:
  assumes "block_request w entry off blk K lo d n" and "entry_ok w entry blk K" and "i + k \<le> K"
  shows "disjoint_ranges d n (blk + i) k" and "disjoint_ranges d n (log (idxs w entry) + i) k"
    and "accessible (mem w) d n"
  using assms disjoint_ranges_sub [of d n blk K d n "blk + i" k]
    disjoint_ranges_sub [of d n "log (idxs w entry)" "LOG_SIZE (log_size (idxs w entry))" d n "log (idxs w entry) + i" k]
  by (simp_all add: block_request_def entry_ok_def Let_def)

lemma copy_block_then:
  assumes ok: "entry_ok w entry blk K" and req: "block_request w entry off blk K lo d n"
    and a: "a \<in> {blk, log (idxs w entry)}" "i1 + n1 \<le> K" "n1 \<le> n" and b: "b \<in> {blk, log (idxs w entry)}" "i2 + n2 \<le> K" "n1 + n2 \<le> n"
  shows "bindE (w_memcpy d (a + i1) n1 w) (w_memcpy (d + n1) (b + i2) n2) =
    Inr (filled d (n1 + n2) (\<lambda>j. if j < n1 then bytes (mem w) (a + i1 + j) else bytes (mem w) (b + i2 + (j - n1))) w)"
proof -
  have acc: "accessible (mem w) (a + i1) n1" "accessible (mem w) (b + i2) n2"
    using a b entry_ok_accessible [OF ok] by auto
  have d: "accessible (mem w) d n1" "accessible (mem w) (d + n1) n2" "disjoint_ranges d n1 (b + i2) n2"
    using a b block_request_sub [OF req ok] accessible_sub [of "mem w" d n] disjoint_ranges_sub [of d n "b + i2" n2 d n1 "b + i2" n2]
    by auto
  show ?thesis using w_memcpy_filled [OF d(1) acc(1)] w_memcpy_append [OF d(2) acc(2) d(3)] by simp
qed

lemma copy_block:
  assumes ok: "entry_ok w entry blk K" and req: "block_request w entry off blk K lo d n"
    and a: "a \<in> {blk, log (idxs w entry)}" "i1 + n \<le> K"
  shows "w_memcpy d (a + i1) n w = Inr (filled d n (\<lambda>j. bytes (mem w) (a + i1 + j)) w)"
  using w_memcpy_filled [of w d n "a + i1"] a entry_ok_accessible [OF ok a(2)] block_request_sub(3) [OF req ok a(2)] by auto

lemma read_entry_view_result:
  assumes ok: "entry_ok w entry blk K" and req: "block_request w entry off blk K lo d n"
    and fa: "fa + off = blk + lo"
    and c: "\<not> (0 < e_len (idxs w entry) \<and> lo \<le> e_offset (idxs w entry) \<and> e_offset (idxs w entry) + e_len (idxs w entry) < lo + n)"
  shows "read_entry entry d fa off n w =
    Inr (d + n, off + n, 0, filled d n (\<lambda>j. redo_view (bytes (mem w)) (idxs w entry) blk (lo + j)) w)"
proof -
  define e p q where "e = idxs w entry" and "p = e_offset e" and "q = e_offset e + e_len e"
  have r: "LOG_OFFSET off (log_size e) = lo" "0 < n" "lo + n \<le> K" "K \<le> LOG_SIZE (log_size e)" "q \<le> K"
    using req ok by (auto simp: block_request_def entry_ok_def Let_def e_def q_def)
  note eq = read_entry_eq [where w = w and entry = entry, folded e_def, folded p_def q_def, OF r(1) _ fa, of n d]
  note cp = copy_block [OF ok req, folded e_def] and ct = copy_block_then [OF ok req, folded e_def]
  have v: "redo_view b e blk x = (if p \<le> x \<and> x < q then b (log e + x) else b (blk + x))" for b x
    by (auto simp: redo_view_def in_range_def p_def q_def)
  have c': "e_len e = 0 \<or> p < lo \<or> lo + n \<le> q" "p \<le> q" "e_len e = 0 \<Longrightarrow> q = p"
    using c by (auto simp: e_def p_def q_def)
  consider "e_len e = 0 \<or> lo + n < p \<or> q < lo \<and> q < lo + n"
    | "0 < e_len e" "lo \<le> p" "p \<le> lo + n" "lo + n < q" | "0 < e_len e" "lo \<le> p" "p \<le> lo + n" "q = lo + n"
    | "p < lo" "lo + n \<le> q" "0 < e_len e" | "0 < e_len e" "p < lo" "q < lo + n" "lo \<le> q"
    using c' by linarith
  then show ?thesis
  proof cases
    case 1
    then have "read_entry entry d fa off n w = Inr (d + n, off + n, 0, filled d n (\<lambda>j. bytes (mem w) (blk + lo + j)) w)"
      using eq cp [of blk lo] r(2-5) by simp
    then show ?thesis by (rule read_filled_cong) (use 1 c' in \<open>auto simp: v ac_simps e_def [symmetric]\<close>)
  next
    case 2
    then have "read_entry entry d fa off n w = Inr (d + n, off + n, 0, filled d n
        (\<lambda>j. if j < p - lo then bytes (mem w) (blk + lo + j) else bytes (mem w) (log e + p + (j - (p - lo)))) w)"
      using eq ct [of blk lo "p - lo" "log e" p "lo + n - p"] r(2-5) by simp
    then show ?thesis by (rule read_filled_cong) (use 2 in \<open>auto simp: v ac_simps e_def [symmetric]\<close>)
  next
    case 3
    then have "read_entry entry d fa off n w = Inr (d + n, off + n, 0, filled d n
        (\<lambda>j. if j < p - lo then bytes (mem w) (blk + lo + j) else bytes (mem w) (log e + p + (j - (p - lo)))) w)"
      using eq ct [of blk lo "p - lo" "log e" p "q - p"] r(2-5) c' by (simp add: bindE_assoc [symmetric])
    then show ?thesis by (rule read_filled_cong) (use 3 in \<open>auto simp: v ac_simps e_def [symmetric]\<close>)
  next
    case 4
    then have "read_entry entry d fa off n w = Inr (d + n, off + n, 0, filled d n (\<lambda>j. bytes (mem w) (log e + lo + j)) w)"
      using eq cp [of "log e" lo] r(2-5) by simp
    then show ?thesis by (rule read_filled_cong) (use 4 in \<open>auto simp: v ac_simps e_def [symmetric]\<close>)
  next
    case 5
    then have "read_entry entry d fa off n w = Inr (d + n, off + n, 0, filled d n
        (\<lambda>j. if j < q - lo then bytes (mem w) (log e + lo + j) else bytes (mem w) (blk + q + (j - (q - lo)))) w)"
      using eq ct [of "log e" lo "q - lo" blk q "lo + n - q"] r(2-5) by simp
    then show ?thesis by (rule read_filled_cong) (use 5 in \<open>auto simp: v ac_simps e_def [symmetric]\<close>)
  qed
qed

text \<open>
  C14: A redo read of a part of a block returns the current contents of the block, the log
  where it has been written and the file elsewhere, in every case but one: when the log
  starts inside the request and ends strictly before it (for that case, see
  \<open>read_entry_past_log\<close>). It changes nothing but the buffer, and advances by the request.
\<close>

theorem read_entry_view:
  assumes "entry_ok w entry blk K" and "block_request w entry off blk K lo d n"
    and "fa + off = blk + lo"
    and "\<not> (0 < e_len (idxs w entry) \<and> lo \<le> e_offset (idxs w entry) \<and> e_offset (idxs w entry) + e_len (idxs w entry) < lo + n)"
  shows "read_entry entry d fa off n w =
    Inr (d + n, off + n, 0, filled d n (\<lambda>j. redo_view (bytes (mem w)) (idxs w entry) blk (lo + j)) w)"
  by (rule read_entry_view_result [OF assms])

theorem read_entry_view_witness:
  "read_entry 70 (2 ^ 15) (2 ^ 21) 90 30 (ex_logged REDO) =
     Inr (2 ^ 15 + 30, 120, 0,
          filled (2 ^ 15) 30 (\<lambda>j. redo_view ex_byte (idxs (ex_logged REDO) 70) (2 ^ 21) (90 + j)) (ex_logged REDO)) \<and>
   redo_view ex_byte (idxs (ex_logged REDO) 70) (2 ^ 21) 95 = 95 \<and>
   redo_view ex_byte (idxs (ex_logged REDO) 70) (2 ^ 21) 105 = 9"
proof -
  have "entry_ok (ex_logged REDO) 70 (2 ^ 21) 4096"
    by (simp add: entry_ok_def Let_def accessible_def disjoint_ranges_def LOG_SIZE_eq NR_LOG_SIZES_def)
  moreover have "block_request (ex_logged REDO) 70 90 (2 ^ 21) 4096 90 (2 ^ 15) 30"
    by (simp add: block_request_def Let_def accessible_def disjoint_ranges_def LOG_SIZE_eq LOG_OFFSET_mod)
  ultimately show ?thesis
    using read_entry_view [of "ex_logged REDO" 70 "2 ^ 21" 4096 90 90 "2 ^ 15" 30 "2 ^ 21"]
    by (simp add: redo_view_def in_range_def ex_byte_def)
qed

text \<open>
  C15: In the remaining case, the log starting inside the request and ending strictly before
  it, the bytes after the log are not those of the block: the offset of the last copy is
  advanced twice over the first two copies (\<^verbatim>\<open>src = (file_addr + offset) + (log_end -
  req_start)\<close> after \<^verbatim>\<open>offset += n\<close>), so they are taken \<open>q - lo\<close> bytes further on in the file.
\<close>

theorem read_entry_past_log:
  fixes w entry
  defines "p \<equiv> e_offset (idxs w entry)" and "q \<equiv> e_offset (idxs w entry) + e_len (idxs w entry)"
  assumes ok: "entry_ok w entry blk K" and req: "block_request w entry off blk K lo d n"
    and fa: "fa + off = blk + lo" and c: "0 < e_len (idxs w entry)" "lo \<le> p" "q < lo + n"
    and acc: "accessible (mem w) (blk + q + (q - lo)) (lo + n - q)"
      "disjoint_ranges d n (blk + q + (q - lo)) (lo + n - q)"
  shows "read_entry entry d fa off n w =
    Inr (d + n, off + n, 0, filled d n (\<lambda>j. if lo + j < q then redo_view (bytes (mem w)) (idxs w entry) blk (lo + j)
       else bytes (mem w) (blk + (lo + j) + (q - lo))) w)"
proof -
  define e where "e = idxs w entry"
  have r: "LOG_OFFSET off (log_size e) = lo" "0 < n" "lo + n \<le> K" "K \<le> LOG_SIZE (log_size e)" "q \<le> K" "p \<le> q"
    using req ok by (auto simp: block_request_def entry_ok_def Let_def e_def q_def p_def)
  note eq = read_entry_eq [where w = w and entry = entry, folded e_def, folded p_def [folded e_def] q_def [folded e_def], OF r(1) _ fa, of n d]
  let ?F = "\<lambda>j. if j < p - lo then bytes (mem w) (blk + lo + j) else bytes (mem w) (log e + p + (j - (p - lo)))"
  have two: "bindE (w_memcpy d (blk + lo) (p - lo) w) (w_memcpy (d + (p - lo)) (log e + p) (q - p)) = Inr (filled d (q - lo) ?F w)"
    using copy_block_then [OF ok req, of blk lo "p - lo" "log e" p "q - p"] c r by (simp add: e_def)
  have "accessible (mem w) (d + (q - lo)) (lo + n - q)"
    using block_request_sub(3) [OF req ok, of 0 0] accessible_sub [of "mem w" d n "d + (q - lo)" "lo + n - q"] c r by simp
  moreover have "disjoint_ranges d (q - lo) (blk + q + (q - lo)) (lo + n - q)"
    using acc(2) c r by (auto simp: disjoint_ranges_def)
  ultimately have three: "w_memcpy (d + (q - lo)) (blk + q + (q - lo)) (lo + n - q) (filled d (q - lo) ?F w) =
      Inr (filled d n (\<lambda>j. if j < q - lo then ?F j else bytes (mem w) (blk + q + (q - lo) + (j - (q - lo)))) w)"
    using w_memcpy_append [of w d "q - lo" "lo + n - q" "blk + q + (q - lo)" ?F] acc(1) c r by simp
  have "read_entry entry d fa off n w = Inr (d + n, off + n, 0,
      filled d n (\<lambda>j. if j < q - lo then ?F j else bytes (mem w) (blk + q + (q - lo) + (j - (q - lo)))) w)"
    using eq c r two three by (simp add: bindE_assoc [symmetric] e_def [symmetric])
  also have "filled d n (\<lambda>j. if j < q - lo then ?F j else bytes (mem w) (blk + q + (q - lo) + (j - (q - lo)))) w =
     filled d n (\<lambda>j. if lo + j < q then redo_view (bytes (mem w)) (idxs w entry) blk (lo + j)
       else bytes (mem w) (blk + (lo + j) + (q - lo))) w"
    using c r(2-6) by (intro filled_cong) (auto simp: redo_view_def in_range_def e_def p_def q_def ac_simps)
  finally show ?thesis .
qed

theorem read_entry_past_log_witness:
  "read_entry 70 (2 ^ 15) (2 ^ 21) 90 80 (ex_logged REDO) =
     Inr (2 ^ 15 + 80, 170, 0,
          filled (2 ^ 15) 80 (\<lambda>j. if 90 + j < 150 then redo_view ex_byte (idxs (ex_logged REDO) 70) (2 ^ 21) (90 + j)
             else ex_byte (2 ^ 21 + (90 + j) + 60)) (ex_logged REDO)) \<and>
   ex_byte (2 ^ 21 + (90 + 70) + 60) = 220 \<and> redo_view ex_byte (idxs (ex_logged REDO) 70) (2 ^ 21) (90 + 70) = 160"
proof -
  have "entry_ok (ex_logged REDO) 70 (2 ^ 21) 4096"
    by (simp add: entry_ok_def Let_def accessible_def disjoint_ranges_def LOG_SIZE_eq NR_LOG_SIZES_def)
  moreover have "block_request (ex_logged REDO) 70 90 (2 ^ 21) 4096 90 (2 ^ 15) 80"
    by (simp add: block_request_def Let_def accessible_def disjoint_ranges_def LOG_SIZE_eq LOG_OFFSET_mod)
  ultimately show ?thesis
    using read_entry_past_log [of "ex_logged REDO" 70 "2 ^ 21" 4096 90 90 "2 ^ 15" 80 "2 ^ 21"]
    by (simp add: redo_view_def in_range_def ex_byte_def accessible_def disjoint_ranges_def cong: if_cong)
qed

end
