(* ===== verification/RadixSpec.thy ===== *)
theory RadixSpec
  imports Example
begin

text \<open>
  What the radix tree of theory Radixlog promises: a search finds or creates the one leaf
  table of its two megabytes and changes no other (\<open>get_log_table\<close>), the tree that
  \<^verbatim>\<open>init_radixlog\<close> builds satisfies the invariant and reaches the whole file, and a log size
  that is just large enough.
\<close>

subsection \<open>Searching\<close>

lemma prev_index_le: "off div 2 ^ 21 mod 2 ^ 27 \<le> TABLE_MASK"
  using mod_less_divisor [of "2 ^ 27" "off div 2 ^ 21"] by (simp add: TABLE_MASK_def)

lemma chunk_idem: "(off div 2 ^ 21 mod 2 ^ 27 * 2 ^ 21) div 2 ^ 21 mod 2 ^ 27 = off div 2 ^ 21 mod (2 ^ 27 :: nat)"
  by simp

lemma find_chunk: "find_log_table w root (off div 2 ^ 21 mod 2 ^ 27 * 2 ^ 21) = find_log_table w root off"
  by (intro find_log_table_cong path_chunk chunk_idem)

lemma find_skip: "skip root = Some s \<Longrightarrow>
    find_log_table w root off = follow (tables w) s (path (ttype (tables w s)) off)"
  by (simp add: find_log_table_follow)

lemma radix_inv_prev:
  "radix_inv w root \<Longrightarrow> prev_table_index root \<le> TABLE_MASK \<Longrightarrow>
   find_log_table w root (prev_table_index root * 2 ^ 21) = prev_table root"
  by (simp only: radix_inv_def)

text \<open>The contract of a get-or-create search, for the tree before and after it.\<close>

definition found_table :: "world \<Rightarrow> radix_root \<Rightarrow> nat \<Rightarrow> ptr \<Rightarrow> radix_root \<Rightarrow> world \<Rightarrow> bool" where
  "found_table w root off tb root' w' \<longleftrightarrow>
     (\<forall>off'. find_log_table w' root' off' = (if same_leaf w root off off' then Some tb else find_log_table w root off')) \<and>
     (\<forall>off' x. find_log_table w root off' = Some x \<longrightarrow> tables w' x = tables w x) \<and>
     (find_log_table w root off = None \<longrightarrow> fresh_leaf (tables w' tb)) \<and>
     (\<forall>x. find_log_table w root off = Some x \<longrightarrow> x = tb) \<and>
     start_type w' root' = start_type w root \<and> only_tables w w'"

lemma found_table_walk:
  assumes s: "skip root = Some s" and wd: "walked w w' s (depth (ttype (tables w s))) (path (ttype (tables w s)) off) c"
  shows "found_table w root off c (root\<lparr>prev_table := Some c, prev_table_index := k\<rparr>) w'"
proof -
  let ?ty = "ttype (tables w s)" and ?r = "root\<lparr>prev_table := Some c, prev_table_index := k\<rparr>"
  have ty: "ttype (tables w' s) = ?ty" using wd by (simp add: walked_def)
  have f: "find_log_table w root x = follow (tables w) s (path ?ty x)"
    "find_log_table w' ?r x = follow (tables w') s (path ?ty x)" for x
    using s ty by (simp_all add: find_skip)
  have st: "start_type w root = ?ty" "start_type w' ?r = ?ty" using s ty by (simp_all add: start_type_def)
  have "find_log_table w' ?r x = (if same_leaf w root off x then Some c else find_log_table w root x)" for x
    unfolding f same_leaf_def st using wd by (auto simp: walked_def)
  moreover have "tables w' x = tables w x" if "find_log_table w root y = Some x" for x y
    using wd that length_path [of ?ty y] unfolding f walked_def by blast
  moreover have "start_type w' ?r = start_type w root" by (simp add: st)
  ultimately show ?thesis using wd unfolding found_table_def f walked_def by simp
qed

lemma get_log_table_result:
  assumes inv: "radix_inv w root" and r: "get_log_table t root off w = Inr (tb, root', w')"
  shows "radix_inv w' root'" and "found_table w root off tb root' w'"
proof -
  let ?k = "off div 2 ^ 21 mod 2 ^ 27"
  have "radix_inv w' root' \<and> found_table w root off tb root' w'"
  proof (cases "check_prev_table (prev_table_index root) off")
    case True
    then have k: "prev_table_index root = ?k" by (simp only: check_prev_table_iff)
    have e: "prev_table root = Some tb" "root' = root" "w' = w"
      using r True by (auto simp: get_log_table_def split: option.splits)
    have "find_log_table w root (?k * 2 ^ 21) = prev_table root"
      using radix_inv_prev [OF inv, unfolded k, OF prev_index_le] .
    then have "find_log_table w root off = Some tb" unfolding find_chunk e(1) .
    moreover have "find_log_table w root y = find_log_table w root off" if "same_leaf w root off y" for y
      using that find_log_table_cong [of w root off y] by (simp add: same_leaf_def)
    ultimately show ?thesis using inv e by (simp add: found_table_def only_tables_refl)
  next
    case False
    obtain s where s: "skip root = Some s" and ok: "tables_ok w s (depth (ttype (tables w s)))"
      using inv by (auto simp: radix_inv_def)
    have wk: "walk_log_table t s off w = Inr (tb, w')"
      and root': "root' = root\<lparr>prev_table := Some tb, prev_table_index := ?k\<rparr>"
      using r False s unfolding get_log_table_def prev_index_eq [symmetric] by (auto elim!: bindE_InrE)
    have wd: "walked w w' s (depth (ttype (tables w s))) (path (ttype (tables w s)) off) tb"
      by (rule walk_log_table_walked [OF ok wk])
    have fd: "found_table w root off tb root' w'" unfolding root' by (rule found_table_walk [OF s wd])
    have "find_log_table w' root' off = Some tb" using fd by (simp add: found_table_def same_leaf_def)
    then have "find_log_table w' root' (?k * 2 ^ 21) = Some tb" unfolding find_chunk .
    then show ?thesis using wd fd s by (simp add: radix_inv_def walked_def root')
  qed
  then show "radix_inv w' root'" and "found_table w root off tb root' w'" by auto
qed

subsection \<open>Which offsets share a leaf\<close>

lemma digits: "(x::nat) mod (2 ^ 9 * m) = y mod (2 ^ 9 * m) \<longleftrightarrow> x div 2 ^ 9 mod m = y div 2 ^ 9 mod m \<and> x mod 2 ^ 9 = y mod 2 ^ 9"
proof -
  have lt: "a mod 2 ^ 9 < 2 ^ 9" for a :: nat by simp
  have "2 ^ 9 * a + b = 2 ^ 9 * c + d \<longleftrightarrow> a = c \<and> b = d" if "b < 2 ^ 9" "d < 2 ^ 9" for a b c d :: nat
    using that by (metis add.commute div_mult_self4 div_less add_0 mod_mult_self4 mod_less power_eq_0_iff zero_neq_numeral)
  then show ?thesis unfolding mod_mult2_eq using lt by metis
qed

lemma path_eq_iff:
  "path ty off = path ty off' \<longleftrightarrow> off div 2 ^ 21 mod 2 ^ (9 * depth ty) = off' div 2 ^ 21 mod 2 ^ (9 * depth ty)"
proof -
  have i: "LMD_INDEX x = x div 2 ^ 21 mod 2 ^ 9" "LUD_INDEX x = x div 2 ^ 21 div 2 ^ 9 mod 2 ^ 9"
    "LGD_INDEX x = x div 2 ^ 21 div 2 ^ 9 div 2 ^ 9 mod 2 ^ 9" for x
    by (simp_all add: LMD_INDEX_eq LUD_INDEX_eq LGD_INDEX_eq div_mult2_eq [symmetric])
  show ?thesis
  proof (cases ty)
    case LUD
    have e: "2 ^ (9 * depth LUD) = (2::nat) ^ 9 * 2 ^ 9" by (simp add: depth_def)
    show ?thesis unfolding LUD path.simps list.inject i e digits by blast
  next
    case LGD
    have e: "2 ^ (9 * depth LGD) = (2::nat) ^ 9 * (2 ^ 9 * 2 ^ 9)" by (simp add: depth_def)
    show ?thesis unfolding LGD path.simps list.inject i e digits by blast
  qed (simp_all add: depth_def i)
qed

text \<open>The bytes that a search from a table of the given type can tell apart.\<close>

definition capacity :: "table_type \<Rightarrow> nat" where
  "capacity ty = 2 ^ (21 + 9 * depth ty)"

lemma same_leaf_iff:
  "same_leaf w root off off' \<longleftrightarrow>
     off div 2 ^ 21 mod 2 ^ (9 * depth (start_type w root)) = off' div 2 ^ 21 mod 2 ^ (9 * depth (start_type w root))"
  unfolding same_leaf_def by (rule path_eq_iff)

lemma same_leaf_below_capacity:
  assumes "off < capacity (start_type w root)" and "off' < capacity (start_type w root)"
  shows "same_leaf w root off off' \<longleftrightarrow> off div 2 ^ 21 = off' div 2 ^ 21"
proof -
  have "x div 2 ^ 21 < 2 ^ (9 * depth (start_type w root))" if "x < capacity (start_type w root)" for x
    using that by (intro less_mult_imp_div_less) (simp add: capacity_def power_add mult.commute)
  then show ?thesis using assms by (simp add: same_leaf_iff mod_less)
qed

lemma same_leaf_alias: "same_leaf w root (off + capacity (start_type w root)) off"
proof -
  let ?n = "2 ^ (9 * depth (start_type w root)) :: nat"
  have "(off + 2 ^ 21 * ?n) div 2 ^ 21 = off div 2 ^ 21 + ?n"
    using div_mult_self4 [of "2 ^ 21" ?n off] by (simp add: add.commute)
  then show ?thesis unfolding same_leaf_iff capacity_def power_add by simp
qed

subsection \<open>The only way to fail\<close>

lemma get_child_fail:
  assumes ok: "tables_ok w s d" and p: "follow (tables w) s ps = Some p" "length ps < d"
    and r: "get_child t ty p i w = Inl e"
  shows "e = Exit ''global->skip_list is empty''"
proof -
  have pi: "pool_inv (table_pool w)" using ok by (simp add: tables_ok_def)
  have none: "entries (tables w p) i = None" using r by (auto simp: get_child_def child_def split: option.splits)
  have pr: "p \<in> reached (tables w) s d" using p by (auto intro: reachedI)
  show ?thesis
  proof (cases "alloc_log_table t ty w")
    case (Inl e')
    then have "POP_PROVIDER t (table_pool w) = Inl e'"
      by (auto simp: alloc_log_table_def bindE_def split: sum.splits)
    moreover have "e = e'" using r none Inl by (simp add: get_child_def child_def ALLOC_TABLE_def)
    ultimately show ?thesis using POP_PROVIDER_fail [OF pi] by simp
  next
    case (Inr cw)
    obtain c w1 where "cw = (c, w1)" by (cases cw)
    note al = alloc_log_table_spec [OF pi Inr [unfolded this]]
    have "child w1 p i = None" using al(2,4) none pr ok by (auto simp: child_def tables_ok_def)
    then have False using r none Inr \<open>cw = (c, w1)\<close> by (simp add: get_child_def ALLOC_TABLE_def child_def)
    then show ?thesis ..
  qed
qed

text \<open>A level of the search either runs out of tables or goes on from the child.\<close>

lemma walk_level_fail:
  assumes w1: "walked w w1 s d ps p" and len: "length ps < d"
    and r: "bindE (get_child t ty p i w1) k = Inl e"
    and go: "\<And>c w2. walked w w2 s d (ps @ [i]) c \<Longrightarrow> k (c, w2) = Inl e \<Longrightarrow> e = Exit ''global->skip_list is empty''"
  shows "e = Exit ''global->skip_list is empty''"
proof (cases "get_child t ty p i w1")
  case (Inl e')
  then show ?thesis using r get_child_fail [OF _ _ len Inl, of s] w1 by (auto simp: walked_def)
next
  case (Inr x)
  obtain c w2 where x: "x = (c, w2)" by (cases x)
  show ?thesis using go [OF walked_step [OF w1 len Inr [unfolded x]]] r Inr x by simp
qed

lemma bindE_right: "bindE r Inr = r"
  by (cases r) simp_all

lemma walk_log_table_fail:
  assumes ok: "tables_ok w s (depth (ttype (tables w s)))" and r: "walk_log_table t s off w = Inl e"
  shows "e = Exit ''global->skip_list is empty''"
proof (cases "ttype (tables w s)")
  case TABLE
  then show ?thesis using r by (simp add: walk_log_table_def)
next
  case LMD
  then have "walked w w s 1 [] s" "bindE (get_child t TABLE s (LMD_INDEX off) w) Inr = Inl e"
    using r walked_start [OF ok] by (simp_all add: walk_log_table_def depth_def bindE_right)
  from walk_level_fail [OF this(1) _ this(2)] show ?thesis by simp
next
  case LUD
  then have a: "walked w w s 2 [] s" "bindE (get_child t LMD s (LUD_INDEX off) w)
      (\<lambda>(lmd, w). bindE (get_child t TABLE lmd (LMD_INDEX off) w) Inr) = Inl e"
    using r walked_start [OF ok] by (simp_all add: walk_log_table_def depth_def bindE_right)
  show ?thesis
  proof (rule walk_level_fail [OF a(1) _ a(2)])
    fix lmd w1
    assume "walked w w1 s 2 ([] @ [LUD_INDEX off]) lmd"
      "(\<lambda>(lmd, w). bindE (get_child t TABLE lmd (LMD_INDEX off) w) Inr) (lmd, w1) = Inl e"
    then show ?thesis using walk_level_fail [of w w1 s 2 _ lmd t TABLE "LMD_INDEX off" Inr e] by simp
  qed simp
next
  case LGD
  then have a: "walked w w s 3 [] s" "bindE (get_child t LUD s (LGD_INDEX off) w)
      (\<lambda>(lud, w). bindE (get_child t LMD lud (LUD_INDEX off) w)
      (\<lambda>(lmd, w). bindE (get_child t TABLE lmd (LMD_INDEX off) w) Inr)) = Inl e"
    using r walked_start [OF ok] by (simp_all add: walk_log_table_def depth_def bindE_right)
  show ?thesis
  proof (rule walk_level_fail [OF a(1) _ a(2)])
    fix lud w1
    assume b: "walked w w1 s 3 ([] @ [LGD_INDEX off]) lud"
      "(\<lambda>(lud, w). bindE (get_child t LMD lud (LUD_INDEX off) w)
        (\<lambda>(lmd, w). bindE (get_child t TABLE lmd (LMD_INDEX off) w) Inr)) (lud, w1) = Inl e"
    show ?thesis
    proof (rule walk_level_fail [OF b(1) _ b(2) [simplified]])
      fix lmd w2
      assume "walked w w2 s 3 (([] @ [LGD_INDEX off]) @ [LUD_INDEX off]) lmd"
        "(case (lmd, w2) of (lmd, w) \<Rightarrow> bindE (get_child t TABLE lmd (LMD_INDEX off) w) Inr) = Inl e"
      then show ?thesis using walk_level_fail [of w w2 s 3 _ lmd t TABLE "LMD_INDEX off" Inr e] by simp
    qed simp
  qed simp
qed

lemma get_log_table_fail:
  assumes inv: "radix_inv w root" and r: "get_log_table t root off w = Inl e"
  shows "e = Exit ''global->skip_list is empty''"
proof (cases "check_prev_table (prev_table_index root) off")
  case True
  then have "prev_table_index root = off div 2 ^ 21 mod 2 ^ 27" by (simp only: check_prev_table_iff)
  then have "prev_table_index root \<le> TABLE_MASK" using prev_index_le [of off] by metis
  then show ?thesis using inv r True by (auto simp: radix_inv_def get_log_table_def split: option.splits)
next
  case False
  obtain s where s: "skip root = Some s" and ok: "tables_ok w s (depth (ttype (tables w s)))"
    using inv by (auto simp: radix_inv_def)
  have "walk_log_table t s off w = Inl e"
    using r False s by (auto simp: get_log_table_def bindE_def split: sum.splits)
  then show ?thesis by (rule walk_log_table_fail [OF ok])
qed

subsection \<open>Building the tree\<close>

definition spare_tables :: "world \<Rightarrow> bool" where
  "spare_tables w \<longleftrightarrow> pool_inv (table_pool w) \<and> (\<forall>p \<in> avail (table_pool w). entries (tables w p) = (\<lambda>_. None))"

lemma spare_tables_alloc:
  assumes "spare_tables w" and "alloc_log_table t ty w = Inr (c, w1)"
  shows "spare_tables w1" and "c \<in> avail (table_pool w) - avail (table_pool w1)" and "fresh_leaf (tables w1 c)"
    and "ttype (tables w1 c) = ty" and "avail (table_pool w1) \<subseteq> avail (table_pool w)" and "only_tables w w1"
proof -
  note al = alloc_log_table_spec [OF _ assms(2)]
  have p: "pool_inv (table_pool w)" using assms(1) by (simp add: spare_tables_def)
  show "spare_tables w1" and "c \<in> avail (table_pool w) - avail (table_pool w1)" and "fresh_leaf (tables w1 c)"
    and "ttype (tables w1 c) = ty" and "avail (table_pool w1) \<subseteq> avail (table_pool w)" and "only_tables w w1"
    using al [OF p] assms(1) by (auto simp: spare_tables_def fresh_leaf_def)
qed

lemma spare_tables_set: "spare_tables w \<Longrightarrow> p \<notin> avail (table_pool w) \<Longrightarrow> spare_tables (set_table_entry p i v w)"
  by (auto simp: spare_tables_def set_table_entry_def)

lemma next_table_type_between: "NEXT_TABLE_TYPE ty = Some ty1 \<Longrightarrow> \<not> d \<le> ty1 \<Longrightarrow> d \<le> ty \<Longrightarrow> d = ty"
  by (cases d; cases ty) (auto simp: less_eq_table_type_def)

lemma next_table_type_none: "NEXT_TABLE_TYPE ty = None \<Longrightarrow> d \<le> ty \<Longrightarrow> d = ty"
  by (cases d; cases ty) (auto simp: less_eq_table_type_def)

text \<open>One round of the loop: a new table, linked into its parent.\<close>

lemma init_radix_link:
  assumes r: "init_radix_loop t deepest maxoff type parent root w = Inr (root', w')" and sp: "spare_tables w"
    and par: "\<forall>p. parent = Some p \<longrightarrow> p \<notin> avail (table_pool w)"
  obtains c root1 w2 where "(case NEXT_TABLE_TYPE type of
       None \<Rightarrow> Inr (root1\<lparr>skip := Some c, prev_table_index := 2 ^ 64 - 1\<rparr>, w2)
     | Some type1 \<Rightarrow>
         if deepest \<le> type1 then init_radix_loop t deepest maxoff type1 (Some c) root1 w2
         else Inr (root1\<lparr>skip := Some c, prev_table_index := 2 ^ 64 - 1\<rparr>, w2)) = Inr (root', w')"
    and "spare_tables w2" and "c \<notin> avail (table_pool w2)" and "fresh_leaf (tables w2 c)"
    and "ttype (tables w2 c) = type" and "only_tables w w2"
proof -
  obtain c w1 root1 w2 where al: "alloc_log_table t type w = Inr (c, w1)"
    and ln: "(case parent of
              None \<Rightarrow> Inr (root\<lparr>lgd := Some c\<rparr>, w1)
            | Some p \<Rightarrow>
                (case type of
                   LUD \<Rightarrow> Inr (root, set_table_entry p (LGD_INDEX maxoff) (Some c) w1)
                 | LMD \<Rightarrow> Inr (root, set_table_entry p (LUD_INDEX maxoff) (Some c) w1)
                 | TABLE \<Rightarrow> Inr (root, set_table_entry p (LMD_INDEX maxoff) (Some c) w1)
                 | LGD \<Rightarrow> Inl (Exit ''wrong table type''))) = Inr (root1, w2)"
    and go: "(case NEXT_TABLE_TYPE type of
       None \<Rightarrow> Inr (root1\<lparr>skip := Some c, prev_table_index := 2 ^ 64 - 1\<rparr>, w2)
     | Some type1 \<Rightarrow>
         if deepest \<le> type1 then init_radix_loop t deepest maxoff type1 (Some c) root1 w2
         else Inr (root1\<lparr>skip := Some c, prev_table_index := 2 ^ 64 - 1\<rparr>, w2)) = Inr (root', w')"
    using r by (subst (asm) init_radix_loop.simps) (auto elim!: bindE_InrE)
  note a = spare_tables_alloc [OF sp al]
  have "w2 = w1 \<or> (\<exists>p i. parent = Some p \<and> w2 = set_table_entry p i (Some c) w1)"
    using ln by (auto split: option.splits table_type.splits)
  then show thesis
  proof (elim disjE exE conjE)
    assume "w2 = w1"
    then show thesis using that [OF go] a by simp
  next
    fix p i assume p: "parent = Some p" "w2 = set_table_entry p i (Some c) w1"
    have "p \<notin> avail (table_pool w)" "p \<notin> avail (table_pool w1)" "p \<noteq> c" using p par a by auto
    then show thesis
      using that [OF go] a p spare_tables_set [OF a(1)] by (simp add: set_table_entry_def only_tables_def)
  qed
qed

lemma init_radix_loop_result:
  assumes "init_radix_loop t deepest maxoff type parent root w = Inr (root', w')"
    and "spare_tables w" and "\<forall>p. parent = Some p \<longrightarrow> p \<notin> avail (table_pool w)" and "deepest \<le> type"
  shows "\<exists>s. skip root' = Some s \<and> ttype (tables w' s) = deepest \<and> fresh_leaf (tables w' s) \<and>
     s \<notin> avail (table_pool w') \<and> spare_tables w' \<and> prev_table_index root' = 2 ^ 64 - 1 \<and> only_tables w w'"
  using assms
proof (induction t deepest maxoff type parent root w rule: init_radix_loop.induct)
  case (1 t deepest maxoff type parent root w)
  obtain c root1 w2 where go: "(case NEXT_TABLE_TYPE type of
       None \<Rightarrow> Inr (root1\<lparr>skip := Some c, prev_table_index := 2 ^ 64 - 1\<rparr>, w2)
     | Some type1 \<Rightarrow>
         if deepest \<le> type1 then init_radix_loop t deepest maxoff type1 (Some c) root1 w2
         else Inr (root1\<lparr>skip := Some c, prev_table_index := 2 ^ 64 - 1\<rparr>, w2)) = Inr (root', w')"
    and w2: "spare_tables w2" "c \<notin> avail (table_pool w2)" "fresh_leaf (tables w2 c)"
      "ttype (tables w2 c) = type" "only_tables w w2"
    by (rule init_radix_link [OF "1.prems"(1-3)])
  show ?case
  proof (cases "\<exists>type1. NEXT_TABLE_TYPE type = Some type1 \<and> deepest \<le> type1")
    case True
    then show ?thesis using "1.IH" go w2 only_tables_trans by (fastforce dest: only_tables_trans)
  next
    case False
    then have "deepest = type" using "1.prems"(4) next_table_type_between next_table_type_none
      by (cases "NEXT_TABLE_TYPE type") auto
    then show ?thesis using False go w2 by (auto split: option.splits)
  qed
qed

lemma single_table_ok:
  assumes "spare_tables w" and "entries (tables w s) = (\<lambda>_. None)" and "s \<notin> avail (table_pool w)"
  shows "tables_ok w s d"
proof -
  have f: "follow (tables w) s ps = Some x \<longleftrightarrow> ps = [] \<and> x = s" for ps x
    using assms(2) by (cases ps) auto
  show ?thesis using assms by (auto simp: tables_ok_def tree_inj_def reached_def f spare_tables_def)
qed

lemma init_radixlog_result:
  assumes "spare_tables w" and "init_radixlog t root filesize w = Inr (root', w')"
  shows "radix_inv w' root'" and "start_type w' root' = get_deepest_table_type (ul_sub filesize 1)"
    and "only_tables w w'"
    and "\<And>off. find_log_table w' root' off \<noteq> None \<longleftrightarrow> start_type w' root' = TABLE"
    and "\<And>off tb. find_log_table w' root' off = Some tb \<Longrightarrow> fresh_leaf (tables w' tb)"
    and "spare_tables w'"
proof -
  let ?d = "get_deepest_table_type (ul_sub filesize 1)"
  have "?d \<le> LGD" by (cases ?d) (simp_all add: less_eq_table_type_def)
  then obtain s where s: "skip root' = Some s" "ttype (tables w' s) = ?d" "fresh_leaf (tables w' s)"
     "s \<notin> avail (table_pool w')" "spare_tables w'" "prev_table_index root' = 2 ^ 64 - 1" "only_tables w w'"
    using init_radix_loop_result [of t ?d _ LGD None root w root' w'] assms
    by (auto simp: init_radixlog_def Let_def)
  then have e: "entries (tables w' s) = (\<lambda>_. None)" by (simp add: fresh_leaf_def)
  then show "radix_inv w' root'" using single_table_ok s by (simp add: radix_inv_def TABLE_MASK_def)
  show st: "start_type w' root' = ?d" using s by (simp add: start_type_def)
  show "only_tables w w'" "spare_tables w'" by (rule s(7), rule s(5))
  show "find_log_table w' root' off \<noteq> None \<longleftrightarrow> start_type w' root' = TABLE" for off
    unfolding st using s e by (cases ?d) (simp_all add: find_log_table_def child_def)
  show "fresh_leaf (tables w' tb)" if "find_log_table w' root' off = Some tb" for off tb
    using that s e by (cases ?d) (simp_all add: find_log_table_def child_def)
qed

lemma deepest_covers:
  assumes "0 < filesize" and "filesize \<le> 2 ^ 48"
  shows "filesize \<le> capacity (get_deepest_table_type (ul_sub filesize 1))"
    and "get_deepest_table_type (ul_sub filesize 1) = TABLE \<or>
         capacity (get_deepest_table_type (ul_sub filesize 1)) < 2 ^ 9 * filesize"
proof -
  have u: "ul_sub filesize 1 = filesize - 1" using assms by (intro ul_sub_ge) auto
  have z: "drop_bit k (filesize - 1) = 0 \<longleftrightarrow> filesize \<le> 2 ^ k" for k
    using assms(1) by (auto simp: drop_bit_eq_div div_eq_0_iff)
  show "filesize \<le> capacity (get_deepest_table_type (ul_sub filesize 1))"
    and "get_deepest_table_type (ul_sub filesize 1) = TABLE \<or>
         capacity (get_deepest_table_type (ul_sub filesize 1)) < 2 ^ 9 * filesize"
    using assms unfolding u get_deepest_table_type_def z by (auto simp: capacity_def depth_def layout_simps)
qed

lemma init_radix_loop_fail:
  assumes "init_radix_loop t deepest maxoff type parent root w = Inl e"
    and "spare_tables w" and "\<forall>p. parent = Some p \<longrightarrow> p \<notin> avail (table_pool w)" and "parent \<noteq> None \<longrightarrow> type \<noteq> LGD"
  shows "e = Exit ''global->skip_list is empty''"
  using assms
proof (induction t deepest maxoff type parent root w rule: init_radix_loop.induct)
  case (1 t deepest maxoff type parent root w)
  have pi: "pool_inv (table_pool w)" using "1.prems"(2) by (simp add: spare_tables_def)
  show ?case
  proof (cases "alloc_log_table t type w")
    case (Inl e')
    then have "POP_PROVIDER t (table_pool w) = Inl e'"
      by (auto simp: alloc_log_table_def bindE_def split: sum.splits)
    moreover have "e = e'" using "1.prems"(1) Inl by (subst (asm) init_radix_loop.simps) simp
    ultimately show ?thesis using POP_PROVIDER_fail [OF pi] by simp
  next
    case (Inr cw)
    obtain c w1 where cw: "cw = (c, w1)" by (cases cw)
    note a = spare_tables_alloc [OF "1.prems"(2) Inr [unfolded cw]]
    obtain type1 root1 w2 where n: "NEXT_TABLE_TYPE type = Some type1" "deepest \<le> type1"
      "init_radix_loop t deepest maxoff type1 (Some c) root1 w2 = Inl e"
      "w2 = w1 \<or> (\<exists>p i. parent = Some p \<and> w2 = set_table_entry p i (Some c) w1)"
      using "1.prems"(1,4) Inr cw
      by (subst (asm) init_radix_loop.simps) (auto split: option.splits table_type.splits if_splits)
    have "\<forall>p. parent = Some p \<longrightarrow> p \<notin> avail (table_pool w1)" using "1.prems"(3) a(5) by blast
    then have "spare_tables w2" using n(4) a(1) spare_tables_set [OF a(1)] by blast
    moreover have "c \<notin> avail (table_pool w2)" using n(4) a(2) by (auto simp: set_table_entry_def)
    moreover have "type1 \<noteq> LGD" using n(1) by (cases type) auto
    ultimately show ?thesis using "1.IH" [OF n(1,2,3)] by simp
  qed
qed

subsection \<open>The interface: get or create\<close>

text \<open>
  A store that returns the object of a key and creates it when there is none. Keys may share
  an object (\<open>same\<close>).
\<close>

locale get_or_create =
  fixes lookup :: "'s \<Rightarrow> 'k \<Rightarrow> 'v option"
    and get :: "'k \<Rightarrow> 's \<Rightarrow> ('v \<times> 's) res"
    and same :: "'s \<Rightarrow> 'k \<Rightarrow> 'k \<Rightarrow> bool"
    and inv :: "'s \<Rightarrow> bool"
  assumes get_inv: "inv s \<Longrightarrow> get k s = Inr (v, s') \<Longrightarrow> inv s' \<and> same s' = same s"
    and get_lookup: "inv s \<Longrightarrow> get k s = Inr (v, s') \<Longrightarrow>
      lookup s' k' = (if same s k k' then Some v else lookup s k')"
    and get_hit: "inv s \<Longrightarrow> lookup s k = Some x \<Longrightarrow> get k s = Inr (v, s') \<Longrightarrow> v = x"
    and lookup_same: "inv s \<Longrightarrow> same s k k' \<Longrightarrow> lookup s k = lookup s k'"
    and same_refl: "same s k k"
begin

lemma get_keeps:
  assumes "inv s" and "lookup s k = Some v" and "get k' s = Inr (v', s')"
  shows "inv s' \<and> lookup s' k = Some v"
proof (cases "same s k' k")
  case True
  then have "lookup s k' = Some v" using assms(1,2) lookup_same by simp
  then have "v' = v" using get_hit assms by blast
  then show ?thesis using True get_lookup [OF assms(1,3)] get_inv [OF assms(1,3)] by simp
next
  case False
  then show ?thesis using assms(2) get_lookup [OF assms(1,3)] get_inv [OF assms(1,3)] by simp
qed

lemma gets_keep:
  assumes "foldE (\<lambda>k s. bindE (get k s) (\<lambda>(v, s'). Inr s')) ks s = Inr s'" and "inv s" and "lookup s k = Some v"
  shows "inv s' \<and> lookup s' k = Some v"
proof (rule foldE_invariant [OF assms(1), where P = "\<lambda>s. inv s \<and> lookup s k = Some v"])
  show "inv s \<and> lookup s k = Some v" using assms by simp
next
  fix k' s s' assume "inv s \<and> lookup s k = Some v" and "bindE (get k' s) (\<lambda>(v, s'). Inr s') = Inr s'"
  then obtain v' where "get k' s = Inr (v', s')" "inv s" "lookup s k = Some v" by (auto elim!: bindE_InrE)
  then show "inv s' \<and> lookup s' k = Some v" using get_keeps by blast
qed

lemma get_stable:
  assumes "inv s" and "get k s = Inr (v, s1)"
    and "foldE (\<lambda>k s. bindE (get k s) (\<lambda>(v, s'). Inr s')) ks s1 = Inr s2"
    and "get k s2 = Inr (v', s3)"
  shows "v' = v"
proof -
  have "inv s1" "lookup s1 k = Some v" using get_inv [OF assms(1,2)] get_lookup [OF assms(1,2), of k] same_refl by simp_all
  then have "inv s2 \<and> lookup s2 k = Some v" using gets_keep assms(3) by blast
  then show ?thesis using get_hit assms(4) by blast
qed

end

text \<open>The radix tree provides it for leaf tables, the leaf table for index entries.\<close>

definition get_leaf :: "tid \<Rightarrow> nat \<Rightarrow> radix_root \<times> world \<Rightarrow> (ptr \<times> radix_root \<times> world) res" where
  "get_leaf t off = (\<lambda>(root, w). get_log_table t root off w)"

interpretation leaf: get_or_create "\<lambda>(root, w). find_log_table w root" "get_leaf t"
    "\<lambda>(root, w). same_leaf w root" "\<lambda>(root, w). radix_inv w root" for t
proof (unfold_locales, goal_cases)
  case (1 s k v s')
  then show ?case using get_log_table_result [of "snd s" "fst s"]
    by (cases s; cases s') (fastforce simp: get_leaf_def found_table_def same_leaf_def)
next
  case (2 s k v s' k')
  then show ?case using get_log_table_result(2) [of "snd s" "fst s"]
    by (cases s; cases s') (fastforce simp: get_leaf_def found_table_def)
next
  case (3 s k x v s')
  then show ?case using get_log_table_result(2) [of "snd s" "fst s"]
    by (cases s; cases s') (fastforce simp: get_leaf_def found_table_def)
next
  case (4 s k k')
  then show ?case using find_log_table_cong [of "snd s" "fst s" k k'] by (cases s) (simp add: same_leaf_def)
next
  case (5 s k)
  then show ?case by (cases s) (simp add: same_leaf_def)
qed

lemma get_log_entry_tables:
  assumes "get_log_entry t ep table index sz w = Inr (entry, w')"
  shows "tables w' = (if child w table index = None then tables (set_table_entry table index (Some entry) w) else tables w)"
    and "child w table index = Some x \<Longrightarrow> entry = x"
  using assms
  by (auto simp: get_log_entry_def alloc_idx_entry_def alloc_log_data_def Let_def child_def set_table_entry_def
      split: option.splits elim!: bindE_InrE)

interpretation slot: get_or_create "\<lambda>w (table, index). child w table index"
    "\<lambda>(table, index). get_log_entry t ep table index sz" "\<lambda>w. (=)" "\<lambda>w. True" for t ep sz
proof (unfold_locales, goal_cases)
  case (2 w k v w' k')
  obtain tb i where k: "k = (tb, i)" by (cases k)
  have "get_log_entry t ep tb i sz w = Inr (v, w')" using 2 k by simp
  note g = get_log_entry_tables(1) [OF this] get_log_entry_tables(2) [OF this]
  show ?case using g by (cases k') (auto simp: k child_def set_table_entry_def split: if_splits)
next
  case (3 w k x v w')
  then show ?case using get_log_entry_tables(2) [of t ep "fst k" "snd k" sz w v w' x] by (cases k) simp
qed simp_all

subsection \<open>Properties\<close>

text \<open>
  C18: A search of the radix tree either runs out of tables, and the process exits, or returns
  the leaf table of the offset: it is the one that \<^verbatim>\<open>find_log_table\<close> finds there from then on,
  the table found at every offset of other leaves is as before, no existing leaf is
  changed, a new leaf has no entries and no log size, and the invariant of the tree, its
  cache of the last leaf included, still holds.
\<close>

theorem get_log_table_correct:
  assumes "radix_inv w root"
  shows "case get_log_table t root off w of
      Inl e \<Rightarrow> e = Exit ''global->skip_list is empty''
    | Inr (tb, root', w') \<Rightarrow>
        radix_inv w' root' \<and> only_tables w w' \<and>
        (\<forall>off'. find_log_table w' root' off' = (if same_leaf w root off off' then Some tb else find_log_table w root off')) \<and>
        (\<forall>off' x. find_log_table w root off' = Some x \<longrightarrow> tables w' x = tables w x) \<and>
        (find_log_table w root off = None \<longrightarrow> fresh_leaf (tables w' tb))"
proof (cases "get_log_table t root off w")
  case (Inl e)
  then show ?thesis using get_log_table_fail [OF assms Inl] by simp
next
  case (Inr x)
  obtain tb root' w' where x: "x = (tb, root', w')" by (cases x)
  show ?thesis using get_log_table_result [OF assms Inr [unfolded x]] Inr x by (simp add: found_table_def)
qed

lemma ex_radix_inv: "radix_inv (ex_world p) ex_root"
proof -
  have "tables_ok (ex_world p) 50 0"
    by (auto simp: tables_ok_def tree_inj_def reached_def two_objects_inv)
  then show ?thesis by (simp add: radix_inv_def TABLE_MASK_def ex_table_def depth_def)
qed

theorem get_log_table_correct_witness:
  "get_log_table 0 ex_root 8192 (ex_world REDO) =
     Inr (50, ex_root\<lparr>prev_table := Some 50, prev_table_index := 0\<rparr>, ex_world REDO) \<and>
   radix_inv (ex_world REDO) (ex_root\<lparr>prev_table := Some 50, prev_table_index := 0\<rparr>)"
proof -
  have "\<not> check_prev_table (prev_table_index ex_root) 8192" unfolding check_prev_table_iff by simp
  then have g: "get_log_table 0 ex_root 8192 (ex_world REDO) =
      Inr (50, ex_root\<lparr>prev_table := Some 50, prev_table_index := 0\<rparr>, ex_world REDO)"
    unfolding get_log_table_def prev_index_eq by (simp add: walk_log_table_def) (simp add: ex_table_def)
  show ?thesis using get_log_table_correct [OF ex_radix_inv, where t = 0 and off = 8192, of REDO] unfolding g by simp
qed

text \<open>
  C19: The tree that \<^verbatim>\<open>init_radixlog\<close> builds for a file satisfies the invariant, has no logs, and
  starts its searches at the smallest table that covers the file: any two offsets within the
  file that are in different two-megabyte chunks have different leaves, and offsets in the
  same chunk share one. The only failure is running out of tables; in particular the
  \<^verbatim>\<open>wrong table type\<close> error cannot happen.
\<close>

theorem init_radixlog_correct:
  assumes "spare_tables w" and "0 < filesize" and "filesize \<le> 2 ^ 48"
  shows "case init_radixlog t root filesize w of
      Inl e \<Rightarrow> e = Exit ''global->skip_list is empty''
    | Inr (root', w') \<Rightarrow>
        radix_inv w' root' \<and> only_tables w w' \<and>
        filesize \<le> capacity (start_type w' root') \<and>
        (start_type w' root' = TABLE \<or> capacity (start_type w' root') < 2 ^ 9 * filesize) \<and>
        (\<forall>off off'. off < filesize \<and> off' < filesize \<longrightarrow>
           same_leaf w' root' off off' = (off div 2 ^ 21 = off' div 2 ^ 21))"
proof (cases "init_radixlog t root filesize w")
  case (Inl e)
  then have "e = Exit ''global->skip_list is empty''"
    using init_radix_loop_fail [OF _ assms(1)] by (simp add: init_radixlog_def Let_def)
  then show ?thesis using Inl by simp
next
  case (Inr x)
  obtain root' w' where x: "x = (root', w')" by (cases x)
  note r = init_radixlog_result [OF assms(1) Inr [unfolded x]]
  have "filesize \<le> capacity (start_type w' root')" using deepest_covers(1) [OF assms(2,3)] r(2) by simp
  moreover from this have "\<forall>off off'. off < filesize \<and> off' < filesize \<longrightarrow>
           same_leaf w' root' off off' = (off div 2 ^ 21 = off' div 2 ^ 21)"
    using same_leaf_below_capacity by (meson less_le_trans)
  moreover have "start_type w' root' = TABLE \<or> capacity (start_type w' root') < 2 ^ 9 * filesize"
    using deepest_covers(2) [OF assms(2,3)] r(2) by simp
  ultimately show ?thesis using r(1,3) Inr x by simp
qed

theorem init_radixlog_correct_witness:
  "\<exists>root' w'. init_radixlog 0 ex_root (2 ^ 48) (ex_world REDO) = Inr (root', w') \<and> radix_inv w' root' \<and>
     \<not> same_leaf w' root' 0 (2 ^ 47)"
proof -
  have sp: "spare_tables (ex_world REDO)" by (auto simp: spare_tables_def two_objects_inv)
  have "get_deepest_table_type (2 ^ 48 - 1) = LGD"
    by (simp add: get_deepest_table_type_def layout_simps drop_bit_eq_div)
  then obtain root' w' where g: "init_radixlog 0 ex_root (2 ^ 48) (ex_world REDO) = Inr (root', w')"
    by (simp add: init_radixlog_def Let_def ul_sub_ge init_radix_loop.simps alloc_log_table_def POP_PROVIDER_def
        refill_def fill_local_provider_def two_objects_def alloc_flist_def cut_splice_def less_eq_table_type_def)
  have "radix_inv w' root'" "\<forall>off off'. off < 2 ^ 48 \<and> off' < 2 ^ 48 \<longrightarrow>
           same_leaf w' root' off off' = (off div 2 ^ 21 = off' div 2 ^ 21)"
    using init_radixlog_correct [OF sp, where filesize = "2 ^ 48" and t = 0 and root = ex_root] unfolding g by simp_all
  moreover have "(0::nat) < 2 ^ 48" "(2::nat) ^ 47 < 2 ^ 48" "(0::nat) div 2 ^ 21 \<noteq> 2 ^ 47 div 2 ^ 21" by simp_all
  ultimately show ?thesis using g by blast
qed

text \<open>
  C20: The leaf of an offset never changes: whatever searches at whatever offsets come in
  between, a later search at an offset returns the table that the first one returned. So no
  log is lost by growing the tree.
\<close>

theorem get_log_table_stable:
  assumes "radix_inv w root" and "get_log_table t root off w = Inr (tb, root1, w1)"
    and "foldE (\<lambda>off s. bindE (get_leaf t off s) (\<lambda>(tb, s'). Inr s')) offs (root1, w1) = Inr (root2, w2)"
    and "get_log_table t root2 off w2 = Inr (tb', root3, w3)"
  shows "tb' = tb"
  using leaf.get_stable [of "(root, w)" t off tb "(root1, w1)" offs "(root2, w2)" tb' "(root3, w3)"] assms
  by (simp add: get_leaf_def)

theorem get_log_table_stable_witness:
  "\<exists>root2 w2 root3 w3.
     foldE (\<lambda>off s. bindE (get_leaf 0 off s) (\<lambda>(tb, s'). Inr s')) [2 ^ 21]
       (ex_root\<lparr>prev_table := Some 50, prev_table_index := 0\<rparr>, ex_world REDO) = Inr (root2, w2) \<and>
     get_log_table 0 root2 8192 w2 = Inr (50, root3, w3)"
proof -
  let ?r1 = "ex_root\<lparr>prev_table := Some 50, prev_table_index := 0\<rparr>"
  let ?r2 = "ex_root\<lparr>prev_table := Some 50, prev_table_index := 1\<rparr>"
  have c: "\<not> check_prev_table (2 ^ 64 - 1) 8192" "\<not> check_prev_table 0 (2 ^ 21)" "\<not> check_prev_table 1 8192"
    unfolding check_prev_table_iff by simp_all
  have g: "get_log_table 0 ex_root 8192 (ex_world REDO) = Inr (50, ?r1, ex_world REDO)"
    "get_log_table 0 ?r1 (2 ^ 21) (ex_world REDO) = Inr (50, ?r2, ex_world REDO)"
    "get_log_table 0 ?r2 8192 (ex_world REDO) = Inr (50, ?r1, ex_world REDO)"
    unfolding get_log_table_def prev_index_eq
    using c by (simp_all add: walk_log_table_def) (simp_all add: ex_table_def)
  have f: "foldE (\<lambda>off s. bindE (get_leaf 0 off s) (\<lambda>(tb, s'). Inr s')) [2 ^ 21] (?r1, ex_world REDO) = Inr (?r2, ex_world REDO)"
    unfolding foldE.simps get_leaf_def prod.case g(2) by simp
  have "50 = (50::nat)" by (rule get_log_table_stable [OF ex_radix_inv g(1) f g(3)])
  then show ?thesis using f g(3) by blast
qed

text \<open>
  C21: The log size chosen for a new leaf (\<^verbatim>\<open>set_log_size\<close>) is one of the ten sizes, and the
  smallest one whose logs can hold the request together with the part of its first page
  before it; only requests too large for two megabytes get the largest size anyway.
\<close>

theorem set_log_size_correct:
  assumes "0 < len" and "off mod 4096 + len < 2 ^ 64"
  shows "set_log_size off len < NR_LOG_SIZES \<and>
    (set_log_size off len = NR_LOG_SIZES - 1 \<or> off mod 4096 + len \<le> LOG_SIZE (set_log_size off len)) \<and>
    (\<forall>s < set_log_size off len. LOG_SIZE s < off mod 4096 + len)"
  using set_log_size_less set_log_size_fits [OF assms] set_log_size_minimal [OF assms] by (auto simp: NR_LOG_SIZES_def)

theorem set_log_size_correct_witness: "set_log_size 4000 5000 = 2"
proof -
  obtain s where s: "set_log_size 4000 5000 = s" by blast
  have "s = 9 \<or> 9000 \<le> LOG_SIZE s" "2 < s \<longrightarrow> LOG_SIZE 2 < 9000"
    using set_log_size_correct [of 5000 4000, unfolded s] by (simp_all add: NR_LOG_SIZES_def)
  moreover have "LOG_SIZE 2 = 16384" "LOG_SIZE 1 = 8192" "LOG_SIZE 0 = 4096" by (simp_all add: LOG_SIZE_eq)
  moreover have "s = 0 \<or> s = 1 \<or> s = 2 \<or> 2 < s" by linarith
  ultimately show ?thesis using s by (elim disjE) simp_all
qed

text \<open>
  C22: Offsets beyond what the tree covered when it was built fall on the tables of earlier
  offsets: a search at \<open>off\<close> and one a whole capacity further on find the same leaf and the
  same slot in it. The mapping can grow (\<^verbatim>\<open>expend_mmio\<close>), the start table never changes.
\<close>

theorem offsets_beyond_capacity_alias:
  fixes w root off
  defines "off' \<equiv> off + capacity (start_type w root)"
  assumes "s < NR_LOG_SIZES"
  shows "find_log_table w root off' = find_log_table w root off \<and> TABLE_INDEX s off' = TABLE_INDEX s off"
proof
  show "find_log_table w root off' = find_log_table w root off"
    unfolding off'_def using same_leaf_alias [of w root off] by (intro find_log_table_cong) (simp only: same_leaf_def)
  have "(2::nat) ^ 21 dvd capacity (start_type w root)" by (simp add: capacity_def power_add)
  then have "off' mod 2 ^ 21 = off mod 2 ^ 21" unfolding off'_def by (metis dvd_eq_mod_eq_0 mod_add_right_eq add_0_right)
  then show "TABLE_INDEX s off' = TABLE_INDEX s off" using assms by (simp only: TABLE_INDEX_eq)
qed

theorem offsets_beyond_capacity_alias_witness:
  "find_log_table (ex_world REDO) ex_root (100 + 2 ^ 21) = Some 50 \<and> TABLE_INDEX 0 (100 + 2 ^ 21) = TABLE_INDEX 0 100"
proof -
  have "capacity (start_type (ex_world REDO) ex_root) = 2 ^ 21"
    by (simp add: capacity_def start_type_def ex_table_def depth_def)
  moreover have "find_log_table (ex_world REDO) ex_root 100 = Some 50" by (simp add: find_log_table_def ex_table_def)
  ultimately show ?thesis
    using offsets_beyond_capacity_alias [where s = 0 and w = "ex_world REDO" and root = ex_root and off = 100] by (simp add: NR_LOG_SIZES_def)
qed

end
