(* ===== verification/FileSpec.thy ===== *)
theory FileSpec
  imports LogEntry RadixSpec
begin

text \<open>
  A file as its users see it: \<open>content w M off\<close> is the byte at offset \<open>off\<close>, from the log of
  the block or from the mapping. \<open>file_inv\<close> is the invariant that ties the radix tree, the
  entries, their logs and the pools together; the requests of mmio.c on one block refine the
  abstract file.
\<close>

subsection \<open>The contents of a file\<close>

definition mapped_len :: "mmio \<Rightarrow> nat" where
  "mapped_len m = end_addr m - start m"

definition leaf_size :: "world \<Rightarrow> ptr \<Rightarrow> nat \<Rightarrow> log_size_t" where
  "leaf_size w M off =
     (case find_log_table w (radixlog (mmios w M)) off of None \<Rightarrow> NR_LOG_SIZES | Some tb \<Rightarrow> tlog_size (tables w tb))"

definition entry_at :: "world \<Rightarrow> ptr \<Rightarrow> nat \<Rightarrow> ptr option" where
  "entry_at w M off =
     (case find_log_table w (radixlog (mmios w M)) off of
        None \<Rightarrow> None
      | Some tb \<Rightarrow>
          if tlog_size (tables w tb) < NR_LOG_SIZES
          then child w tb (TABLE_INDEX (tlog_size (tables w tb)) off) else None)"

definition bsize :: "world \<Rightarrow> ptr \<Rightarrow> nat \<Rightarrow> nat" where
  "bsize w M off = LOG_SIZE (leaf_size w M off)"

definition boff :: "world \<Rightarrow> ptr \<Rightarrow> nat \<Rightarrow> nat" where
  "boff w M off = off - off mod bsize w M off"

definition bpart :: "world \<Rightarrow> ptr \<Rightarrow> nat \<Rightarrow> nat" where
  "bpart w M off = min (bsize w M off) (mapped_len (mmios w M) - boff w M off)"

definition content :: "world \<Rightarrow> ptr \<Rightarrow> nat \<Rightarrow> byte" where
  "content w M off =
     (case entry_at w M off of
        None \<Rightarrow> bytes (mem w) (start (mmios w M) + off)
      | Some e \<Rightarrow> entry_view w e (start (mmios w M) + boff w M off) (off mod bsize w M off))"

subsection \<open>The invariant\<close>

text \<open>\<open>LA\<close> is the log area: all log space, in use or spare, lies in it.\<close>

definition map_ok :: "addr set \<Rightarrow> world \<Rightarrow> ptr \<Rightarrow> bool" where
  "map_ok LA w M \<longleftrightarrow>
     (let m = mmios w M in
      start m < end_addr m \<and> end_addr m \<le> 2 ^ 64 \<and> 2 ^ 21 dvd start m \<and>
      accessible (mem w) (start m) (mapped_len m) \<and> {start m..<end_addr m} \<inter> LA = {})"

definition leaves_ok :: "world \<Rightarrow> ptr \<Rightarrow> bool" where
  "leaves_ok w M \<longleftrightarrow>
     (let m = mmios w M; root = radixlog m in
      radix_inv w root \<and> mapped_len m \<le> capacity (start_type w root) \<and>
      (\<forall>off tb. find_log_table w root off = Some tb \<longrightarrow>
         tlog_size (tables w tb) \<le> NR_LOG_SIZES \<and>
         (tlog_size (tables w tb) = NR_LOG_SIZES \<longrightarrow> entries (tables w tb) = (\<lambda>_. None))))"

definition entry_fits :: "addr set \<Rightarrow> world \<Rightarrow> ptr \<Rightarrow> nat \<Rightarrow> ptr \<Rightarrow> bool" where
  "entry_fits LA w M off e \<longleftrightarrow>
     log_size (idxs w e) = leaf_size w M off \<and>
     entry_inv w M e (start (mmios w M) + boff w M off) (bpart w M off) \<and>
     {log (idxs w e)..<log (idxs w e) + bsize w M off} \<subseteq> LA \<and>
     (0 < e_len (idxs w e) \<longrightarrow> e_policy (idxs w e) = policy (mmios w M))"

definition logs_disjoint :: "world \<Rightarrow> ptr \<Rightarrow> ptr \<Rightarrow> bool" where
  "logs_disjoint w e e' \<longleftrightarrow>
     disjoint_ranges (log (idxs w e)) (LOG_SIZE (log_size (idxs w e)))
       (log (idxs w e')) (LOG_SIZE (log_size (idxs w e')))"

definition entries_ok :: "addr set \<Rightarrow> world \<Rightarrow> ptr \<Rightarrow> bool" where
  "entries_ok LA w M \<longleftrightarrow>
     (\<forall>off < mapped_len (mmios w M). \<forall>e. entry_at w M off = Some e \<longrightarrow> entry_fits LA w M off e) \<and>
     (\<forall>off < mapped_len (mmios w M). \<forall>off' < mapped_len (mmios w M). \<forall>e e'.
        entry_at w M off = Some e \<and> entry_at w M off' = Some e' \<longrightarrow>
        (if e = e' then boff w M off = boff w M off' else logs_disjoint w e e'))"

definition spares_ok :: "addr set \<Rightarrow> world \<Rightarrow> ptr \<Rightarrow> bool" where
  "spares_ok LA w M \<longleftrightarrow>
     pool_inv (idx_pool w) \<and> (\<forall>s < NR_LOG_SIZES. pool_inv (log_pool w s)) \<and>
     (\<forall>e \<in> avail (idx_pool w). united (idxs w e) = 0 \<and> (\<forall>off < mapped_len (mmios w M). entry_at w M off \<noteq> Some e)) \<and>
     (\<forall>s < NR_LOG_SIZES. \<forall>a \<in> avail (log_pool w s).
        accessible (mem w) a (LOG_SIZE s) \<and> {a..<a + LOG_SIZE s} \<subseteq> LA \<and>
        (\<forall>off < mapped_len (mmios w M). \<forall>e. entry_at w M off = Some e \<longrightarrow>
           disjoint_ranges (log (idxs w e)) (LOG_SIZE (log_size (idxs w e))) a (LOG_SIZE s))) \<and>
     (\<forall>s < NR_LOG_SIZES. \<forall>s' < NR_LOG_SIZES. \<forall>a \<in> avail (log_pool w s). \<forall>a' \<in> avail (log_pool w s').
        (s, a) \<noteq> (s', a') \<longrightarrow> disjoint_ranges a (LOG_SIZE s) a' (LOG_SIZE s'))"

definition file_inv :: "addr set \<Rightarrow> world \<Rightarrow> ptr \<Rightarrow> bool" where
  "file_inv LA w M \<longleftrightarrow> map_ok LA w M \<and> leaves_ok w M \<and> entries_ok LA w M \<and> spares_ok LA w M"

subsection \<open>Searching keeps the file\<close>

text \<open>Only the tree of the file has changed.\<close>

definition only_tree :: "ptr \<Rightarrow> world \<Rightarrow> world \<Rightarrow> bool" where
  "only_tree M w w' \<longleftrightarrow> mem w' = mem w \<and> ptrace w' = ptrace w \<and> idxs w' = idxs w \<and> idx_pool w' = idx_pool w \<and>
     log_pool w' = log_pool w \<and> mmio_pool w' = mmio_pool w \<and> bravo w' = bravo w \<and>
     (\<exists>r. mmios w' = (mmios w)(M := (mmios w M)\<lparr>radixlog := r\<rparr>))"

lemma radix_upd_mmio [simp]:
  "find_log_table (upd_mmio M f w) = find_log_table w" "same_leaf (upd_mmio M f w) = same_leaf w"
  "start_type (upd_mmio M f w) = start_type w" "radix_inv (upd_mmio M f w) = radix_inv w"
  by (auto simp: find_log_table_follow same_leaf_def start_type_def radix_inv_def tables_ok_def fun_eq_iff
      split: option.split)

lemma radix_upd_entry [simp]:
  "find_log_table (upd_entry p f w) = find_log_table w" "start_type (upd_entry p f w) = start_type w"
  "radix_inv (upd_entry p f w) = radix_inv w"
  by (auto simp: find_log_table_follow start_type_def radix_inv_def tables_ok_def fun_eq_iff split: option.split)

lemma entry_at_upd_entry [simp]:
  "entry_at (upd_entry p f w) = entry_at w" "leaf_size (upd_entry p f w) = leaf_size w"
  by (intro ext; simp add: entry_at_def leaf_size_def child_def split: option.split)+

lemma get_log_table_file:
  assumes ok: "leaves_ok w M" and r: "get_log_table t (radixlog (mmios w M)) off w = Inr (tb, root, w1)"
  defines "w2 \<equiv> upd_mmio M (\<lambda>m. m\<lparr>radixlog := root\<rparr>) w1"
  shows "leaves_ok w2 M" and "entry_at w2 M = entry_at w M" and "leaf_size w2 M = leaf_size w M"
    and "find_log_table w2 (radixlog (mmios w2 M)) off = Some tb" and "only_tree M w w2"
proof -
  let ?r = "radixlog (mmios w M)"
  have ri: "radix_inv w ?r" using ok by (simp add: leaves_ok_def Let_def)
  note g = get_log_table_result [OF ri r]
  have f: "find_log_table w1 root x = (if same_leaf w ?r off x then Some tb else find_log_table w ?r x)" for x
    using g(2) by (simp add: found_table_def)
  have old: "tables w1 y = tables w y" if "find_log_table w ?r x = Some y" for x y
    using g(2) that by (simp add: found_table_def)
  have m1: "mmios w1 = mmios w" using g(2) by (simp add: found_table_def only_tables_def)
  have same: "find_log_table w ?r x = find_log_table w ?r off" if "same_leaf w ?r off x" for x
    using that find_log_table_cong [of w ?r off x] by (simp add: same_leaf_def)
  show "only_tree M w w2"
    using g(2) by (auto simp: found_table_def only_tables_def only_tree_def w2_def intro!: exI [of _ root])
  have r2: "radixlog (mmios w2 M) = root" "find_log_table w2 = find_log_table w1" "tables w2 = tables w1"
    by (simp_all add: w2_def)
  show "find_log_table w2 (radixlog (mmios w2 M)) off = Some tb" using f by (simp add: r2 same_leaf_def)
  have hit: "\<And>y. find_log_table w ?r off = Some y \<Longrightarrow> y = tb" and new: "find_log_table w ?r off = None \<Longrightarrow> fresh_leaf (tables w1 tb)"
    and st: "start_type w1 root = start_type w ?r"
    using g(2) by (auto simp: found_table_def)
  have cases: "find_log_table w1 root x = find_log_table w ?r x \<and> (\<forall>y. find_log_table w ?r x = Some y \<longrightarrow> tables w1 y = tables w y) \<or>
      find_log_table w1 root x = Some tb \<and> find_log_table w ?r x = None \<and> fresh_leaf (tables w1 tb)" for x
  proof (cases "same_leaf w ?r off x")
    case True
    then show ?thesis using f [of x] same [OF True] old [of off] hit new by (cases "find_log_table w ?r off") auto
  qed (use f [of x] old [of x] in simp)
  show "entry_at w2 M = entry_at w M"
  proof
    fix x show "entry_at w2 M x = entry_at w M x"
      using cases [of x] by (auto simp: entry_at_def r2 child_def fresh_leaf_def split: option.splits)
  qed
  show "leaf_size w2 M = leaf_size w M"
  proof
    fix x show "leaf_size w2 M x = leaf_size w M x"
      using cases [of x] by (auto simp: leaf_size_def r2 fresh_leaf_def split: option.splits)
  qed
  have "tlog_size (tables w1 y) \<le> NR_LOG_SIZES \<and>
      (tlog_size (tables w1 y) = NR_LOG_SIZES \<longrightarrow> entries (tables w1 y) = (\<lambda>_. None))"
    if "find_log_table w1 root x = Some y" for x y
    using cases [of x] that ok by (auto simp: leaves_ok_def Let_def fresh_leaf_def)
  then show "leaves_ok w2 M"
    using ok g(1) m1 st by (simp add: leaves_ok_def Let_def w2_def mapped_len_def)
qed

text \<open>Setting the log size of a leaf changes neither the tree nor its entries.\<close>

lemma follow_cong: "(\<And>p. entries (h' p) = entries (h p)) \<Longrightarrow> follow h' p ps = follow h p ps"
  by (induction ps arbitrary: p) (auto split: option.split)

lemma radix_upd_size:
  fixes w tb s defines "w' \<equiv> upd_table tb (\<lambda>x. x\<lparr>tlog_size := s\<rparr>) w"
  shows "find_log_table w' root off = find_log_table w root off" and "start_type w' root = start_type w root"
    and "radix_inv w' root = radix_inv w root" and "same_leaf w' root = same_leaf w root"
proof -
  have e: "entries (tables w' p) = entries (tables w p)" "ttype (tables w' p) = ttype (tables w p)" for p
    by (simp_all add: w'_def)
  have f: "follow (tables w') p ps = follow (tables w) p ps" for p ps using follow_cong e(1) by blast
  show fd: "find_log_table w' root off = find_log_table w root off" for off
    by (simp add: find_log_table_follow f e split: option.split)
  show st: "start_type w' root = start_type w root" by (simp add: start_type_def e split: option.split)
  show "same_leaf w' root = same_leaf w root" by (intro ext) (simp add: same_leaf_def st)
  have "table_pool w' = table_pool w" by (simp add: w'_def)
  then have "tables_ok w' p d = tables_ok w p d" for p d
    by (simp add: tables_ok_def tree_inj_def reached_def f e)
  then show "radix_inv w' root = radix_inv w root" by (simp add: radix_inv_def e fd)
qed

lemma get_log_size_file:
  assumes ok: "leaves_ok w M" and f: "find_log_table w (radixlog (mmios w M)) off = Some tb"
    and r: "get_log_size tb off n w = (s, w')"
  shows "leaves_ok w' M" and "entry_at w' M = entry_at w M" and "leaf_size w' M off = s" and "s < NR_LOG_SIZES"
    and "\<And>x. leaf_size w' M x = leaf_size w M x \<or> entry_at w M x = None \<and> leaf_size w M x = NR_LOG_SIZES"
    and "find_log_table w' (radixlog (mmios w' M)) off = Some tb" and "only_tree M w w'"
proof -
  have le: "tlog_size (tables w tb) \<le> NR_LOG_SIZES" and
    none: "tlog_size (tables w tb) = NR_LOG_SIZES \<Longrightarrow> entries (tables w tb) = (\<lambda>_. None)"
    using ok f by (auto simp: leaves_ok_def Let_def)
  have "leaves_ok w' M \<and> entry_at w' M = entry_at w M \<and> leaf_size w' M off = s \<and> s < NR_LOG_SIZES \<and>
    (\<forall>x. leaf_size w' M x = leaf_size w M x \<or> entry_at w M x = None \<and> leaf_size w M x = NR_LOG_SIZES) \<and>
    find_log_table w' (radixlog (mmios w' M)) off = Some tb \<and> only_tree M w w'"
  proof (cases "tlog_size (tables w tb) = NR_LOG_SIZES")
    case False
    then have "s = tlog_size (tables w tb)" "w' = w" using r by (auto simp: get_log_size_def)
    moreover have "only_tree M w w" by (auto simp: only_tree_def intro!: exI [of _ "radixlog (mmios w M)"])
    ultimately show ?thesis using ok f le False by (simp add: leaf_size_def)
  next
    case True
    then have s: "s = set_log_size off n" and w': "w' = upd_table tb (\<lambda>x. x\<lparr>tlog_size := s\<rparr>) w"
      using r by (auto simp: get_log_size_def Let_def)
    note u = radix_upd_size [of tb s w, folded w']
    have m: "mmios w' = mmios w" by (simp add: w')
    have sl: "s < NR_LOG_SIZES" using s set_log_size_less by simp
    have t: "tables w' x = (if x = tb then (tables w tb)\<lparr>tlog_size := s\<rparr> else tables w x)" for x by (simp add: w')
    have "entry_at w' M x = entry_at w M x" for x
      using True none [OF True] by (simp add: entry_at_def u m t child_def split: option.split)
    moreover have "leaf_size w' M x = leaf_size w M x \<or> entry_at w M x = None \<and> leaf_size w M x = NR_LOG_SIZES" for x
      using True none [OF True] by (simp add: leaf_size_def entry_at_def u m t split: option.split)
    moreover have "leaves_ok w' M" using ok sl by (auto simp: leaves_ok_def Let_def u m t)
    moreover have "only_tree M w w'" by (auto simp: only_tree_def w' intro!: exI [of _ "radixlog (mmios w M)"])
    ultimately show ?thesis using f sl by (auto simp: leaf_size_def u m t)
  qed
  then show "leaves_ok w' M" and "entry_at w' M = entry_at w M" and "leaf_size w' M off = s" and "s < NR_LOG_SIZES"
    and "\<And>x. leaf_size w' M x = leaf_size w M x \<or> entry_at w M x = None \<and> leaf_size w M x = NR_LOG_SIZES"
    and "find_log_table w' (radixlog (mmios w' M)) off = Some tb" and "only_tree M w w'"
    by blast+
qed

subsection \<open>Blocks\<close>

lemma LOG_SIZE_dvd: "s < NR_LOG_SIZES \<Longrightarrow> LOG_SIZE s dvd 2 ^ 21"
  by (metis NR_ENTRIES_LOG_SIZE dvd_triv_right)

lemma block_geometry:
  assumes m: "map_ok LA w M" and off: "off < mapped_len (mmios w M)" and s: "leaf_size w M off < NR_LOG_SIZES"
  shows "LOG_SIZE (leaf_size w M off) dvd start (mmios w M) + boff w M off"
    and "boff w M off + bpart w M off \<le> mapped_len (mmios w M)"
    and "boff w M off + off mod bsize w M off = off" and "off mod bsize w M off < bpart w M off"
    and "start (mmios w M) + boff w M off + bpart w M off \<le> 2 ^ 64"
    and "accessible (mem w) (start (mmios w M) + boff w M off) (bpart w M off)"
    and "{start (mmios w M) + boff w M off..<start (mmios w M) + boff w M off + bpart w M off} \<inter> LA = {}"
proof -
  let ?S = "bsize w M off" and ?m = "mmios w M"
  have mm: "start ?m < end_addr ?m" "end_addr ?m \<le> 2 ^ 64" "2 ^ 21 dvd start ?m"
    "accessible (mem w) (start ?m) (mapped_len ?m)" "{start ?m..<end_addr ?m} \<inter> LA = {}"
    using m by (simp_all add: map_ok_def Let_def)
  have S: "0 < ?S" "?S dvd 2 ^ 21" using s LOG_SIZE_dvd by (simp_all add: bsize_def)
  show eq: "boff w M off + off mod ?S = off" by (simp add: boff_def)
  show le: "boff w M off + bpart w M off \<le> mapped_len ?m" using off by (auto simp: bpart_def boff_def)
  have "?S dvd boff w M off" unfolding boff_def by (simp add: minus_mod_eq_mult_div)
  moreover have "?S dvd start ?m" using S(2) mm(3) dvd_trans by blast
  ultimately show "LOG_SIZE (leaf_size w M off) dvd start ?m + boff w M off" by (simp add: bsize_def)
  have "off mod ?S < ?S" using S by simp
  moreover have "off mod ?S < mapped_len ?m - boff w M off" using eq off by linarith
  ultimately show "off mod ?S < bpart w M off" by (simp add: bpart_def)
  have e: "start ?m + mapped_len ?m = end_addr ?m" using mm(1) by (simp add: mapped_len_def)
  show "start ?m + boff w M off + bpart w M off \<le> 2 ^ 64" using le mm(2) e by linarith
  show "accessible (mem w) (start ?m + boff w M off) (bpart w M off)"
    using le by (intro accessible_sub [OF mm(4)]) auto
  show "{start ?m + boff w M off..<start ?m + boff w M off + bpart w M off} \<inter> LA = {}"
  proof -
    have "{start ?m + boff w M off..<start ?m + boff w M off + bpart w M off} \<subseteq> {start ?m..<end_addr ?m}"
      using le e by auto
    then show ?thesis using mm(5) by blast
  qed
qed

text \<open>Offsets with the same leaf and the same index are those of one block.\<close>

lemma same_leaf_chunk:
  assumes ok: "leaves_ok w M" and x: "x < mapped_len (mmios w M)" "y < mapped_len (mmios w M)"
    and f: "find_log_table w (radixlog (mmios w M)) x = Some tb"
  shows "find_log_table w (radixlog (mmios w M)) y = Some tb \<longleftrightarrow> x div 2 ^ 21 = y div 2 ^ 21"
proof -
  let ?r = "radixlog (mmios w M)"
  have cap: "mapped_len (mmios w M) \<le> capacity (start_type w ?r)" and ri: "radix_inv w ?r"
    using ok by (simp_all add: leaves_ok_def Let_def)
  have sl: "same_leaf w ?r x y \<longleftrightarrow> x div 2 ^ 21 = y div 2 ^ 21"
    using x cap by (intro same_leaf_below_capacity) simp_all
  obtain s where s: "skip ?r = Some s" and t: "tree_inj (tables w) s (depth (ttype (tables w s)))"
    using ri by (auto simp: radix_inv_def tables_ok_def)
  have fl: "find_log_table w ?r z = follow (tables w) s (path (ttype (tables w s)) z)" for z using find_skip [OF s] .
  have "same_leaf w ?r x y" if "find_log_table w ?r y = Some tb"
    using t f that unfolding fl tree_inj_def same_leaf_def by (simp add: start_type_def s)
  moreover have "find_log_table w ?r y = Some tb" if "same_leaf w ?r x y"
    using find_log_table_cong [of w ?r x y] that f by (simp add: same_leaf_def)
  ultimately show ?thesis using sl by blast
qed

lemma index_block:
  assumes s: "s < NR_LOG_SIZES"
  shows "x div 2 ^ 21 = y div 2 ^ 21 \<and> TABLE_INDEX s x = TABLE_INDEX s y \<longleftrightarrow> x div LOG_SIZE s = y div LOG_SIZE s"
proof -
  obtain k where k: "(2::nat) ^ 21 = LOG_SIZE s * k" using LOG_SIZE_dvd [OF s] by (elim dvdE)
  have kpos: "0 < k" using k by (metis gr0I mult_0_right power_not_zero zero_neq_numeral)
  have i: "TABLE_INDEX s z = z div LOG_SIZE s mod k" for z
    unfolding TABLE_INDEX_eq [OF s] k by (simp add: mod_mult2_eq kpos)
  have c: "z div 2 ^ 21 = z div LOG_SIZE s div k" for z unfolding k by (simp add: div_mult2_eq)
  show ?thesis unfolding i c by (metis div_mult_mod_eq)
qed

subsection \<open>Changes that the file does not notice\<close>

definition agree :: "ptr \<Rightarrow> world \<Rightarrow> world \<Rightarrow> bool" where
  "agree M w w' \<longleftrightarrow>
     (let m = mmios w M; m' = mmios w' M in
      regions (mem w') = regions (mem w) \<and> entry_at w' M = entry_at w M \<and>
      (\<forall>x. entry_at w M x \<noteq> None \<longrightarrow> leaf_size w' M x = leaf_size w M x) \<and>
      (\<forall>p. united (idxs w' p) = united (idxs w p) \<and> log (idxs w' p) = log (idxs w p) \<and>
           dst (idxs w' p) = dst (idxs w p) \<and> log_size (idxs w' p) = log_size (idxs w p)) \<and>
      start m' = start m \<and> end_addr m' = end_addr m \<and> policy m' = policy m \<and> epoch m' = epoch m \<and>
      idx_pool w' = idx_pool w \<and> log_pool w' = log_pool w)"

lemma agree_trans: "agree M w w1 \<Longrightarrow> agree M w1 w2 \<Longrightarrow> agree M w w2"
  by (simp add: agree_def Let_def)

lemma agree_fields:
  assumes "agree M w w'"
  shows "e_epoch (idxs w' p) = e_epoch (idxs w p)" "e_offset (idxs w' p) = e_offset (idxs w p)"
    "e_len (idxs w' p) = e_len (idxs w p)" "e_policy (idxs w' p) = e_policy (idxs w p)"
    "united (idxs w' p) = united (idxs w p)" "log (idxs w' p) = log (idxs w p)"
    "dst (idxs w' p) = dst (idxs w p)" "log_size (idxs w' p) = log_size (idxs w p)"
    "mapped_len (mmios w' M) = mapped_len (mmios w M)" "start (mmios w' M) = start (mmios w M)"
    "end_addr (mmios w' M) = end_addr (mmios w M)" "policy (mmios w' M) = policy (mmios w M)"
    "epoch (mmios w' M) = epoch (mmios w M)" "accessible (mem w') = accessible (mem w)"
    "entry_at w' M = entry_at w M" "idx_pool w' = idx_pool w" "log_pool w' = log_pool w"
  using assms by (simp_all add: agree_def Let_def e_epoch_def e_offset_def e_len_def e_policy_def mapped_len_def
      accessible_def fun_eq_iff)

lemma agree_block:
  assumes "agree M w w'" and "entry_at w M x \<noteq> None"
  shows "leaf_size w' M x = leaf_size w M x" "bsize w' M x = bsize w M x" "boff w' M x = boff w M x"
    "bpart w' M x = bpart w M x"
proof -
  show l: "leaf_size w' M x = leaf_size w M x" using assms by (simp add: agree_def Let_def)
  show b: "bsize w' M x = bsize w M x" by (simp add: bsize_def l)
  show o: "boff w' M x = boff w M x" by (simp add: boff_def b)
  show "bpart w' M x = bpart w M x" using agree_fields(9) [OF assms(1)] by (simp add: bpart_def b o)
qed

lemma agree_entry_inv: "agree M w w' \<Longrightarrow> entry_inv w' M e blk K = entry_inv w M e blk K"
  by (simp add: entry_inv_def entry_ok_def Let_def agree_fields [of M w w'])

lemma agree_inv:
  assumes a: "agree M w w'"
  shows "map_ok LA w' M = map_ok LA w M" and "entries_ok LA w' M = entries_ok LA w M"
    and "spares_ok LA w' M = spares_ok LA w M"
proof -
  note f = agree_fields [OF a] and b = agree_block [OF a] and ei = agree_entry_inv [OF a]
  show "map_ok LA w' M = map_ok LA w M" by (simp add: map_ok_def Let_def f)
  have "entry_fits LA w' M x e = entry_fits LA w M x e" if "entry_at w M x = Some e" for x e
    using that by (simp add: entry_fits_def f b ei)
  moreover have "boff w' M x = boff w M x" if "entry_at w M x = Some e" for x e using that b by simp
  ultimately show "entries_ok LA w' M = entries_ok LA w M"
    by (simp add: entries_ok_def f logs_disjoint_def)
  show "spares_ok LA w' M = spares_ok LA w M" by (simp add: spares_ok_def f)
qed

lemma agree_content:
  assumes a: "agree M w w'" and b: "bytes (mem w') = bytes (mem w)"
  shows "content w' M = content w M"
proof
  fix x
  show "content w' M x = content w M x"
    using agree_block [OF a, of x]
    by (cases "entry_at w M x") (simp_all add: content_def entry_view_def redo_view_def agree_fields [OF a] b)
qed

lemma agree_tree:
  assumes "only_tree M w w'" and "entry_at w' M = entry_at w M"
    and "\<And>x. leaf_size w' M x = leaf_size w M x \<or> entry_at w M x = None"
  shows "agree M w w'"
  using assms by (auto simp: agree_def only_tree_def Let_def) (metis option.distinct(1))

lemma agree_lock: "agree M w (upd_entry p (\<lambda>e. e\<lparr>rwlockp := l\<rparr>) w)"
  by (simp add: agree_def Let_def)

subsection \<open>Creating an entry\<close>

text \<open>The slots of a leaf are below the tree: filling one does not change it.\<close>

lemma follow_leaf_slot:
  assumes inj: "tree_inj h s d" and tb: "follow h s qs = Some tb" "length qs = d"
    and h': "\<And>p. p \<noteq> tb \<Longrightarrow> entries (h' p) = entries (h p)"
  shows "length ps \<le> d \<Longrightarrow> follow h' s ps = follow h s ps"
proof (induction ps rule: rev_induct)
  case Nil
  then show ?case by simp
next
  case (snoc j ps)
  then have IH: "follow h' s ps = follow h s ps" by simp
  have "q \<noteq> tb" if "follow h s ps = Some q" for q
  proof
    assume "q = tb"
    then have "ps = qs" using inj tb that snoc.prems unfolding tree_inj_def by (metis Suc_leD length_append_singleton order_refl)
    then show False using tb(2) snoc.prems by simp
  qed
  then show ?case using IH h' by (auto simp: follow_snoc split: option.split)
qed

lemma radix_set_slot:
  fixes w tb i v
  assumes inv: "radix_inv w root" and f: "find_log_table w root off = Some tb"
  defines "w' \<equiv> set_table_entry tb i v w"
  shows "radix_inv w' root" and "find_log_table w' root x = find_log_table w root x" and "start_type w' root = start_type w root"
proof -
  obtain s where s: "skip root = Some s" and ok: "tables_ok w s (depth (ttype (tables w s)))"
    using inv by (auto simp: radix_inv_def)
  let ?d = "depth (ttype (tables w s))"
  have inj: "tree_inj (tables w) s ?d" using ok by (simp add: tables_ok_def)
  have tb: "follow (tables w) s (path (ttype (tables w s)) off) = Some tb" using f find_skip [OF s] by simp
  have e: "entries (tables w' p) = entries (tables w p)" if "p \<noteq> tb" for p using that by (simp add: w'_def set_table_entry_def)
  have ty: "ttype (tables w' p) = ttype (tables w p)" for p by (simp add: w'_def set_table_entry_def)
  have fl: "follow (tables w') s ps = follow (tables w) s ps" if "length ps \<le> ?d" for ps
    by (rule follow_leaf_slot [OF inj tb _ e that]) simp_all
  show fd: "find_log_table w' root x = find_log_table w root x" for x using fl by (simp add: find_skip [OF s] ty)
  show "start_type w' root = start_type w root" by (simp add: start_type_def ty split: option.split)
  have r: "reached (tables w') s ?d = reached (tables w) s ?d" using fl by (auto simp: reached_def)
  have "tree_inj (tables w') s ?d" using inj fl unfolding tree_inj_def by metis
  moreover have "tb \<in> reached (tables w) s ?d" by (rule reachedI [OF tb]) simp
  moreover have "table_pool w' = table_pool w" by (simp add: w'_def set_table_entry_def)
  moreover have "entries (tables w' p) = (\<lambda>_. None)" if "p \<in> avail (table_pool w)" for p
  proof -
    have "p \<noteq> tb" using that ok \<open>tb \<in> reached (tables w) s ?d\<close> by (auto simp: tables_ok_def)
    then show ?thesis using e that ok by (simp add: tables_ok_def)
  qed
  ultimately have "tables_ok w' s ?d" using ok r by (simp add: tables_ok_def)
  then show "radix_inv w' root" using inv s fd by (simp add: radix_inv_def ty)
qed

definition new_entry :: "nat \<Rightarrow> addr \<Rightarrow> idx_entry \<Rightarrow> idx_entry" where
  "new_entry ep data e = set_epoch ep (e\<lparr>log := data, rwlockp := RWLOCK_INIT\<rparr>)"

lemma get_log_entry_new:
  assumes none: "child w tb i = None" and r: "get_log_entry t ep tb i s w = Inr (entry, w')"
    and p: "pool_inv (idx_pool w)" "pool_inv (log_pool w s)"
  obtains data ip lp where "entry \<in> avail (idx_pool w)" and "data \<in> avail (log_pool w s)"
    and "pool_inv ip" and "avail ip = avail (idx_pool w) - {entry}"
    and "pool_inv lp" and "avail lp = avail (log_pool w s) - {data}"
    and "w' = set_table_entry tb i (Some entry) (upd_entry entry (new_entry ep data)
            (w\<lparr>idx_pool := ip, log_pool := (log_pool w)(s := lp)\<rparr>))"
proof -
  obtain ip data lp where a: "POP_PROVIDER t (idx_pool w) = Inr (entry, ip)" "POP_PROVIDER t (log_pool w s) = Inr (data, lp)"
    and w': "w' = set_table_entry tb i (Some entry) (upd_entry entry (set_epoch ep)
        (upd_entry entry (\<lambda>e. e\<lparr>log := data, rwlockp := RWLOCK_INIT\<rparr>)
            (w\<lparr>idx_pool := ip, log_pool := (log_pool w)(s := lp)\<rparr>)))"
    using r none unfolding get_log_entry_def alloc_idx_entry_def alloc_log_data_def Let_def
    by (auto simp: child_def elim!: bindE_InrE split: option.splits)
  have "upd_entry entry (set_epoch ep) (upd_entry entry (\<lambda>e. e\<lparr>log := data, rwlockp := RWLOCK_INIT\<rparr>) x) =
      upd_entry entry (new_entry ep data) x" for x
    by (simp add: upd_entry_def new_entry_def)
  then show thesis using that [of data ip lp] fl.alloc_law [OF p(1) a(1)] fl.alloc_law [OF p(2) a(2)] w' by simp
qed

text \<open>What the file looks like with a new, empty entry for the block of \<open>off\<close>.\<close>

definition created :: "ptr \<Rightarrow> nat \<Rightarrow> log_size_t \<Rightarrow> ptr \<Rightarrow> addr \<Rightarrow> world \<Rightarrow> world \<Rightarrow> bool" where
  "created M off s entry data w w' \<longleftrightarrow>
     (\<forall>x < mapped_len (mmios w M). entry_at w' M x =
        (if x div LOG_SIZE s = off div LOG_SIZE s then Some entry else entry_at w M x)) \<and>
     leaf_size w' M = leaf_size w M \<and> mem w' = mem w \<and> mmios w' = mmios w \<and>
     (\<forall>p. p \<noteq> entry \<longrightarrow> idxs w' p = idxs w p) \<and>
     log (idxs w' entry) = data \<and> log_size (idxs w' entry) = s \<and>
     e_len (idxs w' entry) = 0 \<and> e_offset (idxs w' entry) = 0 \<and>
     entry \<in> avail (idx_pool w) \<and> data \<in> avail (log_pool w s) \<and>
     pool_inv (idx_pool w') \<and> avail (idx_pool w') = avail (idx_pool w) - {entry} \<and>
     (\<forall>r < NR_LOG_SIZES. pool_inv (log_pool w' r)) \<and>
     (\<forall>r. avail (log_pool w' r) = (if r = s then avail (log_pool w s) - {data} else avail (log_pool w r))) \<and>
     (\<forall>x < mapped_len (mmios w M). x div LOG_SIZE s = off div LOG_SIZE s \<longrightarrow>
        leaf_size w M x = s \<and> entry_at w M x = None)"

lemma radix_cong:
  assumes "tables w' = tables w"
  shows "find_log_table w' = find_log_table w" and "start_type w' = start_type w"
    and "table_pool w' = table_pool w \<Longrightarrow> radix_inv w' = radix_inv w"
proof -
  show fd: "find_log_table w' = find_log_table w"
    by (intro ext) (simp add: find_log_table_follow assms split: option.split)
  show "start_type w' = start_type w" by (intro ext) (simp add: start_type_def assms split: option.split)
  show "table_pool w' = table_pool w \<Longrightarrow> radix_inv w' = radix_inv w"
    by (intro ext) (simp add: radix_inv_def tables_ok_def assms fd)
qed

lemma get_log_entry_created:
  assumes ok: "leaves_ok w M" and sp: "spares_ok LA w M" and f: "find_log_table w (radixlog (mmios w M)) off = Some tb"
    and s: "leaf_size w M off = s" "s < NR_LOG_SIZES" and off: "off < mapped_len (mmios w M)"
    and none: "child w tb (TABLE_INDEX s off) = None"
    and r: "get_log_entry t ep tb (TABLE_INDEX s off) s w = Inr (entry, w')"
  defines "w2 \<equiv> upd_entry entry (\<lambda>e. e\<lparr>log_size := s\<rparr>) w'"
  shows "leaves_ok w2 M \<and> (\<exists>data. created M off s entry data w w2) \<and> rwlockp (idxs w2 entry) = RWLOCK_INIT"
proof -
  let ?r = "radixlog (mmios w M)" and ?i = "TABLE_INDEX s off"
  have p: "pool_inv (idx_pool w)" "pool_inv (log_pool w s)" using sp s by (auto simp: spares_ok_def)
  obtain data ip lp where d: "entry \<in> avail (idx_pool w)" "data \<in> avail (log_pool w s)"
    and ip: "pool_inv ip" "avail ip = avail (idx_pool w) - {entry}"
    and lp: "pool_inv lp" "avail lp = avail (log_pool w s) - {data}"
    and w': "w' = set_table_entry tb ?i (Some entry) (upd_entry entry (new_entry ep data)
            (w\<lparr>idx_pool := ip, log_pool := (log_pool w)(s := lp)\<rparr>))"
    by (rule get_log_entry_new [OF none r p])
  have ri: "radix_inv w ?r" using ok by (simp add: leaves_ok_def Let_def)
  note slot = radix_set_slot [OF ri f, of ?i "Some entry"]
  have w2: "tables w2 = tables (set_table_entry tb ?i (Some entry) w)" "table_pool w2 = table_pool (set_table_entry tb ?i (Some entry) w)"
    "mmios w2 = mmios w" "mem w2 = mem w" by (simp_all add: w2_def w' set_table_entry_def)
  have rx: "find_log_table w2 ?r x = find_log_table w ?r x" "start_type w2 ?r = start_type w ?r" "radix_inv w2 ?r" for x
    using slot radix_cong [OF w2(1)] w2(2) by simp_all
  have sz: "tlog_size (tables w2 q) = tlog_size (tables w q)" "child w2 q j = (if q = tb \<and> j = ?i then Some entry else child w q j)" for q j
    by (simp_all add: w2 child_def set_table_entry_def)
  have tbs: "tlog_size (tables w tb) = s" using f s(1) by (simp add: leaf_size_def)
  have "leaves_ok w2 M"
    using ok rx tbs s(2) by (auto simp: leaves_ok_def Let_def w2 set_table_entry_def)
  moreover have ls: "leaf_size w2 M = leaf_size w M"
    by (auto simp: leaf_size_def w2(3) rx sz fun_eq_iff split: option.split)
  have blk: "find_log_table w ?r x = Some tb \<and> TABLE_INDEX s x = ?i \<longleftrightarrow> x div LOG_SIZE s = off div LOG_SIZE s"
    if "x < mapped_len (mmios w M)" for x
    using same_leaf_chunk [OF ok off that f] index_block [OF s(2), of off x] by (simp only: eq_commute)
  have "entry_at w2 M x = (if x div LOG_SIZE s = off div LOG_SIZE s then Some entry else entry_at w M x)"
    if "x < mapped_len (mmios w M)" for x
    using blk [OF that] tbs s(2) by (auto simp: entry_at_def w2(3) rx sz split: option.split)
  moreover have "leaf_size w M x = s \<and> entry_at w M x = None" if "x < mapped_len (mmios w M)" "x div LOG_SIZE s = off div LOG_SIZE s" for x
    using blk [OF that(1)] that(2) tbs none by (auto simp: leaf_size_def entry_at_def)
  moreover have "united (idxs w entry) = 0" using sp d by (auto simp: spares_ok_def)
  then have "e_len (idxs w2 entry) = 0 \<and> e_offset (idxs w2 entry) = 0"
    by (simp add: w2_def w' set_table_entry_def new_entry_def) (simp add: e_len_def e_offset_def bf_get_def)
  moreover have "rwlockp (idxs w2 entry) = RWLOCK_INIT \<and> log (idxs w2 entry) = data \<and> log_size (idxs w2 entry) = s \<and>
      (\<forall>p. p \<noteq> entry \<longrightarrow> idxs w2 p = idxs w p) \<and> idx_pool w2 = ip \<and> log_pool w2 = (log_pool w)(s := lp)"
    by (simp add: w2_def w' set_table_entry_def new_entry_def)
  ultimately show ?thesis
    using d ip lp ls w2 sp unfolding created_def spares_ok_def by (intro conjI exI [of _ data]) auto
qed

lemma LA_disjoint:
  assumes "{a..<a + n} \<subseteq> LA" and "{b..<b + k} \<inter> LA = {}" and "0 < n" and "0 < k"
  shows "disjoint_ranges a n b k"
proof (rule ccontr)
  assume "\<not> disjoint_ranges a n b k"
  then have "max a b \<in> {a..<a + n}" "max a b \<in> {b..<b + k}" using assms(3,4) by (auto simp: disjoint_ranges_def)
  then show False using assms(1,2) by blast
qed

lemma created_block:
  assumes "created M off s entry data w w'"
  shows "bsize w' M = bsize w M" "boff w' M = boff w M" "bpart w' M = bpart w M"
    and "x < mapped_len (mmios w M) \<Longrightarrow> x div LOG_SIZE s = off div LOG_SIZE s \<Longrightarrow> boff w M x = LOG_SIZE s * (off div LOG_SIZE s)"
proof -
  show b: "bsize w' M = bsize w M" using assms by (simp add: bsize_def created_def fun_eq_iff)
  show o: "boff w' M = boff w M" by (simp add: boff_def b fun_eq_iff)
  show "bpart w' M = bpart w M" using assms by (simp add: bpart_def b o created_def fun_eq_iff)
  show "boff w M x = LOG_SIZE s * (off div LOG_SIZE s)"
    if "x < mapped_len (mmios w M)" "x div LOG_SIZE s = off div LOG_SIZE s"
  proof -
    have "leaf_size w M x = s" using assms that by (auto simp: created_def)
    then show ?thesis using that(2) by (simp add: boff_def bsize_def minus_mod_eq_mult_div)
  qed
qed

lemma created_fits:
  assumes c: "created M off s entry data w w'" and m: "map_ok LA w M" and sp: "spares_ok LA w M" and s: "s < NR_LOG_SIZES"
    and x: "x < mapped_len (mmios w M)" "x div LOG_SIZE s = off div LOG_SIZE s"
  shows "entry_fits LA w' M x entry"
proof -
  have ls: "leaf_size w M x = s" "leaf_size w' M x = s" using c x by (auto simp: created_def)
  note g = block_geometry [OF m x(1), unfolded ls(1), OF s]
  have d: "accessible (mem w) data (LOG_SIZE s)" "{data..<data + LOG_SIZE s} \<subseteq> LA"
    using c sp s by (auto simp: created_def spares_ok_def)
  have "disjoint_ranges data (LOG_SIZE s) (start (mmios w M) + boff w M x) (bpart w M x)"
    using d(2) g(4,7) by (intro LA_disjoint [where LA = LA]) auto
  moreover have "bpart w M x \<le> LOG_SIZE s" by (simp add: bpart_def bsize_def ls)
  ultimately show ?thesis using c g d s
    by (simp add: entry_fits_def entry_inv_def entry_ok_def Let_def created_block [OF c] ls created_def bsize_def)
qed

lemma created_keeps:
  assumes c: "created M off s entry data w w'" and x: "entry_at w M x = Some e" "e \<noteq> entry"
  shows "entry_fits LA w' M x e = entry_fits LA w M x e" and "idxs w' e = idxs w e"
proof -
  show i: "idxs w' e = idxs w e" using c x by (simp add: created_def)
  show "entry_fits LA w' M x e = entry_fits LA w M x e"
    using c by (simp add: entry_fits_def entry_inv_def entry_ok_def Let_def created_block [OF c] i created_def)
qed

lemma created_entries_ok:
  assumes c: "created M off s entry data w w'" and m: "map_ok LA w M" and e: "entries_ok LA w M"
    and sp: "spares_ok LA w M" and s: "s < NR_LOG_SIZES"
  shows "entries_ok LA w' M"
proof -
  let ?N = "mapped_len (mmios w M)" and ?B = "\<lambda>x. x div LOG_SIZE s = off div LOG_SIZE s"
  have N: "mapped_len (mmios w' M) = ?N" using c by (simp add: created_def)
  have at: "entry_at w' M x = (if ?B x then Some entry else entry_at w M x)" if "x < ?N" for x
    using c that by (simp add: created_def)
  have ne: "e \<noteq> entry" if "x < ?N" "entry_at w M x = Some e" for x e
    using c sp that by (auto simp: created_def spares_ok_def)
  have idx: "idxs w' e = idxs w e" if "e \<noteq> entry" for e using c that by (simp add: created_def)
  have fits: "entry_fits LA w' M x e" if "x < ?N" "entry_at w' M x = Some e" for x e
  proof (cases "?B x")
    case True
    then show ?thesis using created_fits [OF c m sp s that(1)] at that by simp
  next
    case False
    then have a: "entry_at w M x = Some e" using at that by simp
    then show ?thesis using created_keeps(1) [OF c a ne [OF that(1) a]] e that(1) by (simp add: entries_ok_def)
  qed
  have d: "logs_disjoint w' entry e \<and> logs_disjoint w' e entry" if "x < ?N" "entry_at w M x = Some e" for x e
    using c sp s that idx [OF ne [OF that]]
    by (auto simp: logs_disjoint_def created_def spares_ok_def disjoint_ranges_sym)
  have "if e = e' then boff w' M x = boff w' M y else logs_disjoint w' e e'"
    if x: "x < ?N" "entry_at w' M x = Some e" and y: "y < ?N" "entry_at w' M y = Some e'" for x y e e'
  proof (cases "?B x"; cases "?B y")
    assume "?B x" "?B y"
    then show ?thesis using x y at created_block(2,4) [OF c] by simp
  next
    assume "?B x" "\<not> ?B y"
    then show ?thesis using x y at ne [OF y(1)] d [OF y(1)] by auto
  next
    assume "\<not> ?B x" "?B y"
    then show ?thesis using x y at ne [OF x(1)] d [OF x(1)] by auto
  next
    assume "\<not> ?B x" "\<not> ?B y"
    then have a: "entry_at w M x = Some e" "entry_at w M y = Some e'" using x y at by simp_all
    then have "if e = e' then boff w M x = boff w M y else logs_disjoint w e e'"
      using e x(1) y(1) unfolding entries_ok_def by blast
    then show ?thesis using created_block(2) [OF c] idx ne [OF x(1) a(1)] ne [OF y(1) a(2)]
      by (auto simp: logs_disjoint_def)
  qed
  then show ?thesis using fits unfolding entries_ok_def N by blast
qed

lemma created_spares_ok:
  assumes c: "created M off s entry data w w'" and sp: "spares_ok LA w M" and s: "s < NR_LOG_SIZES"
  shows "spares_ok LA w' M"
proof -
  let ?N = "mapped_len (mmios w M)"
  have N: "mapped_len (mmios w' M) = ?N" "mem w' = mem w" using c by (simp_all add: created_def)
  have idx: "idxs w' e = idxs w e" if "e \<noteq> entry" for e using c that by (simp add: created_def)
  have at: "e = entry \<or> entry_at w M x = Some e" if "x < ?N" "entry_at w' M x = Some e" for x e
    using c that by (auto simp: created_def split: if_splits)
  have av: "avail (idx_pool w') = avail (idx_pool w) - {entry}"
    "avail (log_pool w' r) = (if r = s then avail (log_pool w s) - {data} else avail (log_pool w r))" for r
    using c by (simp_all add: created_def)
  have used: "e \<notin> avail (idx_pool w)" if "x < ?N" "entry_at w M x = Some e" for x e
    using sp that by (auto simp: spares_ok_def)
  have free: "accessible (mem w) a (LOG_SIZE r) \<and> {a..<a + LOG_SIZE r} \<subseteq> LA" "a \<in> avail (log_pool w r)"
    if "r < NR_LOG_SIZES" "a \<in> avail (log_pool w' r)" for r a
    using sp that av by (auto simp: spares_ok_def split: if_splits)
  have apart: "disjoint_ranges (log (idxs w' e)) (LOG_SIZE (log_size (idxs w' e))) a (LOG_SIZE r)"
    if "r < NR_LOG_SIZES" "a \<in> avail (log_pool w' r)" "x < ?N" "entry_at w' M x = Some e" for r a x e
  proof (cases "e = entry")
    case True
    have "(s, data) \<noteq> (r, a)" "data \<in> avail (log_pool w s)" using that(2) av c by (auto simp: created_def)
    then have "disjoint_ranges data (LOG_SIZE s) a (LOG_SIZE r)"
      using sp s that(1) free(2) [OF that(1,2)] unfolding spares_ok_def by blast
    then show ?thesis using True c by (simp add: created_def)
  next
    case False
    then have "entry_at w M x = Some e" using at that by blast
    then show ?thesis using sp that(1,3) free(2) [OF that(1,2)] idx [OF False] by (simp add: spares_ok_def)
  qed
  have pools: "pool_inv (idx_pool w')" "\<forall>r < NR_LOG_SIZES. pool_inv (log_pool w' r)" using c by (simp_all add: created_def)
  have spare_idx: "united (idxs w' e) = 0 \<and> (\<forall>x < ?N. entry_at w' M x \<noteq> Some e)" if "e \<in> avail (idx_pool w')" for e
  proof -
    have e: "e \<in> avail (idx_pool w)" "e \<noteq> entry" using that av(1) by auto
    then have "united (idxs w e) = 0" using sp by (simp add: spares_ok_def)
    then show ?thesis using idx [OF e(2)] used at e by metis
  qed
  have distinct: "disjoint_ranges a (LOG_SIZE r) a' (LOG_SIZE r')"
    if "r < NR_LOG_SIZES" "r' < NR_LOG_SIZES" "a \<in> avail (log_pool w' r)" "a' \<in> avail (log_pool w' r')" "(r, a) \<noteq> (r', a')" for r r' a a'
    using sp that free(2) [OF that(1,3)] free(2) [OF that(2,4)] unfolding spares_ok_def by blast
  show ?thesis
    unfolding spares_ok_def N
  proof (intro conjI pools)
    show "\<forall>e \<in> avail (idx_pool w'). united (idxs w' e) = 0 \<and> (\<forall>off < ?N. entry_at w' M off \<noteq> Some e)"
      using spare_idx by blast
    show "\<forall>r < NR_LOG_SIZES. \<forall>a \<in> avail (log_pool w' r). accessible (mem w) a (LOG_SIZE r) \<and>
        {a..<a + LOG_SIZE r} \<subseteq> LA \<and> (\<forall>off < ?N. \<forall>e. entry_at w' M off = Some e \<longrightarrow>
           disjoint_ranges (log (idxs w' e)) (LOG_SIZE (log_size (idxs w' e))) a (LOG_SIZE r))"
      using free(1) apart by (intro allI impI ballI conjI) simp_all
  qed (use distinct in blast)
qed

lemma entry_view_empty: "e_len (idxs w e) = 0 \<Longrightarrow> entry_view w e blk i = bytes (mem w) (blk + i)"
  by (auto simp: entry_view_def redo_view_def in_range_def)

lemma created_content:
  assumes c: "created M off s entry data w w'" and sp: "spares_ok LA w M" and m: "map_ok LA w M" and s: "s < NR_LOG_SIZES"
    and x: "x < mapped_len (mmios w M)"
  shows "content w' M x = content w M x"
proof (cases "x div LOG_SIZE s = off div LOG_SIZE s")
  case True
  then have "entry_at w' M x = Some entry" "entry_at w M x = None" "leaf_size w M x = s" using c x by (auto simp: created_def)
  moreover have "e_len (idxs w' entry) = 0" "mem w' = mem w" "mmios w' = mmios w" using c by (simp_all add: created_def)
  ultimately show ?thesis using created_block(2) [OF c] block_geometry(3) [OF m x] s
    by (simp add: content_def entry_view_empty created_block [OF c] add.assoc)
next
  case False
  then have a: "entry_at w' M x = entry_at w M x" using c x by (simp add: created_def)
  have "idxs w' e = idxs w e" if "entry_at w M x = Some e" for e
    using c sp that x by (auto simp: created_def spares_ok_def)
  then show ?thesis using c by (simp add: content_def a entry_view_def created_block [OF c] created_def split: option.split)
qed

subsection \<open>Locking the entry of a block\<close>

definition unlocked_but :: "ptr option \<Rightarrow> world \<Rightarrow> ptr \<Rightarrow> bool" where
  "unlocked_but held w M \<longleftrightarrow>
     (\<forall>x < mapped_len (mmios w M). \<forall>e. entry_at w M x = Some e \<and> held \<noteq> Some e \<longrightarrow> rwlockp (idxs w e) = RWLOCK_INIT)"

text \<open>
  The entry of \<open>off\<close> is there, with its log if it was there before and empty if not, and
  locked by \<open>l\<close>; the file is as before, and nothing else has changed but the tree and the
  pools.
\<close>

definition found_or_new :: "ptr \<Rightarrow> nat \<Rightarrow> ptr \<Rightarrow> world \<Rightarrow> world \<Rightarrow> bool" where
  "found_or_new M off entry w w' \<longleftrightarrow>
     (if entry_at w M off = Some entry then united (idxs w' entry) = united (idxs w entry) \<and> log_size (idxs w' entry) = log_size (idxs w entry)
      else entry_at w M off = None \<and> e_len (idxs w' entry) = 0)"

definition locked_block :: "addr set \<Rightarrow> ptr \<Rightarrow> nat \<Rightarrow> ptr \<Rightarrow> rwlock \<Rightarrow> world \<Rightarrow> world \<Rightarrow> bool" where
  "locked_block LA M off entry l w w' \<longleftrightarrow>
     file_inv LA w' M \<and> entry_at w' M off = Some entry \<and> found_or_new M off entry w w' \<and>
     (\<forall>x < mapped_len (mmios w M). content w' M x = content w M x) \<and>
     rwlockp (idxs w' entry) = l \<and> unlocked_but (Some entry) w' M \<and>
     mem w' = mem w \<and> ptrace w' = ptrace w \<and> bravo w' = bravo w \<and>
     (\<exists>r. mmios w' = (mmios w)(M := (mmios w M)\<lparr>radixlog := r\<rparr>))"

lemma idx_entry_lock_size:
  "e\<lparr>rwlockp := l, log_size := s\<rparr> = (e::idx_entry)\<lparr>log_size := s, rwlockp := l\<rparr>"
  "log_size e = s \<Longrightarrow> e\<lparr>rwlockp := l, log_size := s\<rparr> = (e::idx_entry)\<lparr>rwlockp := l\<rparr>"
  by (cases e; simp)+

lemma file_inv_agree:
  assumes "file_inv LA w M" and "agree M w w'" and "leaves_ok w' M"
  shows "file_inv LA w' M"
  using assms agree_inv [OF assms(2)] by (simp add: file_inv_def)

lemma leaves_ok_upd_entry [simp]: "leaves_ok (upd_entry p f w) M = leaves_ok w M"
  by (simp add: leaves_ok_def Let_def)

lemma lock_old_entry:
  assumes inv: "file_inv LA w M" and u: "unlocked_but None w M" and off: "off < mapped_len (mmios w M)"
    and at: "entry_at w M off = Some entry" and l: "trylock k (rwlockp (idxs w entry)) = Some l"
  defines "w5 \<equiv> upd_entry entry (\<lambda>e. e\<lparr>log_size := leaf_size w M off\<rparr>) (upd_entry entry (\<lambda>e. e\<lparr>rwlockp := l\<rparr>) w)"
  shows "locked_block LA M off entry l w w5 \<and> trylock k RWLOCK_INIT = Some l"
proof -
  have "log_size (idxs w entry) = leaf_size w M off"
    using inv off at by (auto simp: file_inv_def entries_ok_def entry_fits_def)
  then have w5: "w5 = upd_entry entry (\<lambda>e. e\<lparr>rwlockp := l\<rparr>) w" by (simp add: w5_def upd_entry_def idx_entry_lock_size(2))
  have a: "agree M w w5" unfolding w5 by (rule agree_lock)
  have lk: "leaves_ok w5 M" using inv by (simp add: w5 file_inv_def)
  have "unlocked_but (Some entry) w5 M" using u by (simp add: unlocked_but_def w5)
  moreover have "mmios w5 = mmios w" by (simp add: w5)
  then have "\<exists>r. mmios w5 = (mmios w)(M := (mmios w M)\<lparr>radixlog := r\<rparr>)"
    by (intro exI [of _ "radixlog (mmios w M)"]) simp
  moreover have "rwlockp (idxs w entry) = RWLOCK_INIT" using u off at by (simp add: unlocked_but_def)
  ultimately show ?thesis
    using file_inv_agree [OF inv a lk] agree_content [OF a] at l by (simp add: locked_block_def found_or_new_def w5)
qed

lemma created_file_inv:
  assumes "created M off s entry data w w'" and "file_inv LA w M" and "s < NR_LOG_SIZES" and "leaves_ok w' M"
  shows "file_inv LA w' M"
  using assms created_entries_ok [OF assms(1)] created_spares_ok [OF assms(1)]
  by (simp add: file_inv_def) (simp add: map_ok_def created_def)

lemma lock_new_entry:
  assumes inv: "file_inv LA w M" and u: "unlocked_but None w M" and off: "off < mapped_len (mmios w M)"
    and f: "find_log_table w (radixlog (mmios w M)) off = Some tb"
    and s: "leaf_size w M off = s" "s < NR_LOG_SIZES" and none: "child w tb (TABLE_INDEX s off) = None"
    and r: "get_log_entry t ep tb (TABLE_INDEX s off) s w = Inr (entry, w')"
    and l: "trylock k (rwlockp (idxs w' entry)) = Some l"
  defines "w5 \<equiv> upd_entry entry (\<lambda>e. e\<lparr>log_size := s\<rparr>) (upd_entry entry (\<lambda>e. e\<lparr>rwlockp := l\<rparr>) w')"
  shows "locked_block LA M off entry l w w5 \<and> trylock k RWLOCK_INIT = Some l"
proof -
  define w2 where "w2 = upd_entry entry (\<lambda>e. e\<lparr>log_size := s\<rparr>) w'"
  have w5: "w5 = upd_entry entry (\<lambda>e. e\<lparr>rwlockp := l\<rparr>) w2" by (simp add: w5_def w2_def upd_entry_def idx_entry_lock_size(1))
  have ok: "leaves_ok w M" "map_ok LA w M" "spares_ok LA w M" using inv by (simp_all add: file_inv_def)
  obtain data where lv: "leaves_ok w2 M" and c: "created M off s entry data w w2" and init: "rwlockp (idxs w2 entry) = RWLOCK_INIT"
    using get_log_entry_created [OF ok(1,3) f s off none r] by (auto simp: w2_def)
  have inv2: "file_inv LA w2 M" by (rule created_file_inv [OF c inv s(2) lv])
  have a: "agree M w2 w5" unfolding w5 by (rule agree_lock)
  have m: "mmios w2 = mmios w" "mem w2 = mem w" using c by (simp_all add: created_def)
  have "unlocked_but (Some entry) w5 M"
    using u c by (auto simp: unlocked_but_def w5 created_def)
  moreover have "entry_at w5 M off = Some entry" using c off by (simp add: w5 created_def)
  moreover have "content w5 M x = content w M x" if "x < mapped_len (mmios w M)" for x
    using agree_content [OF a] created_content [OF c ok(3,2) s(2) that] by (simp add: w5)
  moreover have "\<exists>r. mmios w5 = (mmios w)(M := (mmios w M)\<lparr>radixlog := r\<rparr>)"
    by (intro exI [of _ "radixlog (mmios w M)"]) (simp add: w5 m)
  moreover have "ptrace w5 = ptrace w" "bravo w5 = bravo w"
    using r none by (auto simp: w5 w2_def get_log_entry_def alloc_idx_entry_def alloc_log_data_def Let_def child_def
        set_table_entry_def elim!: bindE_InrE split: option.splits)
  moreover have "file_inv LA w5 M" using file_inv_agree [OF inv2 a] lv by (simp add: w5)
  moreover have "trylock k RWLOCK_INIT = Some l" using l init by (simp add: w2_def)
  moreover have "found_or_new M off entry w w5"
    using c off by (simp add: found_or_new_def w5 created_def)
  ultimately show ?thesis using m by (simp add: locked_block_def w5)
qed

text \<open>The log size that a request of \<open>n\<close> bytes will use, and requests that fit one block.\<close>

definition target_size :: "world \<Rightarrow> ptr \<Rightarrow> nat \<Rightarrow> nat \<Rightarrow> log_size_t" where
  "target_size w M off n = (if leaf_size w M off = NR_LOG_SIZES then set_log_size off n else leaf_size w M off)"

definition one_block :: "world \<Rightarrow> ptr \<Rightarrow> nat \<Rightarrow> nat \<Rightarrow> bool" where
  "one_block w M off n \<longleftrightarrow> 0 < n \<and> off + n \<le> mapped_len (mmios w M) \<and>
     off mod LOG_SIZE (target_size w M off n) + n \<le> LOG_SIZE (target_size w M off n)"

lemma get_log_size_target:
  "find_log_table w (radixlog (mmios w M)) off = Some tb \<Longrightarrow> get_log_size tb off n w = (s, w') \<Longrightarrow> s = target_size w M off n"
  by (auto simp: get_log_size_def target_size_def leaf_size_def Let_def split: if_splits)

lemma lock_spin_once:
  "lock_spin 1 k t ep tb i s w = bindE (get_log_entry t ep tb i s w) (\<lambda>(entry, w1).
     case trylock k (rwlockp (idxs w1 entry)) of
       Some l \<Rightarrow> Inr (entry, upd_entry entry (\<lambda>e. e\<lparr>rwlockp := l\<rparr>) w1) | None \<Rightarrow> Inl Blocked)"
  using lock_spin.simps(2) [of 0] by (simp cong: option.case_cong)

lemma trylock_init: "\<exists>l. trylock k RWLOCK_INIT = Some l"
  by (cases k) (simp_all add: rwlock_defs)

text \<open>A search fails only where the file has no entry yet.\<close>

lemma get_log_table_absent:
  assumes inv: "radix_inv w root" and r: "get_log_table t root off w = Inl e"
  shows "find_log_table w root off = None"
proof (rule ccontr)
  assume "find_log_table w root off \<noteq> None"
  then obtain tb where f: "find_log_table w root off = Some tb" by blast
  have "\<not> check_prev_table (prev_table_index root) off"
  proof
    assume c: "check_prev_table (prev_table_index root) off"
    then have "prev_table_index root = off div 2 ^ 21 mod 2 ^ 27" by (simp only: check_prev_table_iff)
    then have "prev_table_index root \<le> TABLE_MASK" using prev_index_le [of off] by metis
    then show False using inv r c by (auto simp: radix_inv_def get_log_table_def split: option.splits)
  qed
  moreover obtain s where s: "skip root = Some s" using inv by (auto simp: radix_inv_def)
  moreover have "walk_log_table t s off w = Inr (tb, w)"
    using f s by (auto simp: find_log_table_def walk_log_table_def get_child_def split: table_type.splits option.splits)
  ultimately show False using r by (simp add: get_log_table_def)
qed

lemma get_log_entry_fail:
  assumes "spares_ok LA w M" and "s < NR_LOG_SIZES" and "get_log_entry t ep tb i s w = Inl e"
  shows "e = Exit ''global->skip_list is empty'' \<and> child w tb i = None"
proof -
  have p: "pool_inv (idx_pool w)" "pool_inv (log_pool w s)" using assms by (auto simp: spares_ok_def)
  have none: "child w tb i = None" using assms(3) by (auto simp: get_log_entry_def split: option.splits)
  show ?thesis
  proof (cases "POP_PROVIDER t (idx_pool w)")
    case (Inl e')
    then show ?thesis using assms(3) none POP_PROVIDER_fail [OF p(1) Inl]
      by (simp add: get_log_entry_def alloc_idx_entry_def)
  next
    case (Inr x)
    then show ?thesis using assms(3) none POP_PROVIDER_fail [OF p(2), of t]
      by (cases "POP_PROVIDER t (log_pool w s)"; cases x)
        (auto simp: get_log_entry_def alloc_idx_entry_def alloc_log_data_def child_def Let_def)
  qed
qed

text \<open>One block: the entry is found or created, and locked.\<close>

lemma lock_entry_file:
  assumes inv: "file_inv LA w M" and u: "unlocked_but None w M" and off: "off < mapped_len (mmios w M)"
    and f: "find_log_table w (radixlog (mmios w M)) off = Some tb" and s: "leaf_size w M off = s" "s < NR_LOG_SIZES"
  shows "case lock_spin 1 k t ep tb (TABLE_INDEX s off) s w of
      Inl e \<Rightarrow> e = Exit ''global->skip_list is empty'' \<and> entry_at w M off = None
    | Inr (entry, w4) \<Rightarrow> \<exists>l. trylock k RWLOCK_INIT = Some l \<and>
        locked_block LA M off entry l w (upd_entry entry (\<lambda>e. e\<lparr>log_size := s\<rparr>) w4)"
proof (cases "get_log_entry t ep tb (TABLE_INDEX s off) s w")
  case (Inl e)
  have "spares_ok LA w M" using inv by (simp add: file_inv_def)
  moreover have "tlog_size (tables w tb) = s" using f s(1) by (simp add: leaf_size_def)
  ultimately show ?thesis using get_log_entry_fail [OF _ s(2) Inl] Inl f by (simp add: lock_spin_once entry_at_def del: One_nat_def)
next
  case (Inr x)
  obtain entry w1 where x: "x = (entry, w1)" by (cases x)
  have tl: "tlog_size (tables w tb) = s" using f s(1) by (simp add: leaf_size_def)
  obtain l where l: "trylock k RWLOCK_INIT = Some l" using trylock_init by blast
  have "rwlockp (idxs w1 entry) = RWLOCK_INIT \<and>
      locked_block LA M off entry l w (upd_entry entry (\<lambda>e. e\<lparr>log_size := s\<rparr>) (upd_entry entry (\<lambda>e. e\<lparr>rwlockp := l\<rparr>) w1))"
  proof (cases "child w tb (TABLE_INDEX s off)")
    case None
    have ok: "leaves_ok w M" "spares_ok LA w M" using inv by (simp_all add: file_inv_def)
    have "rwlockp (idxs w1 entry) = RWLOCK_INIT"
      using get_log_entry_created [OF ok f s off None Inr [unfolded x]] by simp
    then show ?thesis using lock_new_entry [OF inv u off f s None Inr [unfolded x]] l by metis
  next
    case (Some e)
    then have e: "entry = e" "w1 = w" using Inr x by (simp_all add: get_log_entry_def)
    have at: "entry_at w M off = Some entry" using f s tl Some e by (simp add: entry_at_def)
    have "rwlockp (idxs w entry) = RWLOCK_INIT" using u off at by (simp add: unlocked_but_def)
    then show ?thesis using lock_old_entry [OF inv u off at] l s e by metis
  qed
  then show ?thesis using Inr x l by (simp add: lock_spin_once del: One_nat_def)
qed

lemma locked_block_pre:
  assumes a: "agree M w w3" and t: "only_tree M w w3" and l: "locked_block LA M off entry l w3 w5"
  shows "locked_block LA M off entry l w w5"
proof -
  have "mem w3 = mem w" "ptrace w3 = ptrace w" "bravo w3 = bravo w" using t by (simp_all add: only_tree_def)
  moreover obtain r where "mmios w3 = (mmios w)(M := (mmios w M)\<lparr>radixlog := r\<rparr>)" using t by (auto simp: only_tree_def)
  moreover have "content w3 M = content w M" "mapped_len (mmios w3 M) = mapped_len (mmios w M)"
    using agree_content [OF a] agree_fields [OF a] calculation by simp_all
  moreover have "found_or_new M off entry w w5 = found_or_new M off entry w3 w5"
    using agree_fields [OF a] by (simp add: found_or_new_def)
  ultimately show ?thesis using l by (auto simp: locked_block_def)
qed

lemma locked_block_fits:
  assumes "locked_block LA M off entry l w w'" and "off < mapped_len (mmios w M)"
  shows "entry_fits LA w' M off entry" and "mapped_len (mmios w' M) = mapped_len (mmios w M)"
proof -
  show m: "mapped_len (mmios w' M) = mapped_len (mmios w M)" using assms(1) by (auto simp: locked_block_def mapped_len_def)
  have "entries_ok LA w' M" "entry_at w' M off = Some entry" using assms(1) by (simp_all add: locked_block_def file_inv_def)
  then show "entry_fits LA w' M off entry" using assms(2) m unfolding entries_ok_def by simp
qed

lemma LOCK_ENTRIES_done: "z \<le> 0 \<Longrightarrow> LOCK_ENTRIES k t M z off head w = Inr (head, w)"
  by (subst LOCK_ENTRIES.simps) simp

lemma LOCK_ENTRIES_one_unfold:
  assumes g: "get_log_table t (radixlog (mmios w M)) off w = Inr (tb, root, w1)"
    and z: "get_log_size tb off n (upd_mmio M (\<lambda>m. m\<lparr>radixlog := root\<rparr>) w1) = (s, w3)"
    and n: "0 < n" "off mod LOG_SIZE s + n \<le> LOG_SIZE s"
  shows "LOCK_ENTRIES k t M (int n) off [] w = bindE (lock_spin 1 k t (epoch (mmios w3 M)) tb (TABLE_INDEX s off) s w3)
    (\<lambda>(entry, w4). Inr ([entry], upd_entry entry (\<lambda>e. e\<lparr>log_size := s\<rparr>) w4))"
proof -
  have stop: "int n - int (LOG_SIZE s - (off AND (LOG_SIZE s - 1))) \<le> 0"
    using n(2) LOG_OFFSET_mod [of off s] by (simp add: LOG_OFFSET_def)
  have "(0::int) < int n" using n(1) by simp
  moreover have "LOCK_ENTRIES k t M (int n - int (LOG_SIZE s - (off AND (LOG_SIZE s - 1)))) off' [entry] w' = Inr ([entry], w')"
    for off' entry w' by (rule LOCK_ENTRIES_done [OF stop])
  ultimately show ?thesis
    by (subst LOCK_ENTRIES.simps)
      (simp only: g if_True bindE_Inr prod.case Let_def z nat_int list.set empty_iff if_False)
qed

lemma LOCK_ENTRIES_one_block:
  assumes inv: "file_inv LA w M" and u: "unlocked_but None w M" and one: "one_block w M off n" and small: "off + n < 2 ^ 64"
  shows "case LOCK_ENTRIES k t M (int n) off [] w of
      Inl e \<Rightarrow> e = Exit ''global->skip_list is empty'' \<and> entry_at w M off = None
    | Inr (head, w') \<Rightarrow> \<exists>entry l. head = [entry] \<and> trylock k RWLOCK_INIT = Some l \<and>
        locked_block LA M off entry l w w' \<and> leaf_size w' M off = target_size w M off n"
proof -
  let ?s = "target_size w M off n"
  have n: "0 < n" "off < mapped_len (mmios w M)" "off mod LOG_SIZE ?s + n \<le> LOG_SIZE ?s" using one by (auto simp: one_block_def)
  have lv: "leaves_ok w M" using inv by (simp add: file_inv_def)
  show ?thesis
  proof (cases "get_log_table t (radixlog (mmios w M)) off w")
    case (Inl e)
    have "radix_inv w (radixlog (mmios w M))" using lv by (simp add: leaves_ok_def Let_def)
    then show ?thesis using get_log_table_fail [OF _ Inl] get_log_table_absent [OF _ Inl] Inl n(1)
      by (simp add: LOCK_ENTRIES.simps entry_at_def)
  next
    case (Inr x)
    obtain tb root w1 where x: "x = (tb, root, w1)" by (cases x)
    define w2 where "w2 = upd_mmio M (\<lambda>m. m\<lparr>radixlog := root\<rparr>) w1"
    note g = get_log_table_file [OF lv Inr [unfolded x], folded w2_def]
    obtain s w3 where w3: "get_log_size tb off n w2 = (s, w3)" by (cases "get_log_size tb off n w2")
    note z = get_log_size_file [OF g(1,4) w3]
    have s: "s = ?s" using get_log_size_target [OF g(4) w3] by (simp add: target_size_def g(3))
    have a2: "agree M w w2" by (rule agree_tree [OF g(5,2)]) (simp add: g(3))
    have a23: "agree M w2 w3"
    proof (rule agree_tree [OF z(7,2)])
      show "leaf_size w3 M x = leaf_size w2 M x \<or> entry_at w2 M x = None" for x using z(5) [of x] by auto
    qed
    have a: "agree M w w3" by (rule agree_trans [OF a2 a23])
    have t: "only_tree M w w3" using g(5) z(7) by (auto simp: only_tree_def)
    have inv3: "file_inv LA w3 M" by (rule file_inv_agree [OF inv a z(1)])
    have N: "off < mapped_len (mmios w3 M)" using n agree_fields [OF a] by simp
    have idx3: "idxs w3 = idxs w" using t by (simp add: only_tree_def)
    have u3: "unlocked_but None w3 M" using u by (simp add: unlocked_but_def agree_fields [OF a] idx3)
    note k = lock_entry_file [OF inv3 u3 N z(6,3,4), of k t "epoch (mmios w3 M)"]
    have n3: "off mod LOG_SIZE s + n \<le> LOG_SIZE s" using n(3) by (simp add: s)
    note unf = LOCK_ENTRIES_one_unfold [OF Inr [unfolded x] w3 [unfolded w2_def] n(1) n3, of k]
    show ?thesis
    proof (cases "lock_spin 1 k t (epoch (mmios w3 M)) tb (TABLE_INDEX s off) s w3")
      case (Inl e)
      then show ?thesis using k agree_fields(15) [OF a] by (simp add: unf del: One_nat_def lock_spin.simps)
    next
      case (Inr y)
      obtain entry w4 where y: "y = (entry, w4)" by (cases y)
      then obtain l where l: "trylock k RWLOCK_INIT = Some l"
        "locked_block LA M off entry l w3 (upd_entry entry (\<lambda>e. e\<lparr>log_size := s\<rparr>) w4)"
        using k Inr by auto
      have "leaf_size (upd_entry entry (\<lambda>e. e\<lparr>log_size := s\<rparr>) w4) M off = s"
        using locked_block_fits(1) [OF l(2) N] by (simp add: entry_fits_def)
      then show ?thesis using l locked_block_pre [OF a t l(2)] Inr y s by (simp add: unf del: One_nat_def lock_spin.simps)
    qed
  qed
qed

end
