(* ===== verification/MmioSpec.thy ===== *)
theory MmioSpec
  imports FileSpec
begin

text \<open>
  The requests of mmio.c on one block refine the abstract file of theory FileSpec: a write
  overlays its contents, a read returns them, a commit keeps them.
\<close>

subsection \<open>Changing one block\<close>

lemma same_block_entry:
  assumes inv: "file_inv LA w M" and off: "off < mapped_len (mmios w M)" and at: "entry_at w M off = Some e"
    and x: "x < mapped_len (mmios w M)"
  shows "entry_at w M x = Some e \<longleftrightarrow> x div bsize w M off = off div bsize w M off"
    and "entry_at w M x = Some e \<Longrightarrow> leaf_size w M x = leaf_size w M off \<and> boff w M x = boff w M off"
proof -
  have lv: "leaves_ok w M" and eo: "entries_ok LA w M" using inv by (simp_all add: file_inv_def)
  obtain tb where f: "find_log_table w (radixlog (mmios w M)) off = Some tb"
    and s: "tlog_size (tables w tb) < NR_LOG_SIZES" and c: "child w tb (TABLE_INDEX (tlog_size (tables w tb)) off) = Some e"
    using at by (auto simp: entry_at_def split: option.splits if_splits)
  have ls: "leaf_size w M off = tlog_size (tables w tb)" by (simp add: leaf_size_def f)
  show same: "leaf_size w M x = leaf_size w M off \<and> boff w M x = boff w M off" if "entry_at w M x = Some e"
    using eo off at x that unfolding entries_ok_def entry_fits_def by (metis (no_types, lifting))
  show "entry_at w M x = Some e \<longleftrightarrow> x div bsize w M off = off div bsize w M off"
  proof
    assume "entry_at w M x = Some e"
    then have "bsize w M x = bsize w M off" "boff w M x = boff w M off" using same by (simp_all add: bsize_def)
    then show "x div bsize w M off = off div bsize w M off"
      using LOG_SIZE_pos [of "leaf_size w M off"] by (auto simp: boff_def minus_mod_eq_mult_div bsize_def)
  next
    assume "x div bsize w M off = off div bsize w M off"
    then have "off div 2 ^ 21 = x div 2 ^ 21" "TABLE_INDEX (leaf_size w M off) off = TABLE_INDEX (leaf_size w M off) x"
      using index_block [of "leaf_size w M off" off x] s ls unfolding bsize_def by auto
    then show "entry_at w M x = Some e"
      using same_leaf_chunk [OF lv off x f] c s ls by (simp add: entry_at_def)
  qed
qed

lemma touches_only_world:
  assumes "touches_only entry blk K w w'"
  shows "entry_at w' = entry_at w" "leaf_size w' = leaf_size w" "bsize w' = bsize w" "boff w' = boff w" "bpart w' = bpart w"
    and "mmios w' = mmios w" "regions (mem w') = regions (mem w)" "idx_pool w' = idx_pool w" "log_pool w' = log_pool w"
    and "leaves_ok w' = leaves_ok w" "log (idxs w' p) = log (idxs w p)" "log_size (idxs w' p) = log_size (idxs w p)"
proof -
  have o: "only_entry entry w w'" and l: "log (idxs w' entry) = log (idxs w entry)" "log_size (idxs w' entry) = log_size (idxs w entry)"
    using assms by (simp_all add: touches_only_def Let_def)
  show m: "mmios w' = mmios w" and "regions (mem w') = regions (mem w)" "idx_pool w' = idx_pool w" "log_pool w' = log_pool w"
    using o by (simp_all add: only_entry_def)
  have t: "tables w' = tables w" "table_pool w' = table_pool w" using o by (simp_all add: only_entry_def)
  note rx = radix_cong [OF t(1)]
  show "entry_at w' = entry_at w" and ls: "leaf_size w' = leaf_size w"
    by (intro ext; simp add: entry_at_def leaf_size_def rx m t child_def split: option.split)+
  show b: "bsize w' = bsize w" by (intro ext) (simp add: bsize_def ls)
  show bo: "boff w' = boff w" by (intro ext) (simp add: boff_def b)
  show "bpart w' = bpart w" by (intro ext) (simp add: bpart_def b bo m)
  show "leaves_ok w' = leaves_ok w" by (intro ext) (simp add: leaves_ok_def Let_def rx t m)
  show "log (idxs w' p) = log (idxs w p)" "log_size (idxs w' p) = log_size (idxs w p)"
    using o l by (cases "p = entry"; simp add: only_entry_def)+
qed

lemma touched_file_inv:
  assumes inv: "file_inv LA w M" and off: "off < mapped_len (mmios w M)" and at: "entry_at w M off = Some entry"
    and t: "touches_only entry blk K w w'"
    and e: "entry_inv w' M entry (start (mmios w M) + boff w M off) (bpart w M off)"
    and p: "e_policy (idxs w' entry) = policy (mmios w M)"
  shows "file_inv LA w' M"
proof -
  note tw = touches_only_world [OF t]
  have acc: "accessible (mem w') = accessible (mem w)" by (intro ext) (simp add: accessible_def tw)
  have idx: "idxs w' q = idxs w q" if "q \<noteq> entry" for q
    using t that by (simp add: touches_only_def only_entry_def Let_def)
  have "map_ok LA w' M" using inv by (simp add: file_inv_def map_ok_def Let_def tw acc)
  moreover have "entries_ok LA w' M"
  proof -
    have "entry_fits LA w' M x q" if x: "x < mapped_len (mmios w M)" "entry_at w M x = Some q" for x q
    proof (cases "q = entry")
      case True
      have "leaf_size w M x = leaf_size w M off" "boff w M x = boff w M off"
        using same_block_entry(2) [OF inv off at x(1)] x(2) True by simp_all
      moreover have "entry_fits LA w M x entry" using inv x True by (simp add: file_inv_def entries_ok_def)
      ultimately show ?thesis using True e p by (simp add: entry_fits_def tw bpart_def bsize_def)
    next
      case False
      have ei: "entry_inv w' M q blk' K' = entry_inv w M q blk' K'" for blk' K'
        unfolding entry_inv_def entry_ok_def Let_def tw acc idx [OF False] ..
      have "entry_fits LA w M x q" using inv x by (simp add: file_inv_def entries_ok_def)
      then show ?thesis unfolding entry_fits_def ei idx [OF False] tw .
    qed
    moreover have "logs_disjoint w' = logs_disjoint w" by (intro ext) (simp add: logs_disjoint_def tw)
    ultimately show ?thesis using inv unfolding file_inv_def entries_ok_def tw by (simp only:) blast
  qed
  moreover have "spares_ok LA w' M"
  proof -
    have "entry \<notin> avail (idx_pool w)" using inv off at by (auto simp: file_inv_def spares_ok_def)
    then have "idxs w' q = idxs w q" if "q \<in> avail (idx_pool w)" for q using that idx by metis
    then show ?thesis using inv by (simp add: file_inv_def spares_ok_def tw acc)
  qed
  ultimately show ?thesis using inv by (simp add: file_inv_def tw)
qed


text \<open>What the block of an entry looks like to a request on it.\<close>

lemma block_entry:
  assumes inv: "file_inv LA w M" and off: "off < mapped_len (mmios w M)" and at: "entry_at w M off = Some entry"
  shows "leaf_size w M off < NR_LOG_SIZES" and "entry_fits LA w M off entry"
    and "log_size (idxs w entry) = leaf_size w M off"
    and "entry_inv w M entry (start (mmios w M) + boff w M off) (bpart w M off)"
proof -
  show "leaf_size w M off < NR_LOG_SIZES"
    using at by (auto simp: entry_at_def leaf_size_def split: option.splits if_splits)
  show "entry_fits LA w M off entry" using inv off at by (simp add: file_inv_def entries_ok_def)
  then show "log_size (idxs w entry) = leaf_size w M off"
    and "entry_inv w M entry (start (mmios w M) + boff w M off) (bpart w M off)"
    by (simp_all add: entry_fits_def)
qed

lemma content_block:
  assumes inv: "file_inv LA w M" and off: "off < mapped_len (mmios w M)" and at: "entry_at w M off = Some entry"
    and x: "x < mapped_len (mmios w M)" "entry_at w M x = Some entry"
  shows "content w M x = entry_view w entry (start (mmios w M) + boff w M off) (x mod bsize w M off)"
    and "x mod bsize w M off < bpart w M off" and "boff w M off + x mod bsize w M off = x"
proof -
  have s: "leaf_size w M x = leaf_size w M off" "boff w M x = boff w M off"
    using same_block_entry(2) [OF inv off at x(1)] x(2) by simp_all
  then have b: "bsize w M x = bsize w M off" "bpart w M x = bpart w M off" by (simp_all add: bsize_def bpart_def)
  show "content w M x = entry_view w entry (start (mmios w M) + boff w M off) (x mod bsize w M off)"
    using x(2) by (simp add: content_def s b)
  have "map_ok LA w M" using inv by (simp add: file_inv_def)
  note g = block_geometry [OF this x(1)]
  show "x mod bsize w M off < bpart w M off" "boff w M off + x mod bsize w M off = x"
    using g(3,4) block_entry(1) [OF inv off at] by (simp_all add: s b)
qed

text \<open>Bytes of other blocks and of their logs are out of reach.\<close>

lemma touched_elsewhere:
  assumes inv: "file_inv LA w M" and off: "off < mapped_len (mmios w M)" and at: "entry_at w M off = Some entry"
    and t: "touches_only entry (start (mmios w M) + boff w M off) (bpart w M off) w w'"
    and x: "x < mapped_len (mmios w M)" "entry_at w M x \<noteq> Some entry"
  shows "content w' M x = content w M x"
proof -
  let ?m = "mmios w M" and ?B = "bsize w M off"
  note be = block_entry [OF inv off at]
  have mo: "map_ok LA w M" using inv by (simp add: file_inv_def)
  note g = block_geometry [OF mo off be(1)]
  have fr: "bytes (mem w') a = bytes (mem w) a" if "a \<notin> {start ?m + boff w M off..<start ?m + boff w M off + bpart w M off}"
    "a \<notin> {log (idxs w entry)..<log (idxs w entry) + ?B}" for a
    using t that be(3) by (auto simp: touches_only_def Let_def bsize_def not_le not_less)
  have LA: "{log (idxs w entry)..<log (idxs w entry) + ?B} \<subseteq> LA" using be(2) by (simp add: entry_fits_def)
  have fb: "bytes (mem w') (start ?m + x) = bytes (mem w) (start ?m + x)"
  proof (rule fr)
    have "x div ?B \<noteq> off div ?B" using same_block_entry(1) [OF inv off at x(1)] x(2) by simp
    moreover have "boff w M off = ?B * (off div ?B)" by (simp add: boff_def minus_mod_eq_mult_div)
    moreover have "bpart w M off \<le> ?B" by (simp add: bpart_def)
    moreover have "x div ?B = off div ?B" if "?B * (off div ?B) \<le> x" "x < ?B * (off div ?B) + ?B"
      using that by (intro div_nat_eqI) (simp_all add: mult.commute)
    ultimately show "start ?m + x \<notin> {start ?m + boff w M off..<start ?m + boff w M off + bpart w M off}" by auto
    have "start ?m + x \<in> {start ?m..<end_addr ?m}" using x(1) by (auto simp: mapped_len_def)
    moreover have "{start ?m..<end_addr ?m} \<inter> LA = {}" using mo by (simp add: map_ok_def Let_def)
    ultimately show "start ?m + x \<notin> {log (idxs w entry)..<log (idxs w entry) + ?B}" using LA by blast
  qed
  show ?thesis
  proof (cases "entry_at w M x")
    case None
    then show ?thesis using fb by (simp add: content_def touches_only_world [OF t])
  next
    case (Some q)
    have q: "q \<noteq> entry" using Some x(2) by simp
    have iq: "idxs w' q = idxs w q" using t q by (simp add: touches_only_def only_entry_def Let_def)
    note bq = block_entry [OF inv x(1) Some]
    have qi: "log (idxs w q) + x mod bsize w M x \<in> {log (idxs w q)..<log (idxs w q) + bsize w M x}" by (simp add: bsize_def)
    moreover have "{log (idxs w q)..<log (idxs w q) + bsize w M x} \<subseteq> LA" using bq(2) by (simp add: entry_fits_def)
    ultimately have "log (idxs w q) + x mod bsize w M x \<notin> {start ?m + boff w M off..<start ?m + boff w M off + bpart w M off}"
      using g(7) by blast
    moreover have "logs_disjoint w entry q" using inv off at x(1) Some q unfolding file_inv_def entries_ok_def by metis
    then have "log (idxs w entry) + ?B \<le> log (idxs w q) \<or> log (idxs w q) + bsize w M x \<le> log (idxs w entry)"
      using be(3) bq(3) by (simp add: logs_disjoint_def disjoint_ranges_def bsize_def)
    then have "log (idxs w q) + x mod bsize w M x \<notin> {log (idxs w entry)..<log (idxs w entry) + ?B}"
      using qi unfolding atLeastLessThan_iff by linarith
    ultimately have "bytes (mem w') (log (idxs w q) + x mod bsize w M x) = bytes (mem w) (log (idxs w q) + x mod bsize w M x)"
      by (rule fr)
    moreover have "boff w M x + x mod bsize w M x = x" by (simp add: boff_def)
    ultimately show ?thesis
      using fb Some by (simp add: content_def touches_only_world [OF t] entry_view_def redo_view_def iq add.assoc)
  qed
qed

text \<open>Under undo logging the file itself holds the contents.\<close>

lemma content_undo:
  assumes inv: "file_inv LA w M" and p: "policy (mmios w M) = UNDO" and x: "x < mapped_len (mmios w M)"
  shows "content w M x = bytes (mem w) (start (mmios w M) + x)"
proof (cases "entry_at w M x")
  case (Some e)
  have "boff w M x + x mod bsize w M x = x" by (simp add: boff_def)
  then show ?thesis using block_entry(2) [OF inv x Some] Some p
    by (auto simp: content_def entry_fits_def entry_view_def redo_view_def in_range_def add.assoc)
qed (simp add: content_def)


subsection \<open>A write to one block\<close>

text \<open>A buffer of the caller: mapped, and apart from the file and from all log space.\<close>

definition user_buffer :: "addr set \<Rightarrow> world \<Rightarrow> ptr \<Rightarrow> addr \<Rightarrow> nat \<Rightarrow> bool" where
  "user_buffer LA w M buf n \<longleftrightarrow>
     accessible (mem w) buf n \<and> {buf..<buf + n} \<inter> LA = {} \<and>
     disjoint_ranges buf n (start (mmios w M)) (mapped_len (mmios w M))"

lemma user_buffer_mono:
  assumes "user_buffer LA w M buf n" and "k \<le> n"
  shows "user_buffer LA w M buf k"
proof -
  have "{buf..<buf + k} \<subseteq> {buf..<buf + n}" using assms(2) by auto
  moreover have "accessible (mem w) buf k" by (rule accessible_sub [of _ buf n]) (use assms in \<open>auto simp: user_buffer_def\<close>)
  moreover have "disjoint_ranges buf k (start (mmios w M)) (mapped_len (mmios w M))"
    using assms by (auto simp: user_buffer_def disjoint_ranges_def)
  ultimately show ?thesis using assms(1) unfolding user_buffer_def by blast
qed

lemma block_request_file:
  assumes inv: "file_inv LA w M" and at: "entry_at w M off = Some entry"
    and n: "0 < n" "off + n \<le> mapped_len (mmios w M)" "off mod bsize w M off + n \<le> bsize w M off"
    and buf: "user_buffer LA w M buf n"
  shows "block_request w entry off (start (mmios w M) + boff w M off) (bpart w M off) (off mod bsize w M off) buf n"
proof -
  have off: "off < mapped_len (mmios w M)" using n by linarith
  note be = block_entry [OF inv off at]
  have mo: "map_ok LA w M" using inv by (simp add: file_inv_def)
  note g = block_geometry [OF mo off be(1)]
  have "disjoint_ranges buf n (log (idxs w entry)) (LOG_SIZE (log_size (idxs w entry)))"
    unfolding disjoint_ranges_sym [of buf] using be(2,3) buf n(1)
    by (intro LA_disjoint [where LA = LA]) (simp_all add: entry_fits_def bsize_def user_buffer_def)
  moreover have "disjoint_ranges buf n (start (mmios w M) + boff w M off) (bpart w M off)"
    using buf g(2) by (auto simp: user_buffer_def disjoint_ranges_def)
  moreover have "off mod bsize w M off + n \<le> bpart w M off" using n g(3) by (simp add: bpart_def)
  ultimately show ?thesis
    using buf n(1) be(3) by (simp add: block_request_def Let_def user_buffer_def LOG_OFFSET_mod bsize_def)
qed

lemma overlay_0 [simp]: "overlay f off 0 src = f"
  by (rule ext) (auto simp: overlay_def)

lemma overlay_block:
  fixes B off n :: nat
  assumes "off mod B + n \<le> B" and "x div B = off div B" and "0 < B"
  shows "in_range off n x \<longleftrightarrow> in_range (off mod B) n (x mod B)" and "in_range off n x \<Longrightarrow> x mod B - off mod B = x - off"
proof -
  obtain q where "x = q + x mod B" "off = q + off mod B"
    using assms(2) by (metis mult_div_mod_eq)
  then show "in_range off n x \<longleftrightarrow> in_range (off mod B) n (x mod B)" and "in_range off n x \<Longrightarrow> x mod B - off mod B = x - off"
    unfolding in_range_def by linarith+
qed

lemma in_range_block:
  fixes B off n :: nat
  assumes "off mod B + n \<le> B" and "in_range off n x" shows "x div B = off div B"
proof -
  have "off = B * (off div B) + off mod B" by simp
  then have "B * (off div B) \<le> x" "x < B * (off div B) + B" using assms unfolding in_range_def by linarith+
  then show ?thesis by (intro div_nat_eqI) (simp_all add: mult.commute)
qed

text \<open>Contents of the file from contents of the block.\<close>

lemma touched_content:
  assumes inv: "file_inv LA w M" and off: "off < mapped_len (mmios w M)" and at: "entry_at w M off = Some entry"
    and t: "touches_only entry (start (mmios w M) + boff w M off) (bpart w M off) w w'" and inv': "file_inv LA w' M"
    and v: "\<And>i. i < bpart w M off \<Longrightarrow> entry_view w' entry (start (mmios w M) + boff w M off) i =
              overlay (entry_view w entry (start (mmios w M) + boff w M off)) (off mod bsize w M off) n src i"
    and n: "off mod bsize w M off + n \<le> bsize w M off" and x: "x < mapped_len (mmios w M)"
  shows "content w' M x = overlay (content w M) off n src x"
proof (cases "entry_at w M x = Some entry")
  case True
  let ?B = "bsize w M off"
  have d: "x div ?B = off div ?B" using same_block_entry(1) [OF inv off at x] True by simp
  note c = content_block [OF inv off at x True]
  note tw = touches_only_world [OF t]
  have "content w' M x = entry_view w' entry (start (mmios w M) + boff w M off) (x mod ?B)"
    using content_block(1) [OF inv', of off entry x] off at x True by (simp add: tw)
  also have "\<dots> = overlay (entry_view w entry (start (mmios w M) + boff w M off)) (off mod ?B) n src (x mod ?B)"
    by (rule v [OF c(2)])
  also have "\<dots> = overlay (content w M) off n src x"
    using overlay_block [OF n d] c(1) by (simp add: bsize_def overlay_def flip: in_range_def)
  finally show ?thesis .
next
  case False
  then have "\<not> in_range off n x" using in_range_block [OF n] same_block_entry(1) [OF inv off at x] by blast
  then show ?thesis using touched_elsewhere [OF inv off at t x False] by (simp add: overlay_def flip: in_range_def)
qed


lemma write_entry_file:
  assumes E: "pmem_copies E" and inv: "file_inv LA w M" and at: "entry_at w M off = Some entry"
    and n: "0 < n" "off + n \<le> mapped_len (mmios w M)" "off mod bsize w M off + n \<le> bsize w M off"
    and buf: "user_buffer LA w M buf n"
  shows "\<exists>w'. write_entry E M entry off (start (mmios w M) + off) buf n w = Inr (n, w') \<and> file_inv LA w' M \<and>
    touches_only entry (start (mmios w M) + boff w M off) (bpart w M off) w w' \<and>
    (\<forall>x < mapped_len (mmios w M). content w' M x =
       (if policy (mmios w M) = REDO then overlay (content w M) off n (\<lambda>j. bytes (mem w) (buf + j)) x else content w M x))"
proof -
  let ?b = "start (mmios w M) + boff w M off" and ?K = "bpart w M off" and ?lo = "off mod bsize w M off"
  have off: "off < mapped_len (mmios w M)" using n by linarith
  note ei = block_entry(4) [OF inv off at]
  note req = block_request_file [OF inv at n buf]
  have d: "?b + ?lo = start (mmios w M) + off" using content_block(3) [OF inv off at off at] by simp
  show ?thesis
  proof (cases "policy (mmios w M)")
    case REDO
    obtain w' where r: "write_entry E M entry off (?b + ?lo) buf n w = Inr (n, w')"
      and v: "\<And>i. i < ?K \<Longrightarrow> entry_view w' entry ?b i = overlay (entry_view w entry ?b) ?lo n (\<lambda>j. bytes (mem w) (buf + j)) i"
      and i: "entry_inv w' M entry ?b ?K" "e_policy (idxs w' entry) = REDO" and t: "touches_only entry ?b ?K w w'"
      using write_entry_redo_result [OF E ei REDO req] by blast
    have inv': "file_inv LA w' M" by (rule touched_file_inv [OF inv off at t i(1)]) (simp add: i REDO)
    show ?thesis using r d inv' t touched_content [OF inv off at t inv' v n(3)] REDO by simp
  next
    case UNDO
    obtain w' where r: "write_entry E M entry off (?b + ?lo) buf n w = Inr (n, w')"
      and v: "\<And>i. i < ?K \<Longrightarrow> entry_view w' entry ?b i = entry_view w entry ?b i"
      and i: "entry_inv w' M entry ?b ?K" "e_policy (idxs w' entry) = UNDO" and t: "touches_only entry ?b ?K w w'"
      using write_entry_undo_result [OF E ei UNDO req] by blast
    have inv': "file_inv LA w' M" by (rule touched_file_inv [OF inv off at t i(1)]) (simp add: i UNDO)
    have "content w' M x = content w M x" if "x < mapped_len (mmios w M)" for x
      using touched_content [OF inv off at t inv', of 0] v n that by simp
    then show ?thesis using r d inv' t UNDO by simp
  qed
qed

subsection \<open>Steps that leave the index alone\<close>

definition same_index :: "ptr \<Rightarrow> world \<Rightarrow> world \<Rightarrow> bool" where
  "same_index M w w' \<longleftrightarrow>
     (let m = mmios w M; m' = mmios w' M in
      regions (mem w') = regions (mem w) \<and> tables w' = tables w \<and> idxs w' = idxs w \<and>
      table_pool w' = table_pool w \<and> idx_pool w' = idx_pool w \<and> log_pool w' = log_pool w \<and>
      start m' = start m \<and> end_addr m' = end_addr m \<and> policy m' = policy m \<and> epoch m' = epoch m \<and> radixlog m' = radixlog m)"

lemma same_index_eqs:
  assumes s: "same_index M w w'"
  shows "entry_at w' M = entry_at w M" and "leaf_size w' M = leaf_size w M" and "bsize w' M = bsize w M"
    and "mapped_len (mmios w' M) = mapped_len (mmios w M)" and "file_inv LA w' M = file_inv LA w M"
    and "unlocked_but h w' M = unlocked_but h w M" and "one_block w' M = one_block w M"
    and "user_buffer LA w' M = user_buffer LA w M" and "start (mmios w' M) = start (mmios w M)"
    and "policy (mmios w' M) = policy (mmios w M)" and "idxs w' = idxs w"
    and "bytes (mem w') = bytes (mem w) \<Longrightarrow> content w' M = content w M"
proof -
  have m: "tables w' = tables w" "table_pool w' = table_pool w" "radixlog (mmios w' M) = radixlog (mmios w M)"
    using s by (simp_all add: same_index_def Let_def)
  show st: "start (mmios w' M) = start (mmios w M)" and "policy (mmios w' M) = policy (mmios w M)" and i: "idxs w' = idxs w"
    using s by (simp_all add: same_index_def Let_def)
  show ml: "mapped_len (mmios w' M) = mapped_len (mmios w M)" using s by (simp add: same_index_def mapped_len_def Let_def)
  note rx = radix_cong(1,2) [OF m(1)] radix_cong(3) [OF m(1,2)]
  show e: "entry_at w' M = entry_at w M" and l: "leaf_size w' M = leaf_size w M"
    by (intro ext; simp add: entry_at_def leaf_size_def rx m child_def split: option.split)+
  show b: "bsize w' M = bsize w M" by (intro ext) (simp add: bsize_def l)
  have a: "agree M w w'" using s e l by (simp add: agree_def same_index_def Let_def)
  have "leaves_ok w' M = leaves_ok w M" by (simp add: leaves_ok_def Let_def rx m ml)
  then show "file_inv LA w' M = file_inv LA w M" using agree_inv [OF a] by (simp add: file_inv_def)
  show "unlocked_but h w' M = unlocked_but h w M" by (simp add: unlocked_but_def e ml i)
  show "one_block w' M = one_block w M" by (intro ext) (simp add: one_block_def target_size_def l ml)
  show "user_buffer LA w' M = user_buffer LA w M"
    using agree_fields(14) [OF a] by (intro ext) (simp add: user_buffer_def st ml)
  show "content w' M = content w M" if "bytes (mem w') = bytes (mem w)" using agree_content [OF a that] .
qed

lemma same_index_refl: "same_index M w w"
  by (simp add: same_index_def Let_def)

lemma same_index_trans: "same_index M w w1 \<Longrightarrow> same_index M w1 w2 \<Longrightarrow> same_index M w w2"
  by (simp add: same_index_def Let_def)


subsection \<open>The locks of a request\<close>

text \<open>The thread can take the file's lock for reading: no writer, and its slot is free.\<close>

definition lock_idle :: "tid \<Rightarrow> ptr \<Rightarrow> world \<Rightarrow> bool" where
  "lock_idle t M w \<longleftrightarrow> visible_readers (bravo w) (bravo_hash t M) = None \<and> \<not> writer (underlying (rwlock (mmios w M)))"

text \<open>Only the file's lock and the state of all BRAVO locks have changed.\<close>

definition relocked :: "ptr \<Rightarrow> world \<Rightarrow> world \<Rightarrow> bool" where
  "relocked M w w' \<longleftrightarrow> (\<exists>b st. w' = upd_mmio M (\<lambda>m. m\<lparr>rwlock := b\<rparr>) (w\<lparr>bravo := st\<rparr>))"

lemma relocked_world:
  assumes "relocked M w w'"
  shows "same_index M w w'" and "mem w' = mem w" and "ptrace w' = ptrace w"
    and "(mmios w' M)\<lparr>rwlock := b\<rparr> = (mmios w M)\<lparr>rwlock := b\<rparr>"
    and "fsize (mmios w' M) = fsize (mmios w M)" and "read_cnt (mmios w' M) = read_cnt (mmios w M)"
    and "write_cnt (mmios w' M) = write_cnt (mmios w M)" and "end_addr (mmios w' M) = end_addr (mmios w M)"
    and "epoch (mmios w' M) = epoch (mmios w M)"
  using assms by (auto simp: relocked_def same_index_def Let_def)

lemma mm_lock_relocked:
  assumes "mm_lock f M w = Inr w'"
  obtains b st where "f (rwlock (mmios w M)) (bravo w) = Inr (b, st)" and "relocked M w w'"
    and "rwlock (mmios w' M) = b" and "bravo w' = st"
proof -
  obtain b st where f: "f (rwlock (mmios w M)) (bravo w) = Inr (b, st)"
    and w': "w' = upd_mmio M (\<lambda>m. m\<lparr>rwlock := b\<rparr>) (w\<lparr>bravo := st\<rparr>)"
    using assms by (auto simp: mm_lock_def elim!: bindE_InrE)
  show thesis by (rule that [OF f]) (auto simp: relocked_def w')
qed

lemma mm_lock_total: "f (rwlock (mmios w M)) (bravo w) = Inr (b, st) \<Longrightarrow> \<exists>w'. mm_lock f M w = Inr w'"
  by (simp add: mm_lock_def)

text \<open>The thread holds the file's lock for reading and can release it.\<close>

definition read_held :: "tid \<Rightarrow> ptr \<Rightarrow> world \<Rightarrow> bool" where
  "read_held t M w \<longleftrightarrow> (\<exists>b st. bravo_read_unlock t M (rwlock (mmios w M)) (bravo w) = Inr (b, st) \<and>
     visible_readers st (bravo_hash t M) = None \<and> \<not> writer (underlying b))"

lemma read_held_cong:
  "bravo w' = bravo w \<Longrightarrow> rwlock (mmios w' M) = rwlock (mmios w M) \<Longrightarrow> read_held t M w' = read_held t M w"
  by (simp add: read_held_def)

lemma mm_read_lock_idle:
  assumes "lock_idle t M w"
  obtains w1 where "mm_read_lock t M w = Inr w1" and "relocked M w w1" and "read_held t M w1"
proof -
  let ?b = "rwlock (mmios w M)" and ?st = "bravo w"
  have i: "visible_readers ?st (bravo_hash t M) = None" "rwlock_ok (underlying ?b)" "\<not> writer (underlying ?b)"
    using assms by (simp_all add: lock_idle_def rwlock_ok_def)
  obtain b1 st1 where r: "bravo_read_lock t M ?b ?st = Inr (b1, st1)" using bravo_read_lock_total [OF i(3)] by blast
  obtain w1 where w1: "mm_read_lock t M w = Inr w1" using mm_lock_total [of "bravo_read_lock t M", OF r] by (auto simp: mm_read_lock_def)
  have l: "relocked M w w1" "rwlock (mmios w1 M) = b1" "bravo w1 = st1"
    using w1 r by (auto simp: mm_read_lock_def elim!: mm_lock_relocked)
  have "read_held t M w1"
    using bravo_read_roundtrip_result [OF i(1,2) r] i l by (auto simp: read_held_def)
  then show thesis using that w1 l(1) by blast
qed

lemma mm_read_unlock_held:
  assumes "read_held t M w"
  obtains w1 where "mm_read_unlock t M w = Inr w1" and "relocked M w w1" and "lock_idle t M w1"
proof -
  obtain b st where u: "bravo_read_unlock t M (rwlock (mmios w M)) (bravo w) = Inr (b, st)"
    and i: "visible_readers st (bravo_hash t M) = None" "\<not> writer (underlying b)"
    using assms by (auto simp: read_held_def)
  obtain w1 where w1: "mm_read_unlock t M w = Inr w1"
    using mm_lock_total [of "bravo_read_unlock t M", OF u] by (auto simp: mm_read_unlock_def)
  have "relocked M w w1" "rwlock (mmios w1 M) = b" "bravo w1 = st"
    using w1 u by (auto simp: mm_read_unlock_def elim!: mm_lock_relocked)
  then show thesis using that w1 i by (simp add: lock_idle_def)
qed

lemma unlock_acquired: "trylock k RWLOCK_INIT = Some l \<Longrightarrow> RWLOCK_UNLOCK l = Inr RWLOCK_INIT"
  using rd.acquire_release [of RWLOCK_INIT l] wr.acquire_release [of RWLOCK_INIT l]
  by (cases k) (simp_all add: rwlock_ok_def RWLOCK_INIT_def)

lemma UNLOCK_ENTRIES_one:
  assumes inv: "file_inv LA w M" and u: "unlocked_but (Some entry) w M"
    and l: "trylock k RWLOCK_INIT = Some (rwlockp (idxs w entry))"
  defines "w' \<equiv> upd_entry entry (\<lambda>e. e\<lparr>rwlockp := RWLOCK_INIT\<rparr>) w"
  shows "UNLOCK_ENTRIES [entry] w = Inr w'" and "file_inv LA w' M" and "unlocked_but None w' M"
    and "content w' M = content w M"
proof -
  show "UNLOCK_ENTRIES [entry] w = Inr w'" using unlock_acquired [OF l] by (simp add: UNLOCK_ENTRIES_def w'_def)
  have a: "agree M w w'" unfolding w'_def by (rule agree_lock)
  have "leaves_ok w' M" using inv by (simp add: w'_def file_inv_def)
  then show "file_inv LA w' M" by (rule file_inv_agree [OF inv a])
  show "unlocked_but None w' M" using u by (simp add: unlocked_but_def w'_def)
  show "content w' M = content w M" by (rule agree_content [OF a]) (simp add: w'_def)
qed


subsection \<open>mmio_write on one block\<close>

text \<open>
  Between two requests of a thread: the file is well-formed, no entry is locked and the
  thread can take the file's lock.
\<close>

definition ready :: "addr set \<Rightarrow> tid \<Rightarrow> world \<Rightarrow> ptr \<Rightarrow> bool" where
  "ready LA t w M \<longleftrightarrow> file_inv LA w M \<and> unlocked_but None w M \<and> lock_idle t M w"

lemma mapped_len_le: "file_inv LA w M \<Longrightarrow> mapped_len (mmios w M) \<le> 2 ^ 48"
proof -
  assume "file_inv LA w M"
  then have "mapped_len (mmios w M) \<le> capacity (start_type w (radixlog (mmios w M)))"
    by (simp add: file_inv_def leaves_ok_def Let_def)
  also have "capacity ty \<le> 2 ^ 48" for ty by (cases ty) (simp_all add: capacity_def depth_def)
  finally show ?thesis by simp
qed

lemma no_expend:
  "file_inv LA w M \<Longrightarrow> off + n \<le> mapped_len (mmios w M) \<Longrightarrow> \<not> check_expend (mmios w M) off n"
  by (auto simp: check_expend_def mapped_len_def file_inv_def map_ok_def Let_def)

lemma mapped_len_update [simp]:
  "mapped_len (m\<lparr>rwlock := b\<rparr>) = mapped_len m" "mapped_len (m\<lparr>epoch := e\<rparr>) = mapped_len m"
  "mapped_len (m\<lparr>radixlog := r\<rparr>) = mapped_len m" "mapped_len (m\<lparr>read_cnt := c\<rparr>) = mapped_len m"
  "mapped_len (m\<lparr>write_cnt := c\<rparr>) = mapped_len m" "mapped_len (m\<lparr>fsize := s\<rparr>) = mapped_len m"
  by (simp_all add: mapped_len_def)

lemma stored_bravo: "bravo (stored d s n w) = bravo w"
  by (simp add: stored_def)

text \<open>The store in place that ends an undo-logged write.\<close>

lemma in_place_store:
  assumes E: "pmem_copies E" and inv: "file_inv LA w M" and p: "policy (mmios w M) = UNDO"
    and n: "off + n \<le> mapped_len (mmios w M)" and buf: "user_buffer LA w M buf n"
  defines "w' \<equiv> FENCE (stored (start (mmios w M) + off) buf n w)"
  shows "bindE (NTSTORE E (start (mmios w M) + off) buf n w) (\<lambda>w. Inr (FENCE w)) = Inr w'"
    and "same_index M w w'"
    and "x < mapped_len (mmios w M) \<Longrightarrow> content w' M x = overlay (content w M) off n (\<lambda>j. bytes (mem w) (buf + j)) x"
proof -
  have "accessible (mem w) (start (mmios w M)) (mapped_len (mmios w M))" using inv by (simp add: file_inv_def map_ok_def Let_def)
  then have "accessible (mem w) (start (mmios w M) + off) n" by (rule accessible_sub) (use n in auto)
  then show "bindE (NTSTORE E (start (mmios w M) + off) buf n w) (\<lambda>w. Inr (FENCE w)) = Inr w'"
    using buf by (simp add: NTSTORE_Inr [OF E] w'_def stored_def user_buffer_def)
  show s: "same_index M w w'" by (simp add: same_index_def Let_def w'_def stored_def FENCE_def)
  show "content w' M x = overlay (content w M) off n (\<lambda>j. bytes (mem w) (buf + j)) x" if "x < mapped_len (mmios w M)"
  proof -
    have "content w' M x = bytes (mem w') (start (mmios w M) + x)"
      using content_undo [of LA w' M x] inv p that by (simp add: same_index_eqs [OF s])
    also have "\<dots> = overlay (content w M) off n (\<lambda>j. bytes (mem w) (buf + j)) x"
      using content_undo [OF inv p that] by (auto simp: w'_def stored_def overlay_def mcpy_def)
    finally show ?thesis .
  qed
qed

text \<open>The steps after the loop, up to the store in place, leave the written contents.\<close>

definition written :: "addr set \<Rightarrow> ptr \<Rightarrow> nat \<Rightarrow> nat \<Rightarrow> addr \<Rightarrow> world \<Rightarrow> world \<Rightarrow> bool" where
  "written LA M off n buf w w' \<longleftrightarrow>
     file_inv LA w' M \<and> mmios w' = (mmios w)(M := (mmios w M)\<lparr>write_cnt := increase_counter (write_cnt (mmios w M))\<rparr>) \<and>
     bravo w' = bravo w \<and> entry_at w' M = entry_at w M \<and> leaf_size w' M = leaf_size w M \<and>
     regions (mem w') = regions (mem w) \<and> (\<forall>p. rwlockp (idxs w' p) = rwlockp (idxs w p)) \<and>
     (\<forall>x < mapped_len (mmios w M). content w' M x = overlay (content w M) off n (\<lambda>j. bytes (mem w) (buf + j)) x)"

lemma write_and_store:
  assumes E: "pmem_copies E" and inv: "file_inv LA w M" and at: "entry_at w M off = Some entry"
    and n: "0 < n" "off + n \<le> mapped_len (mmios w M)" "off mod bsize w M off + n \<le> bsize w M off"
    and buf: "user_buffer LA w M buf n"
  obtains w1 w3 where "write_loop E M [entry] off (start (mmios w M) + off) buf n 0 w = Inr (n, w1)"
    and "(let w2 = FENCE (upd_mmio M (\<lambda>m. m\<lparr>write_cnt := increase_counter (write_cnt m)\<rparr>) w1) in
          if policy (mmios w2 M) = UNDO
          then bindE (NTSTORE E (start (mmios w2 M) + off) buf n w2) (\<lambda>w. Inr (FENCE w)) else Inr w2) = Inr w3"
    and "written LA M off n buf w w3"
proof -
  let ?b = "start (mmios w M) + boff w M off" and ?K = "bpart w M off"
  obtain w1 where r: "write_entry E M entry off (start (mmios w M) + off) buf n w = Inr (n, w1)" and inv1: "file_inv LA w1 M"
    and t: "touches_only entry ?b ?K w w1"
    and c: "\<And>x. x < mapped_len (mmios w M) \<Longrightarrow> content w1 M x =
       (if policy (mmios w M) = REDO then overlay (content w M) off n (\<lambda>j. bytes (mem w) (buf + j)) x else content w M x)"
    using write_entry_file [OF E inv at n buf] by blast
  note tw = touches_only_world [OF t]
  have off: "off < mapped_len (mmios w M)" using n by linarith
  have lk: "rwlockp (idxs w1 p) = rwlockp (idxs w p)" for p
    using t by (cases "p = entry") (simp_all add: touches_only_def only_entry_def Let_def)
  have bv: "bravo w1 = bravo w" using t by (simp add: touches_only_def only_entry_def Let_def)
  define w2 where "w2 = FENCE (upd_mmio M (\<lambda>m. m\<lparr>write_cnt := increase_counter (write_cnt m)\<rparr>) w1)"
  have s2: "same_index M w1 w2" by (simp add: same_index_def Let_def w2_def)
  note e2 = same_index_eqs [OF s2]
  have b2: "bytes (mem w2) = bytes (mem w1)" "bravo w2 = bravo w1"
    "mmios w2 = (mmios w)(M := (mmios w M)\<lparr>write_cnt := increase_counter (write_cnt (mmios w M))\<rparr>)"
    by (simp_all add: w2_def tw)
  have loop: "write_loop E M [entry] off (start (mmios w M) + off) buf n 0 w = Inr (n, w1)" using r by simp
  show thesis
  proof (cases "policy (mmios w M)")
    case REDO
    have "written LA M off n buf w w2"
      using inv1 c s2 by (simp add: written_def e2 b2 bv lk tw REDO) (simp add: same_index_def Let_def tw)
    then show thesis using that [OF loop, of w2] REDO by (simp add: Let_def w2_def [symmetric] e2 tw)
  next
    case UNDO
    have acc: "accessible (mem w1) = accessible (mem w)" by (intro ext) (simp add: accessible_def tw)
    have buf2: "user_buffer LA w2 M buf n" using buf by (simp add: e2 user_buffer_def tw acc)
    have bb: "bytes (mem w1) (buf + j) = bytes (mem w) (buf + j)" if "j < n" for j
      using t that block_request_file [OF inv at n buf] by (auto simp: touches_only_def block_request_def disjoint_ranges_def Let_def)
    have p2: "policy (mmios w2 M) = UNDO" "off + n \<le> mapped_len (mmios w2 M)" "file_inv LA w2 M"
      using UNDO n inv1 by (simp_all add: e2 tw)
    note st = in_place_store [OF E p2(3,1,2) buf2]
    let ?w3 = "FENCE (stored (start (mmios w2 M) + off) buf n w2)"
    have "content ?w3 M x = overlay (content w M) off n (\<lambda>j. bytes (mem w) (buf + j)) x" if "x < mapped_len (mmios w M)" for x
    proof -
      have "x < mapped_len (mmios w2 M)" using that by (simp add: e2(4) tw)
      from st(3) [OF this] show ?thesis using that c [OF that] bb [of "x - off"] UNDO
        by (auto simp: e2(12) [OF b2(1)] b2(1) overlay_def)
    qed
    then have "written LA M off n buf w ?w3"
      using inv1 same_index_eqs [OF st(2)] b2 bv lk tw s2 st(2)
      by (simp add: written_def e2 stored_bravo) (simp add: same_index_def Let_def)
    then show thesis using that [OF loop, of ?w3] st(1) p2(1) by (simp add: Let_def w2_def [symmetric])
  qed
qed


subsection \<open>The frame of a request on one block\<close>

text \<open>The entry of the block is locked and the file is as it was.\<close>

definition in_request :: "addr set \<Rightarrow> lock_kind \<Rightarrow> tid \<Rightarrow> ptr \<Rightarrow> nat \<Rightarrow> nat \<Rightarrow> ptr \<Rightarrow> world \<Rightarrow> world \<Rightarrow> bool" where
  "in_request LA k t M off n entry w w' \<longleftrightarrow>
     file_inv LA w' M \<and> entry_at w' M off = Some entry \<and> found_or_new M off entry w w' \<and> trylock k RWLOCK_INIT = Some (rwlockp (idxs w' entry)) \<and>
     unlocked_but (Some entry) w' M \<and> read_held t M w' \<and> mem w' = mem w \<and> ptrace w' = ptrace w \<and>
     (\<forall>x < mapped_len (mmios w M). content w' M x = content w M x) \<and>
     (\<exists>b r. mmios w' M = (mmios w M)\<lparr>rwlock := b, radixlog := r\<rparr>) \<and>
     leaf_size w' M off = target_size w M off n \<and>
     0 < n \<and> off + n \<le> mapped_len (mmios w M) \<and> off mod bsize w' M off + n \<le> bsize w' M off"

lemma request_begin:
  assumes rdy: "ready LA t w M" and one: "one_block w M off n" and small: "n < 2 ^ 31"
  obtains w1 where "mm_read_lock t M w = Inr w1" and "\<not> check_expend (mmios w1 M) off n"
    and "case LOCK_ENTRIES k t M (c_int (int n)) off [] w1 of
      Inl e \<Rightarrow> e = Exit ''global->skip_list is empty'' \<and> entry_at w M off = None
    | Inr (head, w2) \<Rightarrow> \<exists>entry. head = [entry] \<and> in_request LA k t M off n entry w w2"
proof -
  have "lock_idle t M w" using rdy by (simp add: ready_def)
  then obtain w1 where w1: "mm_read_lock t M w = Inr w1" and r1: "relocked M w w1" and h1: "read_held t M w1"
    by (rule mm_read_lock_idle)
  note s1 = relocked_world [OF r1] and e1 = same_index_eqs [OF relocked_world(1) [OF r1]]
  have inv1: "file_inv LA w1 M" and u1: "unlocked_but None w1 M" and one1: "one_block w1 M off n"
    using rdy one by (simp_all add: e1 ready_def)
  have le: "0 < n" "off + n \<le> mapped_len (mmios w M)" using one by (simp_all add: one_block_def)
  then have ne: "\<not> check_expend (mmios w1 M) off n" using no_expend [OF inv1] by (simp add: e1)
  have ci: "c_int (int n) = int n" using small by (intro c_int_small) simp_all
  have lt: "off + n < 2 ^ 64" using mapped_len_le [OF inv1] le by (simp add: e1)
  have "in_request LA k t M off n entry w w2"
    if l: "trylock k RWLOCK_INIT = Some l" and lb: "locked_block LA M off entry l w1 w2"
      and ls: "leaf_size w2 M off = target_size w1 M off n" for entry l w2
  proof -
    obtain r where m2: "mmios w2 = (mmios w1)(M := (mmios w1 M)\<lparr>radixlog := r\<rparr>)" using lb by (auto simp: locked_block_def)
    obtain b where m1: "mmios w1 M = (mmios w M)\<lparr>rwlock := b\<rparr>" using r1 by (auto simp: relocked_def)
    have "\<exists>b r. mmios w2 M = (mmios w M)\<lparr>rwlock := b, radixlog := r\<rparr>" using m1 m2 by auto
    moreover have "read_held t M w2"
      using read_held_cong [of w2 w1 M t] lb h1 m2 by (simp add: locked_block_def)
    moreover have "off mod bsize w2 M off + n \<le> bsize w2 M off" using one1 by (simp add: one_block_def bsize_def ls)
    moreover have "found_or_new M off entry w w2 = found_or_new M off entry w1 w2" by (simp add: found_or_new_def e1)
    moreover have "leaf_size w2 M off = target_size w M off n" using ls by (simp add: target_size_def e1)
    ultimately show ?thesis using lb l le by (simp add: in_request_def locked_block_def s1 e1)
  qed
  then show thesis using that [OF w1 ne] LOCK_ENTRIES_one_block [OF inv1 u1 one1 lt, of k t] unfolding ci e1(1)
    by (fastforce split: sum.splits)
qed

lemma request_end:
  assumes inv: "file_inv LA w M" and u: "unlocked_but (Some entry) w M"
    and l: "trylock k RWLOCK_INIT = Some (rwlockp (idxs w entry))" and h: "read_held t M w"
  obtains w1 w2 where "UNLOCK_ENTRIES [entry] w = Inr w1" and "mm_read_unlock t M w1 = Inr w2" and "ready LA t w2 M"
    and "content w2 M = content w M" and "mem w2 = mem w" and "ptrace w2 = ptrace w"
    and "entry_at w2 M = entry_at w M" and "leaf_size w2 M = leaf_size w M"
    and "\<exists>b. mmios w2 M = (mmios w M)\<lparr>rwlock := b\<rparr>"
proof -
  define w1 where "w1 = upd_entry entry (\<lambda>e. e\<lparr>rwlockp := RWLOCK_INIT\<rparr>) w"
  note ul = UNLOCK_ENTRIES_one [OF inv u l, folded w1_def]
  have "read_held t M w1" using read_held_cong [of w1 w M t] h by (simp add: w1_def)
  then obtain w2 where w2: "mm_read_unlock t M w1 = Inr w2" and r: "relocked M w1 w2" and i: "lock_idle t M w2"
    by (rule mm_read_unlock_held)
  note e = same_index_eqs [OF relocked_world(1) [OF r]] and s = relocked_world [OF r]
  have "ready LA t w2 M" using ul i by (simp add: ready_def e)
  moreover have "\<exists>b. mmios w2 M = (mmios w M)\<lparr>rwlock := b\<rparr>" using r by (auto simp: relocked_def w1_def)
  ultimately show thesis using that [OF ul(1) w2] ul(4) by (simp add: e s w1_def)
qed

lemma one_blockI:
  assumes "entry_at w M off = Some entry" and "0 < n" and "off + n \<le> mapped_len (mmios w M)"
    and "off mod bsize w M off + n \<le> bsize w M off"
  shows "one_block w M off n"
proof -
  have "leaf_size w M off < NR_LOG_SIZES"
    using assms(1) by (auto simp: entry_at_def leaf_size_def split: option.splits if_splits)
  then show ?thesis using assms by (simp add: one_block_def target_size_def bsize_def)
qed

lemma mmio_write_one_block_result:
  assumes E: "pmem_copies E" and rdy: "ready LA t w M" and one: "one_block w M off n" and small: "n < 2 ^ 31"
    and buf: "user_buffer LA w M buf n"
  shows "case mmio_write E t M fd off buf n w of
      Inl e \<Rightarrow> e = Exit ''global->skip_list is empty'' \<and> entry_at w M off = None
    | Inr (ret, w') \<Rightarrow> ret = n \<and> ready LA t w' M \<and> entry_at w' M off \<noteq> None \<and> one_block w' M off n \<and>
        regions (mem w') = regions (mem w) \<and> start (mmios w' M) = start (mmios w M) \<and> policy (mmios w' M) = policy (mmios w M) \<and>
        mapped_len (mmios w' M) = mapped_len (mmios w M) \<and> fsize (mmios w' M) = max (fsize (mmios w M)) (int off + int n) \<and>
        (\<forall>x < mapped_len (mmios w M). content w' M x = overlay (content w M) off n (\<lambda>j. bytes (mem w) (buf + j)) x)"
proof -
  have ci: "nat (c_int (int n)) = n" using small by (simp add: c_int_small)
  obtain w1 where w1: "mm_read_lock t M w = Inr w1" and ne: "\<not> check_expend (mmios w1 M) off n"
    and lk: "case LOCK_ENTRIES WR t M (c_int (int n)) off [] w1 of
      Inl e \<Rightarrow> e = Exit ''global->skip_list is empty'' \<and> entry_at w M off = None
    | Inr (head, w2) \<Rightarrow> \<exists>entry. head = [entry] \<and> in_request LA WR t M off n entry w w2"
    by (rule request_begin [OF rdy one small])
  show ?thesis
  proof (cases "LOCK_ENTRIES WR t M (c_int (int n)) off [] w1")
    case (Inl e)
    then show ?thesis using lk w1 ne by (simp add: mmio_write_def)
  next
    case (Inr y)
    then obtain entry w2 where y: "y = ([entry], w2)" and rq: "in_request LA WR t M off n entry w w2" using lk by auto
    note q = rq [unfolded in_request_def]
    obtain b r where m2: "mmios w2 M = (mmios w M)\<lparr>rwlock := b, radixlog := r\<rparr>" using q by blast
    have buf2: "user_buffer LA w2 M buf n" and n2: "off + n \<le> mapped_len (mmios w2 M)"
      using buf q m2 by (simp_all add: user_buffer_def)
    obtain w3 w4 where w3: "write_loop E M [entry] off (start (mmios w2 M) + off) buf n 0 w2 = Inr (n, w3)"
      and w4: "(let w2 = FENCE (upd_mmio M (\<lambda>m. m\<lparr>write_cnt := increase_counter (write_cnt m)\<rparr>) w3) in
          if policy (mmios w2 M) = UNDO
          then bindE (NTSTORE E (start (mmios w2 M) + off) buf n w2) (\<lambda>w. Inr (FENCE w)) else Inr w2) = Inr w4"
      and wr: "written LA M off n buf w2 w4"
      using write_and_store [OF E _ _ _ n2 _ buf2, of entry] q by blast
    define w5 where "w5 = upd_mmio M (\<lambda>m. if fsize m < int off + int n then m\<lparr>fsize := int off + int n\<rparr> else m) w4"
    have s5: "same_index M w4 w5" by (simp add: same_index_def Let_def w5_def)
    note e5 = same_index_eqs [OF s5]
    have c5: "content w5 M = content w4 M" by (rule e5(12)) (simp add: w5_def)
    have i5: "file_inv LA w5 M" using wr by (simp add: e5 written_def)
    have u5: "unlocked_but (Some entry) w5 M" using q wr by (simp add: e5 unlocked_but_def written_def)
    have l5: "trylock WR RWLOCK_INIT = Some (rwlockp (idxs w5 entry))" using q wr by (simp add: e5 written_def)
    have h5: "read_held t M w5" using read_held_cong [of w5 w2 M t] q wr by (simp add: written_def w5_def)
    obtain w6 w7 where w6: "UNLOCK_ENTRIES [entry] w5 = Inr w6" and w7: "mm_read_unlock t M w6 = Inr w7" "ready LA t w7 M"
      and c7: "content w7 M = content w5 M" "mem w7 = mem w5" "entry_at w7 M = entry_at w5 M" "leaf_size w7 M = leaf_size w5 M" and m7: "\<exists>b. mmios w7 M = (mmios w5 M)\<lparr>rwlock := b\<rparr>"
      by (rule request_end [OF i5 u5 l5 h5])
    have run: "mmio_write E t M fd off buf n w = Inr (n, w7)"
      using w1 ne ci Inr y w3 w4 w6 w7(1) unfolding mmio_write_def Let_def
      by (simp add: w5_def [symmetric] del: write_loop.simps)
    have "content w7 M x = overlay (content w M) off n (\<lambda>j. bytes (mem w) (buf + j)) x" if "x < mapped_len (mmios w M)" for x
      using that wr q by (auto simp: c7(1) c5 written_def m2 overlay_def)
    moreover have "policy (mmios w7 M) = policy (mmios w M)" "mapped_len (mmios w7 M) = mapped_len (mmios w M)"
        "fsize (mmios w7 M) = max (fsize (mmios w M)) (int off + int n)"
        "start (mmios w7 M) = start (mmios w M)" "regions (mem w7) = regions (mem w)"
      using m7 wr q by (auto simp: w5_def written_def m2 c7)
    moreover have at7: "entry_at w7 M off = Some entry" "leaf_size w7 M = leaf_size w2 M" using wr q by (simp_all add: c7 e5 written_def)
    moreover have "one_block w7 M off n"
    proof (rule one_blockI [OF at7(1)])
      show "0 < n" "off + n \<le> mapped_len (mmios w7 M)" "off mod bsize w7 M off + n \<le> bsize w7 M off"
        using q calculation(3) at7(2) by (auto simp: bsize_def)
    qed
    ultimately show ?thesis using run w7(2) by simp
  qed
qed


text \<open>
  C1: A write that fits one block of the mapped file (\<^verbatim>\<open>mmio_write\<close> under either policy) either
  ends the process because the block has no log yet and a pool of tables, entries or log
  space is empty, or returns the
  number of bytes asked for, changes the contents of the file exactly by the bytes of the
  buffer, and extends the recorded size of the file to the end of the request; the file is
  then ready for the next request, no entry and no lock left held.
\<close>

theorem mmio_write_one_block:
  assumes "pmem_copies E" and "ready LA t w M" and "one_block w M off n" and "n < 2 ^ 31"
    and "user_buffer LA w M buf n"
  shows "case mmio_write E t M fd off buf n w of
      Inl e \<Rightarrow> e = Exit ''global->skip_list is empty'' \<and> entry_at w M off = None
    | Inr (ret, w') \<Rightarrow> ret = n \<and> ready LA t w' M \<and> entry_at w' M off \<noteq> None \<and> one_block w' M off n \<and>
        regions (mem w') = regions (mem w) \<and> start (mmios w' M) = start (mmios w M) \<and> policy (mmios w' M) = policy (mmios w M) \<and>
        mapped_len (mmios w' M) = mapped_len (mmios w M) \<and> fsize (mmios w' M) = max (fsize (mmios w M)) (int off + int n) \<and>
        (\<forall>x < mapped_len (mmios w M). content w' M x = overlay (content w M) off n (\<lambda>j. bytes (mem w) (buf + j)) x)"
  by (rule mmio_write_one_block_result [OF assms])

subsection \<open>mmio_read on one block\<close>

lemma content_frame:
  assumes inv: "file_inv LA w M" and s: "same_index M w w'"
    and f: "\<And>a. a \<in> LA \<or> start (mmios w M) \<le> a \<and> a < start (mmios w M) + mapped_len (mmios w M) \<Longrightarrow> bytes (mem w') a = bytes (mem w) a"
    and x: "x < mapped_len (mmios w M)"
  shows "content w' M x = content w M x"
proof -
  have fb: "bytes (mem w') (start (mmios w M) + x) = bytes (mem w) (start (mmios w M) + x)" using f x by simp
  have bo: "boff w M x + x mod bsize w M x = x" "boff w' M x = boff w M x" by (simp_all add: boff_def same_index_eqs [OF s])
  show ?thesis
  proof (cases "entry_at w M x")
    case None
    then show ?thesis using fb by (simp add: content_def same_index_eqs [OF s])
  next
    case (Some e)
    have "{log (idxs w e)..<log (idxs w e) + bsize w M x} \<subseteq> LA"
      using block_entry(2) [OF inv x Some] by (simp add: entry_fits_def)
    moreover have "log (idxs w e) + x mod bsize w M x \<in> {log (idxs w e)..<log (idxs w e) + bsize w M x}" by (simp add: bsize_def)
    ultimately have "bytes (mem w') (log (idxs w e) + x mod bsize w M x) = bytes (mem w) (log (idxs w e) + x mod bsize w M x)"
      using f by blast
    then show ?thesis
      using fb bo Some by (simp add: content_def entry_view_def redo_view_def same_index_eqs [OF s] add.assoc)
  qed
qed

lemma filled_file:
  assumes inv: "file_inv LA w M" and buf: "user_buffer LA w M buf n"
  shows "same_index M w (filled buf n f w)"
    and "x < mapped_len (mmios w M) \<Longrightarrow> content (filled buf n f w) M x = content w M x"
proof -
  show s: "same_index M w (filled buf n f w)" by (simp add: same_index_def filled_def Let_def)
  show "content (filled buf n f w) M x = content w M x" if "x < mapped_len (mmios w M)"
  proof (rule content_frame [OF inv s _ that])
    fix a assume a: "a \<in> LA \<or> start (mmios w M) \<le> a \<and> a < start (mmios w M) + mapped_len (mmios w M)"
    have "a \<notin> {buf..<buf + n}" using a buf by (auto simp: user_buffer_def disjoint_ranges_def)
    then show "bytes (mem (filled buf n f w)) a = bytes (mem w) a" by (auto simp: filled_def overlay_def)
  qed
qed


text \<open>The one case in which a redo read goes wrong: the log ends inside the request.\<close>

definition log_ends_inside :: "idx_entry \<Rightarrow> nat \<Rightarrow> nat \<Rightarrow> bool" where
  "log_ends_inside e off n \<longleftrightarrow>
     0 < e_len e \<and> off mod LOG_SIZE (log_size e) \<le> e_offset e \<and>
     e_offset e + e_len e < off mod LOG_SIZE (log_size e) + n"

lemma read_block:
  assumes inv: "file_inv LA w M" and at: "entry_at w M off = Some entry"
    and n: "0 < n" "off + n \<le> mapped_len (mmios w M)" "off mod bsize w M off + n \<le> bsize w M off"
    and buf: "user_buffer LA w M buf n"
    and c: "policy (mmios w M) = REDO \<Longrightarrow> \<not> log_ends_inside (idxs w entry) off n"
  shows "(case policy (mmios w M) of
      UNDO \<Rightarrow> w_memcpy buf (start (mmios w M) + off) n w
    | REDO \<Rightarrow> read_redolog [entry] buf (start (mmios w M)) off n w) = Inr (filled buf n (\<lambda>j. content w M (off + j)) w)"
proof -
  let ?m = "mmios w M" and ?b = "start (mmios w M) + boff w M off" and ?B = "bsize w M off"
  have off: "off < mapped_len ?m" using n by linarith
  note be = block_entry [OF inv off at]
  show ?thesis
  proof (cases "policy ?m")
    case UNDO
    have "accessible (mem w) (start ?m) (mapped_len ?m)" using inv by (simp add: file_inv_def map_ok_def Let_def)
    then have a: "accessible (mem w) (start ?m + off) n" by (rule accessible_sub) (use n in auto)
    have "w_memcpy buf (start ?m + off) n w = Inr (filled buf n (\<lambda>j. bytes (mem w) (start ?m + off + j)) w)"
      using w_memcpy_filled a buf by (simp add: user_buffer_def)
    moreover have "filled buf n (\<lambda>j. bytes (mem w) (start ?m + off + j)) w = filled buf n (\<lambda>j. content w M (off + j)) w"
      using n by (intro filled_cong) (simp add: content_undo [OF inv UNDO] add.assoc)
    ultimately show ?thesis using UNDO by simp
  next
    case REDO
    note req = block_request_file [OF inv at n buf]
    have fa: "start ?m + off = ?b + off mod ?B" using content_block(3) [OF inv off at off at] by simp
    have nc: "\<not> (0 < e_len (idxs w entry) \<and> off mod ?B \<le> e_offset (idxs w entry) \<and>
        e_offset (idxs w entry) + e_len (idxs w entry) < off mod ?B + n)"
      using c REDO be(3) by (simp add: log_ends_inside_def bsize_def)
    note r = read_entry_view_result [OF entry_inv_ok [OF be(4)] req fa nc]
    have "redo_view (bytes (mem w)) (idxs w entry) ?b (off mod ?B + j) = content w M (off + j)" if j: "j < n" for j
    proof -
      have ir: "in_range off n (off + j)" using j by (simp add: in_range_def)
      have x: "off + j < mapped_len ?m" using j n by simp
      have d: "(off + j) div ?B = off div ?B" by (rule in_range_block [OF n(3) ir])
      then have at': "entry_at w M (off + j) = Some entry" using same_block_entry(1) [OF inv off at x] by simp
      have "(off + j) mod ?B = off mod ?B + j"
        using content_block(3) [OF inv off at x at'] content_block(3) [OF inv off at off at] by linarith
      then show ?thesis using content_block(1) [OF inv off at x at'] be(2) REDO
        by (auto simp: entry_view_def entry_fits_def redo_view_def in_range_def)
    qed
    then have "filled buf n (\<lambda>j. redo_view (bytes (mem w)) (idxs w entry) ?b (off mod ?B + j)) w =
        filled buf n (\<lambda>j. content w M (off + j)) w" by (intro filled_cong)
    then show ?thesis using r REDO by simp
  qed
qed

text \<open>The number of bytes a read returns.\<close>

definition readable :: "world \<Rightarrow> ptr \<Rightarrow> nat \<Rightarrow> nat \<Rightarrow> nat" where
  "readable w M off n = min n (nat (fsize (mmios w M)) - off)"

lemma mmio_read_one_block_result:
  assumes rdy: "ready LA t w M" and one: "one_block w M off n" and small: "n < 2 ^ 31"
    and buf: "user_buffer LA w M buf n" and fs: "int off < fsize (mmios w M)" "fsize (mmios w M) < 2 ^ 63"
    and c: "\<And>e. policy (mmios w M) = REDO \<Longrightarrow> entry_at w M off = Some e \<Longrightarrow>
              \<not> log_ends_inside (idxs w e) off (readable w M off n)"
  shows "case mmio_read t M off buf n w of
      Inl e \<Rightarrow> e = Exit ''global->skip_list is empty'' \<and> entry_at w M off = None
    | Inr (ret, w') \<Rightarrow> ret = readable w M off n \<and> ready LA t w' M \<and>
        mem w' = mem (filled buf ret (\<lambda>j. content w M (off + j)) w) \<and>
        (\<forall>x < mapped_len (mmios w M). content w' M x = content w M x) \<and>
        mapped_len (mmios w' M) = mapped_len (mmios w M) \<and> fsize (mmios w' M) = fsize (mmios w M) \<and>
        policy (mmios w' M) = policy (mmios w M)"
proof -
  let ?k = "readable w M off n"
  obtain w1 where w1: "mm_read_lock t M w = Inr w1"
    and lk: "case LOCK_ENTRIES RD t M (c_int (int n)) off [] w1 of
      Inl e \<Rightarrow> e = Exit ''global->skip_list is empty'' \<and> entry_at w M off = None
    | Inr (head, w2) \<Rightarrow> \<exists>entry. head = [entry] \<and> in_request LA RD t M off n entry w w2"
    by (rule request_begin [OF rdy one small])
  show ?thesis
  proof (cases "LOCK_ENTRIES RD t M (c_int (int n)) off [] w1")
    case (Inl e)
    then show ?thesis using lk w1 by (simp add: mmio_read_def)
  next
    case (Inr y)
    then obtain entry w2 where y: "y = ([entry], w2)" and rq: "in_request LA RD t M off n entry w w2" using lk by auto
    note q = rq [unfolded in_request_def]
    obtain b r where m2: "mmios w2 M = (mmios w M)\<lparr>rwlock := b, radixlog := r\<rparr>" using q by blast
    have k: "(if check_fsize (mmios w2 M) off n then nat ((fsize (mmios w2 M) - int off) mod 2 ^ 64) else n) = ?k"
      using fs by (auto simp: m2 check_fsize_def readable_def mod_pos_pos_trivial)
    have kn: "0 < ?k" "?k \<le> n" using fs q by (auto simp: readable_def)
    have buf2: "user_buffer LA w2 M buf ?k"
      using user_buffer_mono [OF buf kn(2)] q m2 by (simp add: user_buffer_def)
    have n2: "off + ?k \<le> mapped_len (mmios w2 M)" "off mod bsize w2 M off + ?k \<le> bsize w2 M off" using q kn m2 by auto
    have off: "off < mapped_len (mmios w2 M)" using n2 kn by linarith
    have c2: "\<not> log_ends_inside (idxs w2 entry) off ?k" if "policy (mmios w2 M) = REDO"
      using c [of entry] that q m2
      by (auto simp: log_ends_inside_def found_or_new_def e_len_def e_offset_def split: if_splits)
    have rd: "(case policy (mmios w2 M) of
      UNDO \<Rightarrow> w_memcpy buf (start (mmios w2 M) + off) ?k w2
    | REDO \<Rightarrow> read_redolog [entry] buf (start (mmios w2 M)) off ?k w2) = Inr (filled buf ?k (\<lambda>j. content w2 M (off + j)) w2)"
      using read_block [OF _ _ kn(1) n2 buf2 c2] q by blast
    define w3 where "w3 = filled buf ?k (\<lambda>j. content w2 M (off + j)) w2"
    define w4 where "w4 = upd_mmio M (\<lambda>m. m\<lparr>read_cnt := increase_counter (read_cnt m)\<rparr>) w3"
    have s4: "same_index M w2 w4" by (simp add: same_index_def w4_def w3_def filled_def Let_def)
    note e4 = same_index_eqs [OF s4]
    have c4: "content w4 M x = content w2 M x" if "x < mapped_len (mmios w2 M)" for x
    proof -
      have "same_index M w3 w4" by (simp add: same_index_def w4_def Let_def)
      then have "content w4 M = content w3 M" by (rule same_index_eqs(12)) (simp add: w4_def)
      then show ?thesis using filled_file(2) [OF _ buf2 that] q by (simp add: w3_def)
    qed
    have h4: "read_held t M w4" using read_held_cong [of w4 w2 M t] q by (simp add: w4_def w3_def filled_def)
    have pre: "file_inv LA w4 M" "unlocked_but (Some entry) w4 M" "trylock RD RWLOCK_INIT = Some (rwlockp (idxs w4 entry))"
      using q by (simp_all add: e4)
    obtain w5 w6 where w5: "UNLOCK_ENTRIES [entry] w4 = Inr w5" and w6: "mm_read_unlock t M w5 = Inr w6" "ready LA t w6 M"
      and c6: "content w6 M = content w4 M" "mem w6 = mem w4" and m6: "\<exists>b. mmios w6 M = (mmios w4 M)\<lparr>rwlock := b\<rparr>"
      by (rule request_end [OF pre h4])
    have run: "mmio_read t M off buf n w = Inr (?k, w6)"
      unfolding mmio_read_def Let_def
      by (simp only: w1 Inr y bindE_Inr prod.case k rd w3_def [symmetric] w4_def [symmetric] w5 w6(1))
    have "mem w6 = mem (filled buf ?k (\<lambda>j. content w M (off + j)) w)"
    proof -
      have "mem w3 = mem (filled buf ?k (\<lambda>j. content w2 M (off + j)) w)" using q by (simp add: w3_def filled_def)
      also have "\<dots> = mem (filled buf ?k (\<lambda>j. content w M (off + j)) w)"
        using q kn by (intro arg_cong [of _ _ mem] filled_cong) simp
      finally show ?thesis by (simp add: c6 w4_def)
    qed
    moreover have "\<forall>x < mapped_len (mmios w M). content w6 M x = content w M x" using q c4 m2 by (simp add: c6)
    moreover have "mapped_len (mmios w6 M) = mapped_len (mmios w M)" "fsize (mmios w6 M) = fsize (mmios w M)"
        "policy (mmios w6 M) = policy (mmios w M)"
      using m6 by (auto simp: w4_def w3_def filled_def m2)
    ultimately show ?thesis using run w6(2) by simp
  qed
qed



lemma mmio_write_then_read_result:
  assumes "pmem_copies E" and "ready LA t w M" and "policy (mmios w M) = UNDO" and "one_block w M off n" and "n < 2 ^ 31"
    and "user_buffer LA w M buf n" and "user_buffer LA w M buf' n" and "fsize (mmios w M) < 2 ^ 63"
    and "mmio_write E t M fd off buf n w = Inr (ret, w1)"
  shows "\<exists>w2. mmio_read t M off buf' n w1 = Inr (n, w2) \<and> (\<forall>j < n. bytes (mem w2) (buf' + j) = bytes (mem w) (buf + j))"
proof -
  let ?c = "overlay (content w M) off n (\<lambda>j. bytes (mem w) (buf + j))"
  have w1: "ready LA t w1 M" "entry_at w1 M off \<noteq> None" "one_block w1 M off n" "regions (mem w1) = regions (mem w)"
    "start (mmios w1 M) = start (mmios w M)" "policy (mmios w1 M) = UNDO" "mapped_len (mmios w1 M) = mapped_len (mmios w M)"
    "fsize (mmios w1 M) = max (fsize (mmios w M)) (int off + int n)"
    and c: "\<And>x. x < mapped_len (mmios w M) \<Longrightarrow> content w1 M x = ?c x"
    using mmio_write_one_block_result [OF assms(1,2,4,5,6), of fd] assms(3,9) by auto
  have n: "0 < n" "off + n \<le> mapped_len (mmios w M)" using assms(4) by (simp_all add: one_block_def)
  have "off + n \<le> 2 ^ 48" using mapped_len_le [of LA w M] n assms(2) by (simp add: ready_def)
  then have fs: "int off < fsize (mmios w1 M)" "fsize (mmios w1 M) < 2 ^ 63" "readable w1 M off n = n"
    using w1(8) assms(8) n by (auto simp: readable_def)
  have b: "user_buffer LA w1 M buf' n" using assms(7) w1(4,5,7) by (simp add: user_buffer_def accessible_def)
  obtain w2 where "mmio_read t M off buf' n w1 = Inr (n, w2)" and "mem w2 = mem (filled buf' n (\<lambda>j. content w1 M (off + j)) w1)"
    using mmio_read_one_block_result [OF w1(1,3) assms(5) b fs(1,2)] w1(2,6) fs(3)
    by (cases "mmio_read t M off buf' n w1") auto
  then show ?thesis using c n by (auto simp: filled_def overlay_def)
qed


subsection \<open>The example process\<close>

definition ex_logs :: "addr set" where
  "ex_logs = {2 ^ 14..<2 ^ 15}"

lemma ex_index [simp]:
  "find_log_table (ex_world p) ex_root off = Some 50" "leaf_size (ex_world p) M off = 0"
  "entry_at (ex_world p) M off = (if TABLE_INDEX 0 off = 0 then Some 70 else None)"
  "mapped_len (ex_mmio p) = 2 ^ 21" "bsize (ex_world p) M off = 4096"
  by (simp_all add: find_log_table_def leaf_size_def entry_at_def child_def mapped_len_def bsize_def LOG_SIZE_eq)
    (simp_all add: ex_table_def NR_LOG_SIZES_def child_def)

lemma empty_pool_inv [simp]: "0 < u \<Longrightarrow> u < 2 ^ 64 \<Longrightarrow> pool_inv (empty_pool u)" "avail (empty_pool u) = {}"
proof -
  have o: "objs_at (empty_pool u) l = []" for l by (cases l) (simp_all add: empty_pool_def alloc_flist_def objs_def)
  show "avail (empty_pool u) = {}" by (simp add: avail_def o)
  have g: "global (empty_pool u) = alloc_flist u" "collector (empty_pool u) = (\<lambda>_. None)" by (simp_all add: empty_pool_def)
  show "pool_inv (empty_pool u)" if "0 < u" "u < 2 ^ 64"
    using that by (simp add: pool_inv_def separated_def o g) (simp add: global_ok_def alloc_flist_def batched_def objs_def)
qed

lemma ex_pools [simp]:
  "idx_pool (ex_world p) = empty_pool NR_NODE_FILL" "log_pool (ex_world p) s = empty_pool NR_NODE_FILL"
  by (simp_all add: ex_world_def)

lemma ex_block0: "TABLE_INDEX 0 off = 0 \<Longrightarrow> off < 2 ^ 21 \<Longrightarrow> off < 4096"
  using index_block [of 0 off 0] by (simp add: NR_LOG_SIZES_def LOG_SIZE_eq TABLE_INDEX_def)

lemma ex_ready: "ready ex_logs 5 (ex_world p) 1"
proof -
  have "map_ok ex_logs (ex_world p) 1"
    by (simp add: map_ok_def Let_def accessible_def) (auto simp: ex_logs_def)
  moreover have "leaves_ok (ex_world p) 1"
    by (simp add: leaves_ok_def Let_def ex_radix_inv start_type_def) (simp add: ex_table_def capacity_def depth_def NR_LOG_SIZES_def)
  moreover have "entries_ok ex_logs (ex_world p) 1"
    using ex_block0 by (auto simp: entries_ok_def entry_fits_def entry_inv_def entry_ok_def Let_def boff_def bpart_def
        accessible_def disjoint_ranges_def LOG_SIZE_eq NR_LOG_SIZES_def ex_logs_def)
  moreover have "spares_ok ex_logs (ex_world p) 1" by (simp add: spares_ok_def NR_NODE_FILL_def)
  ultimately show ?thesis
    by (simp add: ready_def file_inv_def unlocked_but_def lock_idle_def bravo_rwlock_init_def RWLOCK_INIT_def)
qed


lemma ex_request: "one_block (ex_world p) 1 100 50" "user_buffer ex_logs (ex_world p) 1 (2 ^ 15) 50"
  by (simp_all add: one_block_def target_size_def NR_LOG_SIZES_def LOG_SIZE_eq user_buffer_def accessible_def disjoint_ranges_def ex_logs_def)

lemma ex_index_100 [simp]: "TABLE_INDEX 0 100 = 0"
  using index_block [of 0 100 0] by (simp add: NR_LOG_SIZES_def LOG_SIZE_eq TABLE_INDEX_def)

lemma ex_write_runs: "\<exists>w'. mmio_write ex_env 5 1 3 100 (2 ^ 15) 50 (ex_world p) = Inr (50, w')"
proof -
  have "(50::nat) < 2 ^ 31" by simp
  from mmio_write_one_block_result [OF ex_env_copies ex_ready [of p] ex_request(1) this ex_request(2), of 3]
  show ?thesis by (cases "mmio_write ex_env 5 1 3 100 (2 ^ 15) 50 (ex_world p)") auto
qed

theorem mmio_write_one_block_witness:
  "\<exists>w'. mmio_write ex_env 5 1 3 100 (2 ^ 15) 50 (ex_world REDO) = Inr (50, w') \<and>
     content w' 1 99 = 99 \<and> content w' 1 100 = 7 \<and> ready ex_logs 5 w' 1"
proof -
  have v: "content (ex_world REDO) M 99 = 99" for M
    using ex_block0 [of 99] by (simp add: content_def entry_view_def ex_byte_def boff_def)
  have "case mmio_write ex_env 5 1 3 100 (2 ^ 15) 50 (ex_world REDO) of
      Inl e \<Rightarrow> e = Exit ''global->skip_list is empty'' \<and> entry_at (ex_world REDO) 1 100 = None
    | Inr (ret, w') \<Rightarrow> ret = 50 \<and> ready ex_logs 5 w' 1 \<and> entry_at w' 1 100 \<noteq> None \<and> one_block w' 1 100 50 \<and>
        regions (mem w') = regions (mem (ex_world REDO)) \<and> start (mmios w' 1) = start (mmios (ex_world REDO) 1) \<and>
        policy (mmios w' 1) = policy (mmios (ex_world REDO) 1) \<and>
        mapped_len (mmios w' 1) = mapped_len (mmios (ex_world REDO) 1) \<and>
        fsize (mmios w' 1) = max (fsize (mmios (ex_world REDO) 1)) (int 100 + int 50) \<and>
        (\<forall>x < mapped_len (mmios (ex_world REDO) 1). content w' 1 x =
           overlay (content (ex_world REDO) 1) 100 50 (\<lambda>j. bytes (mem (ex_world REDO)) (2 ^ 15 + j)) x)"
    by (rule mmio_write_one_block [OF ex_env_copies ex_ready ex_request(1) _ ex_request(2)]) simp
  then show ?thesis
    by (cases "mmio_write ex_env 5 1 3 100 (2 ^ 15) 50 (ex_world REDO)") (auto simp: overlay_def v ex_byte_def)
qed




end
