(* ===== verification/Commit.thy ===== *)
theory Commit
  imports MmioSpec
begin

text \<open>
  The rest of mmio.c: the spinning of \<^verbatim>\<open>LOCK_ENTRIES\<close>, the growth of a mapping
  (\<^verbatim>\<open>expend_mmio\<close>), and \<^verbatim>\<open>commit_mmio\<close> with the policy decision.
\<close>

subsection \<open>Spinning on an entry\<close>

lemma get_log_entry_child:
  assumes "get_log_entry t ep tb i s w = Inr (entry, w1)"
  shows "child w1 tb i = Some entry"
  using assms by (auto simp: get_log_entry_def child_def set_table_entry_def Let_def free_idx_entry_eq free_log_data_def
      alloc_idx_entry_def alloc_log_data_def elim!: bindE_InrE split: option.splits)

lemma lock_spin_held:
  assumes "child w tb i = Some entry" and "trylock k (rwlockp (idxs w entry)) = None"
  shows "lock_spin fuel k t ep tb i s w = Inl Blocked"
  using assms by (induction fuel) (simp_all add: get_log_entry_def)


subsection \<open>Growing the mapping\<close>

text \<open>Only the mapping of the file has changed.\<close>

definition remapped :: "ptr \<Rightarrow> world \<Rightarrow> world \<Rightarrow> bool" where
  "remapped M w w' \<longleftrightarrow> (\<exists>a b mm. w' = upd_mmio M (\<lambda>m. m\<lparr>start := a, end_addr := b\<rparr>) (w\<lparr>mem := mm\<rparr>))"

lemma remapped_refl: "remapped M w w"
  unfolding remapped_def
  by (intro exI [of _ "start (mmios w M)"] exI [of _ "end_addr (mmios w M)"] exI [of _ "mem w"]) (simp add: upd_mmio_def)

lemma remapped_step:
  "remapped M (upd_mmio M (\<lambda>m. m\<lparr>start := a, end_addr := b\<rparr>) (w\<lparr>mem := mm\<rparr>)) w' \<Longrightarrow> remapped M w w'"
  by (auto simp: remapped_def upd_mmio_def)

declare expend_loop.simps(2) [simp del]

lemma expend_done: "\<not> check_expend (mmios w M) off len \<Longrightarrow> expend_loop fuel E M fd off len w = Inr w"
  by (cases fuel) (simp_all add: expend_loop.simps(2))

text \<open>Each round at least doubles the mapping, so the rounds are logarithmic in the request.\<close>

definition next_len :: "nat \<Rightarrow> nat" where
  "next_len n = (if BASIC_MMAP_SIZE \<le> n then ul (2 * n) else BASIC_MMAP_SIZE)"

definition well_mapped :: "mmio \<Rightarrow> bool" where
  "well_mapped m \<longleftrightarrow> start m \<le> end_addr m"

lemma expend_round:
  assumes "check_expend (mmios w M) off len"
  shows "expend_loop (Suc fuel) E M fd off len w \<in> {Inl (Exit ''fallocate''), Inl (Exit ''mremap'')} \<or>
    (\<exists>w1. expend_loop (Suc fuel) E M fd off len w = expend_loop fuel E M fd off len w1 \<and>
       well_mapped (mmios w1 M) \<and> mapped_len (mmios w1 M) = next_len (mapped_len (mmios w M)) \<and>
       (\<forall>w'. remapped M w1 w' \<longrightarrow> remapped M w w'))"
proof -
  let ?m = "mmios w M" and ?n = "next_len (mapped_len (mmios w M))"
  have r: "expend_loop (Suc fuel) E M fd off len w =
     (if posix_fallocate E fd 0 ?n \<noteq> 0 then Inl (Exit ''fallocate'')
      else case mremap E (start ?m) (mapped_len ?m) ?n (mem w) of
             None \<Rightarrow> Inl (Exit ''mremap'')
           | Some (a, mm) \<Rightarrow> expend_loop fuel E M fd off len
               (upd_mmio M (\<lambda>m. m\<lparr>start := a, end_addr := a + ?n\<rparr>) (w\<lparr>mem := mm\<rparr>)))"
    using assms by (simp add: expend_loop.simps(2) Let_def next_len_def mapped_len_def cong: option.case_cong)
  show ?thesis
  proof (cases "posix_fallocate E fd 0 ?n \<noteq> 0 \<or> mremap E (start ?m) (mapped_len ?m) ?n (mem w) = None")
    case False
    then obtain a mm where "posix_fallocate E fd 0 ?n = 0" "mremap E (start ?m) (mapped_len ?m) ?n (mem w) = Some (a, mm)" by auto
    then show ?thesis using r
      by (intro disjI2 exI [of _ "upd_mmio M (\<lambda>m. m\<lparr>start := a, end_addr := a + ?n\<rparr>) (w\<lparr>mem := mm\<rparr>)"])
        (auto simp: well_mapped_def mapped_len_def intro: remapped_step)
  qed (use r in auto)
qed

lemma expend_loop_result:
  assumes "expend_loop fuel E M fd off len w = Inr w'"
  shows "\<not> check_expend (mmios w' M) off len \<and> remapped M w w'"
  using assms
proof (induction fuel arbitrary: w)
  case 0
  then show ?case by (auto simp: remapped_refl split: if_splits)
next
  case (Suc fuel)
  show ?case
  proof (cases "check_expend (mmios w M) off len")
    case True
    then show ?thesis using expend_round [OF True, of fuel E fd] Suc by fastforce
  next
    case False
    then show ?thesis using Suc.prems by (simp add: expend_done remapped_refl)
  qed
qed

lemma expend_loop_big:
  assumes "well_mapped (mmios w M)" and "BASIC_MMAP_SIZE \<le> mapped_len (mmios w M)"
    and "off + len \<le> mapped_len (mmios w M) * 2 ^ fuel" and "off + len \<le> 2 ^ 63"
  shows "expend_loop fuel E M fd off len w \<noteq> Inl Blocked"
  using assms
proof (induction fuel arbitrary: w)
  case 0
  then show ?case by (auto simp: check_expend_def mapped_len_def well_mapped_def)
next
  case (Suc fuel)
  show ?case
  proof (cases "check_expend (mmios w M) off len")
    case True
    then have "mapped_len (mmios w M) < off + len"
      using Suc.prems(1) by (auto simp: check_expend_def mapped_len_def well_mapped_def)
    then have n: "next_len (mapped_len (mmios w M)) = 2 * mapped_len (mmios w M)"
      using Suc.prems(2,4) by (simp add: next_len_def)
    have "expend_loop fuel E M fd off len w1 \<noteq> Inl Blocked"
      if "well_mapped (mmios w1 M)" "mapped_len (mmios w1 M) = next_len (mapped_len (mmios w M))" for w1
      using Suc.IH [OF that(1)] Suc.prems(2-4) that(2) n by (simp add: ac_simps)
    then show ?thesis using expend_round [OF True, of fuel E fd] by fastforce
  qed (simp add: expend_done)
qed

text \<open>
  C10: The loop of \<^verbatim>\<open>expend_mmio\<close> ends: for a request that ends below \<open>2 ^ 63\<close>, its 64 rounds
  suffice from any mapping, so it either exits because the file system refuses to grow the
  file or the mapping, or it leaves the request within the mapping, having changed nothing
  but the mapping.
\<close>

theorem expend_loop_terminates:
  assumes "start (mmios w M) \<le> end_addr (mmios w M)" and "off + len \<le> 2 ^ 63"
  shows "case expend_loop expend_fuel E M fd off len w of
      Inl e \<Rightarrow> e \<noteq> Blocked
    | Inr w' \<Rightarrow> start (mmios w' M) + off + len \<le> end_addr (mmios w' M) \<and> remapped M w w'"
proof -
  have f: "expend_fuel = Suc 63" by (simp add: expend_fuel_def)
  have b: "expend_loop 63 E M fd off len w1 \<noteq> Inl Blocked"
    if "well_mapped (mmios w1 M)" "BASIC_MMAP_SIZE \<le> mapped_len (mmios w1 M)" for w1
  proof (rule expend_loop_big [OF that _ assms(2)])
    show "off + len \<le> mapped_len (mmios w1 M) * 2 ^ 63"
      using assms(2) that(2) by (simp add: BASIC_MMAP_SIZE_def)
  qed
  have "expend_loop (Suc 63) E M fd off len w \<noteq> Inl Blocked"
  proof (cases "check_expend (mmios w M) off len")
    case True
    then have "mapped_len (mmios w M) < 2 ^ 63"
      using assms by (auto simp: check_expend_def mapped_len_def)
    then have "BASIC_MMAP_SIZE \<le> next_len (mapped_len (mmios w M))" by (simp add: next_len_def)
    then show ?thesis using expend_round [OF True, of 63 E fd] b by fastforce
  qed (simp add: expend_done)
  then show ?thesis unfolding f using expend_loop_result [of "Suc 63" E M fd off len w]
    by (auto simp: check_expend_def split: sum.split)
qed

theorem expend_loop_terminates_witness:
  "case expend_loop expend_fuel ex_env 1 3 (2 ^ 22) 4096 (ex_world UNDO) of
      Inl e \<Rightarrow> e \<noteq> Blocked
    | Inr w' \<Rightarrow> start (mmios w' 1) + 2 ^ 22 + 4096 \<le> end_addr (mmios w' 1) \<and> remapped 1 (ex_world UNDO) w'"
  by (rule expend_loop_terminates) simp_all


subsection \<open>Committing\<close>

text \<open>The writer's own checkpoint finds the lock taken in every chunk and skips them all.\<close>

lemma checkpoint_chunk_held:
  assumes "writer (underlying (rwlock (mmios w M)))" and "\<not> rbias (rwlock (mmios w M))"
  shows "checkpoint_chunk E t M ep off w = Inr (2 ^ 21, w)"
  using bravo_read_trylock_held [OF assms] NR_ENTRIES_LOG_SIZE [of LOG_4K]
  by (simp add: checkpoint_chunk_def LOG_4K_def NR_LOG_SIZES_def)

lemma checkpoint_loop_held:
  assumes "writer (underlying (rwlock (mmios w M)))" and "\<not> rbias (rwlock (mmios w M))"
    and "endoff \<le> off + fuel * 2 ^ 21"
  shows "checkpoint_loop fuel E t M ep endoff off w = Inr w"
  using assms(3) checkpoint_chunk_held [OF assms(1,2)] by (induction fuel arbitrary: off) simp_all

lemma checkpoint_mmio_held:
  assumes "writer (underlying (rwlock (mmios w M)))" and "\<not> rbias (rwlock (mmios w M))"
  shows "checkpoint_mmio E t M w = Inr w"
proof -
  have "n \<le> (n div 2 ^ 21 + 1) * 2 ^ 21" for n :: nat
    using dividend_less_div_times [of "2 ^ 21" n] by (simp add: algebra_simps)
  then show ?thesis unfolding checkpoint_mmio_def Let_def by (intro checkpoint_loop_held assms) simp
qed

definition reset_counters :: "ptr \<Rightarrow> world \<Rightarrow> world" where
  "reset_counters M w =
     (if 0 < ul (read_cnt (mmios w M) + write_cnt (mmios w M)) then upd_mmio M (\<lambda>m. m\<lparr>read_cnt := 0, write_cnt := 0\<rparr>) w else w)"

lemma determine_policy_held:
  assumes "writer (underlying (rwlock (mmios w M)))" and "\<not> rbias (rwlock (mmios w M))"
  shows "determine_policy E t M w = Inr (reset_counters M w)"
  using assms by (simp add: determine_policy_def reset_counters_def Let_def checkpoint_mmio_held)

lemma reset_counters_world:
  "same_index M w (reset_counters M w)" "mem (reset_counters M w) = mem w" "ptrace (reset_counters M w) = ptrace w"
  "bravo (reset_counters M w) = bravo w" "rwlock (mmios (reset_counters M w) M) = rwlock (mmios w M)"
  "fsize (mmios (reset_counters M w) M) = fsize (mmios w M)" "epoch (mmios (reset_counters M w) M) = epoch (mmios w M)"
  by (simp_all add: reset_counters_def same_index_def Let_def)

lemma new_epoch_file:
  fixes w M ep defines "w' \<equiv> upd_mmio M (\<lambda>m. m\<lparr>epoch := ep\<rparr>) w"
  shows "content w' M = content w M" and "file_inv LA w M \<Longrightarrow> file_inv LA w' M"
    and "unlocked_but h w' M = unlocked_but h w M" and "mapped_len (mmios w' M) = mapped_len (mmios w M)"
proof -
  have e: "entry_at w' M = entry_at w M" "leaf_size w' M = leaf_size w M"
    by (intro ext; simp add: w'_def entry_at_def leaf_size_def child_def split: option.split)+
  have b: "bsize w' M = bsize w M" by (intro ext) (simp add: bsize_def e)
  have bo: "boff w' M = boff w M" by (intro ext) (simp add: boff_def b)
  show m: "mapped_len (mmios w' M) = mapped_len (mmios w M)" by (simp add: w'_def)
  have bp: "bpart w' M = bpart w M" by (intro ext) (simp add: bpart_def b bo m)
  have s: "start (mmios w' M) = start (mmios w M)" "end_addr (mmios w' M) = end_addr (mmios w M)"
      "policy (mmios w' M) = policy (mmios w M)" "idxs w' = idxs w" "mem w' = mem w"
      "idx_pool w' = idx_pool w" "log_pool w' = log_pool w" "mapped_len (mmios w' M) = mapped_len (mmios w M)"
    by (simp_all add: w'_def)
  show "content w' M = content w M"
    by (intro ext) (simp add: content_def e b bo s entry_view_def split: option.split)
  show "unlocked_but h w' M = unlocked_but h w M" by (simp add: unlocked_but_def e s)
  assume inv: "file_inv LA w M"
  have "entry_fits LA w' M x q" if "entry_fits LA w M x q" for x q
    using that unfolding entry_fits_def entry_inv_def entry_ok_def Let_def e b bo bp s by auto
  moreover have "logs_disjoint w' = logs_disjoint w" by (intro ext) (simp add: logs_disjoint_def s)
  ultimately have "entries_ok LA w' M" using inv unfolding file_inv_def entries_ok_def e bo s by (simp only:) blast
  moreover have "map_ok LA w' M" "spares_ok LA w' M" using inv by (simp_all add: file_inv_def map_ok_def spares_ok_def Let_def e s)
  moreover have "leaves_ok w' M" using inv by (simp add: file_inv_def leaves_ok_def Let_def w'_def)
  ultimately show "file_inv LA w' M" by (simp add: file_inv_def)
qed

lemma same_tree:
  assumes "tables w' = tables w" and "radixlog (mmios w' M) = radixlog (mmios w M)"
  shows "entry_at w' M = entry_at w M" and "leaf_size w' M = leaf_size w M"
    and "table_pool w' = table_pool w \<Longrightarrow> mapped_len (mmios w' M) = mapped_len (mmios w M) \<Longrightarrow> leaves_ok w' M = leaves_ok w M"
proof -
  note rx = radix_cong [OF assms(1)]
  show "entry_at w' M = entry_at w M" and "leaf_size w' M = leaf_size w M"
    by (intro ext; simp add: entry_at_def leaf_size_def rx assms child_def split: option.split)+
  show "leaves_ok w' M = leaves_ok w M" if "table_pool w' = table_pool w" "mapped_len (mmios w' M) = mapped_len (mmios w M)"
    using that by (simp add: leaves_ok_def Let_def rx assms)
qed

lemma mm_write_lock_idle:
  assumes "bravo_idle M (rwlock (mmios w M)) (bravo w)"
  obtains w1 where "mm_write_lock M w = Inr w1" and "relocked M w w1" and "writer (underlying (rwlock (mmios w1 M)))"
    and "readers (underlying (rwlock (mmios w1 M))) = 0"
    and "\<not> rbias (rwlock (mmios w1 M))" and "visible_readers (bravo w1) = visible_readers (bravo w)"
proof -
  have ok: "bravo_ok (rwlock (mmios w M))" using assms by (simp add: bravo_idle_def bravo_ok_def rwlock_defs)
  obtain b st where r: "bravo_write_lock M (rwlock (mmios w M)) (bravo w) = Inr (b, st)"
    using bravo_write_lock_total [OF assms] by blast
  obtain w1 where w1: "mm_write_lock M w = Inr w1"
    using mm_lock_total [of "bravo_write_lock M", OF r] by (auto simp: mm_write_lock_def)
  have "relocked M w w1" "rwlock (mmios w1 M) = b" "bravo w1 = st"
    using w1 r by (auto simp: mm_write_lock_def elim!: mm_lock_relocked)
  then show thesis using that [OF w1] bravo_write_lock_Inr [OF ok r] by simp
qed

lemma mm_write_unlock_held:
  assumes "writer (underlying (rwlock (mmios w M)))"
  obtains w1 where "mm_write_unlock M w = Inr w1" and "relocked M w w1" and "bravo w1 = bravo w"
    and "underlying (rwlock (mmios w1 M)) = (underlying (rwlock (mmios w M)))\<lparr>writer := False\<rparr>"
proof -
  let ?f = "\<lambda>b st. bindE (bravo_write_unlock b) (\<lambda>b. Inr (b, st))"
  obtain b where b: "bravo_write_unlock (rwlock (mmios w M)) = Inr b" "underlying b = (underlying (rwlock (mmios w M)))\<lparr>writer := False\<rparr>"
    using bravo_write_unlock_held [OF assms] by blast
  then have r: "?f (rwlock (mmios w M)) (bravo w) = Inr (b, bravo w)" by simp
  obtain w1 where w1: "mm_write_unlock M w = Inr w1" using mm_lock_total [of ?f, OF r] by (auto simp: mm_write_unlock_def)
  have "relocked M w w1" "rwlock (mmios w1 M) = b" "bravo w1 = bravo w"
    using w1 r by (auto simp: mm_write_unlock_def elim!: mm_lock_relocked)
  then show thesis using that [OF w1] b by simp
qed

lemma commit_mmio_result:
  assumes rdy: "ready LA t w M" and idle: "bravo_idle M (rwlock (mmios w M)) (bravo w)"
  shows "\<exists>w'. commit_mmio E t M w = Inr w' \<and> ready LA t w' M \<and> bravo_idle M (rwlock (mmios w' M)) (bravo w') \<and>
    content w' M = content w M \<and> mem w' = mem w \<and> ptrace w' = ptrace w @ [PFlush M, PFence] \<and> idxs w' = idxs w \<and>
    epoch (mmios w' M) = ul (epoch (mmios w M) + 1) \<and> policy (mmios w' M) = policy (mmios w M) \<and>
    fsize (mmios w' M) = fsize (mmios w M) \<and> mapped_len (mmios w' M) = mapped_len (mmios w M) \<and>
    tables w' = tables w \<and> radixlog (mmios w' M) = radixlog (mmios w M) \<and> start (mmios w' M) = start (mmios w M) \<and>
    visible_readers (bravo w') = visible_readers (bravo w)"
proof -
  obtain w1 where w1: "mm_write_lock M w = Inr w1" "relocked M w w1" and h1: "writer (underlying (rwlock (mmios w1 M)))"
    "readers (underlying (rwlock (mmios w1 M))) = 0" "\<not> rbias (rwlock (mmios w1 M))" "visible_readers (bravo w1) = visible_readers (bravo w)"
    by (rule mm_write_lock_idle [OF idle])
  note e1 = same_index_eqs [OF relocked_world(1) [OF w1(2)]] and s1 = relocked_world [OF w1(2)]
  let ?ep = "ul (epoch (mmios w M) + 1)"
  define w2 where "w2 = upd_mmio M (\<lambda>m. m\<lparr>epoch := ?ep\<rparr>) w1"
  note n2 = new_epoch_file [where M = M and ep = ?ep and w = w1, folded w2_def]
  define w3 where "w3 = FENCE (FLUSH M w2)"
  have w3: "w3 = FENCE (FLUSH M (upd_mmio M (\<lambda>m. m\<lparr>epoch := ul (epoch m + 1)\<rparr>) w1))"
    by (simp add: w3_def w2_def upd_mmio_def s1)
  have i3: "same_index M w2 w3" by (simp add: w3_def same_index_def Let_def)
  define w4 where "w4 = reset_counters M w3"
  have h3: "rwlock (mmios w3 M) = rwlock (mmios w1 M)" by (simp add: w3_def w2_def)
  have d: "determine_policy E t M w3 = Inr w4" using determine_policy_held [of w3 M E t] h1 by (simp add: h3 w4_def)
  note r4 = reset_counters_world [where w = w3 and M = M, folded w4_def]
  have h4: "writer (underlying (rwlock (mmios w4 M)))" using h1 by (simp add: r4 h3)
  obtain w5 where w5: "mm_write_unlock M w4 = Inr w5" "relocked M w4 w5" "bravo w5 = bravo w4"
    and u5: "underlying (rwlock (mmios w5 M)) = (underlying (rwlock (mmios w4 M)))\<lparr>writer := False\<rparr>"
    by (rule mm_write_unlock_held [OF h4])
  note s5 = relocked_world [OF w5(2)]
  have i5: "same_index M w2 w5" using i3 r4(1) s5(1) same_index_trans by blast
  note e5 = same_index_eqs [OF i5]
  have m5: "mem w5 = mem w2" by (simp add: s5 r4 w3_def)
  have free: "underlying (rwlock (mmios w5 M)) = RWLOCK_INIT" using h1(2) by (simp add: u5 r4 h3 RWLOCK_INIT_def)
  have vis: "visible_readers (bravo w5) = visible_readers (bravo w)" using h1(4) by (simp add: w5 r4 w3_def w2_def)
  have "commit_mmio E t M w = Inr w5" using w1(1) d w5(1) unfolding commit_mmio_def Let_def by (simp only: bindE_Inr w3 [symmetric])
  moreover have "ready LA t w5 M" using rdy n2 free by (simp add: ready_def lock_idle_def e5 e1 vis RWLOCK_INIT_def)
  moreover have "bravo_idle M (rwlock (mmios w5 M)) (bravo w5)" using idle free vis by (simp add: bravo_idle_def)
  moreover have "content w5 M = content w M" using e5(12) m5 n2(1) s1 by (simp add: e1)
  moreover have "mem w5 = mem w" "ptrace w5 = ptrace w @ [PFlush M, PFence]" "idxs w5 = idxs w" "epoch (mmios w5 M) = ?ep"
    "policy (mmios w5 M) = policy (mmios w M)" "fsize (mmios w5 M) = fsize (mmios w M)" "mapped_len (mmios w5 M) = mapped_len (mmios w M)"
    using s5 r4 s1 by (simp_all add: m5 e5 e1) (simp_all add: w3_def w2_def e1 s1)
  moreover have "tables w5 = tables w" "radixlog (mmios w5 M) = radixlog (mmios w M)" "start (mmios w5 M) = start (mmios w M)"
    using i5 s1(1) by (simp_all add: same_index_def Let_def w2_def)
  ultimately show ?thesis using vis by blast
qed


text \<open>
  C5: \<^verbatim>\<open>commit_mmio\<close> on an idle file never fails or waits. It advances the epoch, flushes and
  fences it, and keeps the contents of the file, every log and the memory as they are: the
  checkpoint that a change of the preferred policy asks for skips every chunk, because it
  tries to take for reading the lock that the commit holds for writing. The policy of the
  file stays what it was, whatever the counters say, and all locks are released.
\<close>

theorem commit_mmio_correct:
  assumes "ready LA t w M" and "bravo_idle M (rwlock (mmios w M)) (bravo w)"
  shows "\<exists>w'. commit_mmio E t M w = Inr w' \<and> ready LA t w' M \<and> bravo_idle M (rwlock (mmios w' M)) (bravo w') \<and>
    content w' M = content w M \<and> mem w' = mem w \<and> ptrace w' = ptrace w @ [PFlush M, PFence] \<and> idxs w' = idxs w \<and>
    epoch (mmios w' M) = ul (epoch (mmios w M) + 1) \<and> policy (mmios w' M) = policy (mmios w M) \<and>
    fsize (mmios w' M) = fsize (mmios w M) \<and> mapped_len (mmios w' M) = mapped_len (mmios w M)"
  using commit_mmio_result [OF assms] by blast

theorem commit_mmio_correct_witness:
  "\<exists>w'. commit_mmio ex_env 5 1 (ex_world REDO) = Inr w' \<and> epoch (mmios w' 1) = 2 \<and> policy (mmios w' 1) = REDO \<and>
     ptrace w' = [PFlush 1, PFence]"
proof -
  have "bravo_idle 1 (rwlock (mmios (ex_world REDO) 1)) (bravo (ex_world REDO))"
    by (simp add: bravo_idle_def bravo_rwlock_init_def)
  from commit_mmio_correct [OF ex_ready this, of ex_env] show ?thesis by (auto simp: ex_world_def)
qed

text \<open>
  C33: An index entry has 20 bits for the epoch and the file 64: once the file's epoch
  reaches \<open>2 ^ 20\<close>, every entry counts as left over from an older epoch, whatever epoch was
  stored in it, so every write checkpoints its entry and starts a new log.
\<close>

theorem entry_epoch_truncated:
  assumes "2 ^ 20 \<le> epoch (mmios w M)"
  shows "e_epoch (set_epoch (epoch (mmios w M)) e) < epoch (mmios w M) \<and>
    write_entry E M entry off d src n w = bindE (checkpoint_entry E M entry w) (log_block E M entry off d src n)"
proof -
  have "e_epoch e' < 2 ^ 20" for e' using bf_get_less [of 0 20 "united e'"] by (simp add: e_epoch_def)
  then have "e_epoch e' < epoch (mmios w M)" for e' using assms order_less_le_trans by blast
  then show ?thesis by (simp add: write_entry_def del: e_epoch_set)
qed

theorem entry_epoch_truncated_witness:
  "e_epoch (set_epoch (2 ^ 20) ex_entry) < 2 ^ 20"
  using entry_epoch_truncated [of "upd_mmio 1 (\<lambda>m. m\<lparr>epoch := 2 ^ 20\<rparr>) (ex_world UNDO)" 1 ex_entry] by simp


subsection \<open>Write-ahead order\<close>

text \<open>All stores of a stretch of the trace are into the set.\<close>

definition stores_in :: "addr set \<Rightarrow> pevent list \<Rightarrow> bool" where
  "stores_in A tr \<longleftrightarrow> list_all (\<lambda>ev. case ev of PStore a k \<Rightarrow> {a..<a + k} \<subseteq> A | _ \<Rightarrow> True) tr"

lemma stores_in_simps [simp]:
  "stores_in A []" "stores_in A (PFence # tr) = stores_in A tr" "stores_in A (PFlush p # tr) = stores_in A tr"
  "stores_in A (PStore a k # tr) \<longleftrightarrow> {a..<a + k} \<subseteq> A \<and> stores_in A tr"
  "stores_in A (tr @ tr') \<longleftrightarrow> stores_in A tr \<and> stores_in A tr'"
  by (simp_all add: stores_in_def)

lemma sub_range: "{l..<l + (S::nat)} \<subseteq> A \<Longrightarrow> l \<le> a \<Longrightarrow> a + k \<le> l + S \<Longrightarrow> {a..<a + k} \<subseteq> A"
  by (rule subset_trans [of _ "{l..<l + S}"]) auto

lemma merge_log_trace:
  assumes r: "merge_log E entry d lo n w = Inr w'" and LA: "{log (idxs w entry)..<log (idxs w entry) + S} \<subseteq> LA"
    and n: "lo + n \<le> S" "e_offset (idxs w entry) + e_len (idxs w entry) \<le> S"
  shows "\<exists>tr. ptrace w' = ptrace w @ tr \<and> stores_in LA tr"
proof -
  let ?e = "idxs w entry"
  have st: "ptrace w1 = ptrace w @ [PStore a k] \<and> {a..<a + k} \<subseteq> LA"
    if "NTSTORE E a b k w = Inr w1" "log ?e \<le> a" "a + k \<le> log ?e + S" for a b k w1
    using that sub_range [OF LA that(2,3)] by (auto simp: NTSTORE_def split: if_splits)
  show ?thesis
    using r n unfolding merge_log_def Let_def check_log_def
    by (fastforce elim!: bindE_InrE dest: st split: if_splits)
qed


lemma log_block_trace:
  assumes r: "log_block E M entry off d src n w = Inr (k, w')"
    and LA: "{log (idxs w entry)..<log (idxs w entry) + LOG_SIZE (log_size (idxs w entry))} \<subseteq> LA"
    and n: "LOG_OFFSET off (log_size (idxs w entry)) + n \<le> LOG_SIZE (log_size (idxs w entry))"
      "e_offset (idxs w entry) + e_len (idxs w entry) \<le> LOG_SIZE (log_size (idxs w entry))"
  shows "\<exists>tr. ptrace w' = ptrace w @ PStore (log (idxs w entry) + LOG_OFFSET off (log_size (idxs w entry))) n # tr @ [PFlush entry] \<and>
    stores_in LA tr"
proof -
  let ?e = "idxs w entry" and ?S = "LOG_SIZE (log_size (idxs w entry))" and ?lo = "LOG_OFFSET off (log_size (idxs w entry))"
  have nn: "(if ?S - ?lo < n then ?S - ?lo else n) = n" using n by simp
  obtain w1 w2 where w1: "(case policy (mmios w M) of UNDO \<Rightarrow> NTSTORE E (log ?e + ?lo) d n w | REDO \<Rightarrow> NTSTORE E (log ?e + ?lo) src n w) = Inr w1"
    and w2: "(if 0 < e_len (idxs w1 entry) \<and> n \<noteq> ?S then merge_log E entry d ?lo n w1
        else Inr (upd_entry entry (\<lambda>e. (set_policy (policy (mmios w M)) (set_len n (set_offset ?lo e)))\<lparr>dst := d AND LOG_MASK (log_size ?e)\<rparr>) w1)) = Inr w2"
    and w': "w' = FLUSH entry w2"
    using r unfolding log_block_def Let_def LOG_OFFSET_def [symmetric] nn by (auto elim!: bindE_InrE)
  have t1: "ptrace w1 = ptrace w @ [PStore (log ?e + ?lo) n]" and i1: "idxs w1 = idxs w"
    using w1 by (auto simp: NTSTORE_def split: policy.splits if_splits)
  have "\<exists>tr. ptrace w2 = ptrace w1 @ tr \<and> stores_in LA tr"
  proof (cases "0 < e_len (idxs w1 entry) \<and> n \<noteq> ?S")
    case True
    then have "merge_log E entry d ?lo n w1 = Inr w2" using w2 by simp
    then show ?thesis by (rule merge_log_trace) (use LA n in \<open>simp_all add: i1\<close>)
  next
    case False
    then have "ptrace w2 = ptrace w1" using w2 by (auto split: if_splits)
    then show ?thesis by (intro exI [of _ "[]"]) simp
  qed
  then show ?thesis using t1 w' by auto
qed

text \<open>With an undo log or an empty one, the checkpoint stores nothing.\<close>

lemma write_entry_trace:
  assumes r: "write_entry E M entry off d src n w = Inr (k, w')"
    and LA: "{log (idxs w entry)..<log (idxs w entry) + LOG_SIZE (log_size (idxs w entry))} \<subseteq> LA"
    and n: "LOG_OFFSET off (log_size (idxs w entry)) + n \<le> LOG_SIZE (log_size (idxs w entry))"
      "e_offset (idxs w entry) + e_len (idxs w entry) \<le> LOG_SIZE (log_size (idxs w entry))"
    and u: "e_len (idxs w entry) = 0 \<or> e_policy (idxs w entry) = UNDO"
  shows "\<exists>tr. ptrace w' = ptrace w @ tr @ [PFlush entry] \<and> stores_in LA tr \<and>
    PStore (log (idxs w entry) + LOG_OFFSET off (log_size (idxs w entry))) n \<in> set tr"
proof -
  let ?e = "idxs w entry"
  obtain w1 where w1: "(if e_epoch ?e < epoch (mmios w M) then checkpoint_entry E M entry w else Inr w) = Inr w1"
    and r1: "log_block E M entry off d src n w1 = Inr (k, w')"
    using r by (auto simp: write_entry_def elim!: bindE_InrE)
  have c: "\<exists>tr. ptrace w1 = ptrace w @ tr \<and> stores_in LA tr"
    "log (idxs w1 entry) = log ?e \<and> log_size (idxs w1 entry) = log_size ?e \<and>
     e_offset (idxs w1 entry) + e_len (idxs w1 entry) \<le> LOG_SIZE (log_size ?e)"
    using w1 u n(2) by (auto simp: checkpoint_entry_def copy_log_def NTSTORE_def Let_def elim!: bindE_InrE split: if_splits)
  obtain tr tr1 where "ptrace w1 = ptrace w @ tr" "stores_in LA tr"
    "ptrace w' = ptrace w1 @ PStore (log ?e + LOG_OFFSET off (log_size ?e)) n # tr1 @ [PFlush entry]" "stores_in LA tr1"
    using c log_block_trace [OF r1, of LA] LA n(1) by auto
  moreover have "{log ?e + LOG_OFFSET off (log_size ?e)..<log ?e + LOG_OFFSET off (log_size ?e) + n} \<subseteq> LA"
    using n(1) by (intro sub_range [OF LA]) simp_all
  ultimately show ?thesis
    by (intro exI [of _ "tr @ PStore (log ?e + LOG_OFFSET off (log_size ?e)) n # tr1"]) simp
qed


text \<open>The end of a request: a fence, the store in place, and the release of the locks.\<close>

lemma undo_tail_trace:
  assumes "policy (mmios w M) = UNDO"
    and "bindE (let w = FENCE (upd_mmio M (\<lambda>m. m\<lparr>write_cnt := increase_counter (write_cnt m)\<rparr>) w) in
           if policy (mmios w M) = UNDO
           then bindE (NTSTORE E (start (mmios w M) + off) buf n w) (\<lambda>w. Inr (FENCE w)) else Inr w)
        (\<lambda>w. bindE (UNLOCK_ENTRIES [entry] (upd_mmio M (\<lambda>m. if fsize m < int off + int ret then m\<lparr>fsize := int off + int ret\<rparr> else m) w))
        (\<lambda>w. bindE (mm_read_unlock t M w) (\<lambda>w. Inr (ret, w)))) = Inr (ret', w')"
  shows "ptrace w' = ptrace w @ [PFence, PStore (start (mmios w M) + off) n, PFence]" and "log (idxs w' p) = log (idxs w p)"
proof -
  obtain w1 w2 where w1: "NTSTORE E (start (mmios w M) + off) buf n (FENCE (upd_mmio M (\<lambda>m. m\<lparr>write_cnt := increase_counter (write_cnt m)\<rparr>) w)) = Inr w1"
    and w2: "UNLOCK_ENTRIES [entry] (upd_mmio M (\<lambda>m. if fsize m < int off + int ret then m\<lparr>fsize := int off + int ret\<rparr> else m) (FENCE w1)) = Inr w2"
    and w3: "mm_read_unlock t M w2 = Inr w'"
    using assms by (auto simp: Let_def elim!: bindE_InrE)
  have r: "relocked M w2 w'" using w3 by (auto simp: mm_read_unlock_def elim: mm_lock_relocked)
  have "idxs w' = idxs w2" using r by (auto simp: relocked_def)
  moreover have "ptrace w1 = ptrace w @ [PFence, PStore (start (mmios w M) + off) n]" "idxs w1 = idxs w"
    using w1 by (auto simp: NTSTORE_def split: if_splits)
  moreover have "ptrace w2 = ptrace w1 @ [PFence]" "log (idxs w2 p) = log (idxs w1 p)"
    using w2 by (auto simp: UNLOCK_ENTRIES_def elim!: bindE_InrE)
  ultimately show "ptrace w' = ptrace w @ [PFence, PStore (start (mmios w M) + off) n, PFence]" and "log (idxs w' p) = log (idxs w p)"
    using relocked_world(3) [OF r] by simp_all
qed

text \<open>
  C2: Undo-logged writes are write-ahead. In the order in which the operations reach
  persistent memory, a write to one block first stores only into log space, at least once at
  the place of the request in the log of its block, then flushes the index entry and fences,
  and only then stores the request in place in the file and fences again.
\<close>

theorem mmio_write_ahead:
  assumes "pmem_copies E" and "ready LA t w M" and "policy (mmios w M) = UNDO" and "one_block w M off n" and "n < 2 ^ 31"
    and "user_buffer LA w M buf n" and "mmio_write E t M fd off buf n w = Inr (ret, w')"
  shows "\<exists>entry tr. ptrace w' = ptrace w @ tr @ [PFlush entry, PFence, PStore (start (mmios w M) + off) n, PFence] \<and>
    stores_in LA tr \<and> PStore (log (idxs w' entry) + off mod LOG_SIZE (target_size w M off n)) n \<in> set tr"
proof -
  have ci: "nat (c_int (int n)) = n" using assms(5) by (simp add: c_int_small)
  obtain w1 where w1: "mm_read_lock t M w = Inr w1" and ne: "\<not> check_expend (mmios w1 M) off n"
    and lk: "case LOCK_ENTRIES WR t M (c_int (int n)) off [] w1 of
      Inl e \<Rightarrow> e = Exit ''global->skip_list is empty'' \<and> entry_at w M off = None
    | Inr (head, w2) \<Rightarrow> \<exists>entry. head = [entry] \<and> in_request LA WR t M off n entry w w2"
    by (rule request_begin [OF assms(2,4,5)])
  obtain entry w2 where y: "LOCK_ENTRIES WR t M (c_int (int n)) off [] w1 = Inr ([entry], w2)"
    and rq: "in_request LA WR t M off n entry w w2"
    using lk assms(7) w1 ne by (cases "LOCK_ENTRIES WR t M (c_int (int n)) off [] w1") (auto simp: mmio_write_def)
  note q = rq [unfolded in_request_def]
  obtain b r where m2: "mmios w2 M = (mmios w M)\<lparr>rwlock := b, radixlog := r\<rparr>" using q by blast
  have buf2: "user_buffer LA w2 M buf n" and off: "off < mapped_len (mmios w2 M)"
    using assms(6) q m2 by (simp_all add: user_buffer_def)
  obtain w3 where w3: "write_entry E M entry off (start (mmios w2 M) + off) buf n w2 = Inr (n, w3)"
    and t3: "touches_only entry (start (mmios w2 M) + boff w2 M off) (bpart w2 M off) w2 w3"
    using write_entry_file [OF assms(1) _ _ _ _ _ buf2, of off entry] q m2 by auto
  note be = block_entry [of LA w2 M off entry]
  have e2: "log_size (idxs w2 entry) = leaf_size w2 M off" "entry_fits LA w2 M off entry" using be q off by blast+
  have "\<exists>tr. ptrace w3 = ptrace w2 @ tr @ [PFlush entry] \<and> stores_in LA tr \<and>
      PStore (log (idxs w2 entry) + LOG_OFFSET off (log_size (idxs w2 entry))) n \<in> set tr"
    using q e2 assms(3) by (intro write_entry_trace [OF w3])
      (auto simp: entry_fits_def entry_inv_def entry_ok_def Let_def LOG_OFFSET_mod bsize_def m2)
  moreover have "policy (mmios w3 M) = UNDO" "start (mmios w3 M) = start (mmios w M)" "log (idxs w3 entry) = log (idxs w2 entry)"
    using assms(3) touches_only_world [OF t3] by (simp_all add: m2)
  moreover have "bindE (let w = FENCE (upd_mmio M (\<lambda>m. m\<lparr>write_cnt := increase_counter (write_cnt m)\<rparr>) w3) in
           if policy (mmios w M) = UNDO
           then bindE (NTSTORE E (start (mmios w M) + off) buf n w) (\<lambda>w. Inr (FENCE w)) else Inr w)
        (\<lambda>w. bindE (UNLOCK_ENTRIES [entry] (upd_mmio M (\<lambda>m. if fsize m < int off + int n then m\<lparr>fsize := int off + int n\<rparr> else m) w))
        (\<lambda>w. bindE (mm_read_unlock t M w) (\<lambda>w. Inr (n, w)))) = Inr (ret, w')"
    using assms(7) w1 ne y w3 ci by (simp add: mmio_write_def Let_def)
  note undo_tail_trace [OF calculation(2) this]
  moreover have "LOG_OFFSET off (log_size (idxs w2 entry)) = off mod LOG_SIZE (target_size w M off n)"
    using e2(1) q by (simp add: LOG_OFFSET_mod)
  ultimately show ?thesis using q by (auto simp: m2)
qed


theorem mmio_write_ahead_witness:
  "\<exists>w' entry tr. mmio_write ex_env 5 1 3 100 (2 ^ 15) 50 (ex_world UNDO) = Inr (50, w') \<and>
     ptrace w' = tr @ [PFlush entry, PFence, PStore (2 ^ 21 + 100) 50, PFence] \<and> stores_in ex_logs tr"
proof -
  obtain w' where w': "mmio_write ex_env 5 1 3 100 (2 ^ 15) 50 (ex_world UNDO) = Inr (50, w')" using ex_write_runs by blast
  have "\<exists>entry tr. ptrace w' = ptrace (ex_world UNDO) @ tr @ [PFlush entry, PFence, PStore (start (mmios (ex_world UNDO) 1) + 100) 50, PFence] \<and>
    stores_in ex_logs tr \<and> PStore (log (idxs w' entry) + 100 mod LOG_SIZE (target_size (ex_world UNDO) 1 100 50)) 50 \<in> set tr"
    by (rule mmio_write_ahead [OF ex_env_copies ex_ready _ ex_request(1) _ ex_request(2) w']) simp_all
  moreover have "ptrace (ex_world UNDO) = []" by (simp add: ex_world_def)
  ultimately show ?thesis using w' by auto
qed

end
