(* ===== verification/FileOps.thy ===== *)
theory FileOps
  imports File Commit
begin

text \<open>
  The file operations that a program calls, over the refinement of mmio.c: a newly opened
  file satisfies the invariant, descriptors of one file share it, and what is written
  through a descriptor is read back through it.
\<close>

subsection \<open>A new file\<close>

text \<open>The pools of entries and of log space, as far as they do not depend on a file.\<close>

definition log_space :: "addr set \<Rightarrow> world \<Rightarrow> bool" where
  "log_space LA w \<longleftrightarrow>
     pool_inv (idx_pool w) \<and> (\<forall>s < NR_LOG_SIZES. pool_inv (log_pool w s)) \<and>
     (\<forall>e \<in> avail (idx_pool w). united (idxs w e) = 0) \<and>
     (\<forall>s < NR_LOG_SIZES. \<forall>a \<in> avail (log_pool w s). accessible (mem w) a (LOG_SIZE s) \<and> {a..<a + LOG_SIZE s} \<subseteq> LA) \<and>
     (\<forall>s < NR_LOG_SIZES. \<forall>s' < NR_LOG_SIZES. \<forall>a \<in> avail (log_pool w s). \<forall>a' \<in> avail (log_pool w s').
        (s, a) \<noteq> (s', a') \<longrightarrow> disjoint_ranges a (LOG_SIZE s) a' (LOG_SIZE s'))"

text \<open>
  What the kernel's answer to the \<^verbatim>\<open>mmap\<close> of a file has to satisfy: the mapping is aligned to
  the largest log size, apart from log space, and older mappings stay.
\<close>

definition good_mapping :: "addr set \<Rightarrow> memory \<Rightarrow> addr \<Rightarrow> nat \<Rightarrow> memory \<Rightarrow> bool" where
  "good_mapping LA m a len m' \<longleftrightarrow>
     2 ^ 21 dvd a \<and> a + len \<le> 2 ^ 64 \<and> accessible m' a len \<and> {a..<a + len} \<inter> LA = {} \<and>
     (\<forall>b n. accessible m b n \<longrightarrow> accessible m' b n)"

definition mmap_good :: "addr set \<Rightarrow> 'k posix \<Rightarrow> int \<Rightarrow> memory \<Rightarrow> 'k \<Rightarrow> bool" where
  "mmap_good LA P fd m k \<longleftrightarrow>
     (\<forall>len prot a m' k'. len \<le> 2 ^ 48 \<longrightarrow> sys_mmap P len prot (MAP_SHARED OR MAP_POPULATE) fd m k = (Some a, m', k') \<longrightarrow> good_mapping LA m a len m')"

lemma map_length_pos: "map_length E fd fsz = Inr len \<Longrightarrow> 0 < len"
  by (auto simp: map_length_def DEFAULT_MMAP_SIZE_def split: if_splits)

lemma map_length_le: "map_length E fd fsz = Inr len \<Longrightarrow> fsz \<le> 2 ^ 48 \<Longrightarrow> len \<le> 2 ^ 48"
  by (cases "fsz = 0") (auto simp: map_length_def DEFAULT_MMAP_SIZE_def split: if_splits)

lemma get_new_mmio_steps:
  assumes "get_new_mmio E P t fd flags i fsz w k = Inr (M, w', k')"
  obtains pool len prot a mm k1 root w2 thread where "POP_PROVIDER t (mmio_pool w) = Inr (M, pool)"
    and "map_length E fd fsz = Inr len" and "get_prot flags = Inr prot"
    and "sys_mmap P len prot (MAP_SHARED OR MAP_POPULATE) fd (mem w) k = (Some a, mm, k1)"
    and "init_radixlog t (radixlog (mmios w M)) len (w\<lparr>mmio_pool := pool, mem := mm\<rparr>) = Inr (root, w2)"
    and "w' = upd_mmio M (\<lambda>m. m\<lparr>radixlog := root, start := a, end_addr := a + len, fsize := int fsz, ino := i, checkpoint_thread := thread\<rparr>) w2"
proof -
  obtain pool len prot a mm k1 root w2 thread where "POP_PROVIDER t (mmio_pool w) = Inr (M, pool)"
    and "map_length E fd fsz = Inr len" and "get_prot flags = Inr prot"
    and "sys_mmap P len prot (MAP_SHARED OR MAP_POPULATE) fd (mem w) k = (Some a, mm, k1)"
    and "init_radixlog t (radixlog (mmios w M)) len (w\<lparr>mmio_pool := pool, mem := mm\<rparr>) = Inr (root, w2)"
    and w': "w' = upd_mmio M (\<lambda>m. m\<lparr>checkpoint_thread := thread\<rparr>)
       (upd_mmio M (\<lambda>m. m\<lparr>radixlog := root, start := a, end_addr := a + len, fsize := int fsz, ino := i\<rparr>) w2)"
    using assms unfolding get_new_mmio_def create_checkpoint_thread_def Let_def
    by (auto elim!: bindE_InrE split: prod.splits option.splits if_splits)
  moreover have "w' = upd_mmio M (\<lambda>m. m\<lparr>radixlog := root, start := a, end_addr := a + len, fsize := int fsz, ino := i, checkpoint_thread := thread\<rparr>) w2"
    unfolding w' by (simp add: upd_mmio_def)
  ultimately show thesis using that by blast
qed

lemma get_new_mmio_result:
  assumes sp: "spare_tables w" and ls: "log_space LA w"
    and mp: "mmap_good LA P fd (mem w) k"
    and sz: "fsz \<le> 2 ^ 48" and r: "get_new_mmio E P t fd flags i fsz w k = Inr (M, w', k')"
  shows "file_inv LA w' M" and "unlocked_but None w' M" and "\<And>x. content w' M x = bytes (mem w') (start (mmios w' M) + x)"
    and "fsize (mmios w' M) = int fsz" and "ino (mmios w' M) = i" and "map_length E fd fsz = Inr (mapped_len (mmios w' M))"
    and "rwlock (mmios w' M) = rwlock (mmios w M)"
    and "policy (mmios w' M) = policy (mmios w M)" and "bravo w' = bravo w" and "ref (mmios w' M) = ref (mmios w M)"
    and "\<And>p. p \<noteq> M \<Longrightarrow> mmios w' p = mmios w p"
proof -
  obtain pool len prot a mm k1 root w2 thread where st: "POP_PROVIDER t (mmio_pool w) = Inr (M, pool)" "map_length E fd fsz = Inr len"
    and ma: "sys_mmap P len prot (MAP_SHARED OR MAP_POPULATE) fd (mem w) k = (Some a, mm, k1)"
    and ri: "init_radixlog t (radixlog (mmios w M)) len (w\<lparr>mmio_pool := pool, mem := mm\<rparr>) = Inr (root, w2)"
    and w': "w' = upd_mmio M (\<lambda>m. m\<lparr>radixlog := root, start := a, end_addr := a + len, fsize := int fsz, ino := i, checkpoint_thread := thread\<rparr>) w2"
    by (rule get_new_mmio_steps [OF r])
  have len: "0 < len" "len \<le> 2 ^ 48" by (rule map_length_pos [OF st(2)], rule map_length_le [OF st(2) sz])
  have "spare_tables (w\<lparr>mmio_pool := pool, mem := mm\<rparr>)" using sp by (simp add: spare_tables_def)
  note rx = init_radixlog_result [OF this ri]
  have o: "mem w2 = mm" "idxs w2 = idxs w" "mmios w2 = mmios w" "idx_pool w2 = idx_pool w" "log_pool w2 = log_pool w" "bravo w2 = bravo w"
    using rx(3) by (simp_all add: only_tables_def)
  have g: "good_mapping LA (mem w) a len mm" using mp ma len unfolding mmap_good_def by blast
  have m': "radixlog (mmios w' M) = root" "start (mmios w' M) = a" "end_addr (mmios w' M) = a + len" "mem w' = mm" "tables w' = tables w2"
    "idxs w' = idxs w" "idx_pool w' = idx_pool w" "log_pool w' = log_pool w" "mapped_len (mmios w' M) = len"
    by (simp_all add: w' o mapped_len_def)
  have fl: "fresh_leaf (tables w2 tb)" if "find_log_table w' root x = Some tb" for x tb using rx(5) that by (simp add: w')
  have at: "entry_at w' M x = None" for x
    using fl by (auto simp: entry_at_def m' child_def fresh_leaf_def split: option.split)
  have "map_ok LA w' M" using g len by (simp add: map_ok_def Let_def m' good_mapping_def)
  moreover have "leaves_ok w' M"
  proof -
    have "len \<le> capacity (start_type w2 root)" using deepest_covers(1) [OF len] rx(2) by simp
    then show ?thesis using rx(1) fl by (auto simp: leaves_ok_def Let_def m' fresh_leaf_def) (simp_all add: w')
  qed
  moreover have "entries_ok LA w' M" by (simp add: entries_ok_def at)
  moreover have "spares_ok LA w' M" using ls g by (simp add: spares_ok_def log_space_def m' at good_mapping_def)
  ultimately show "file_inv LA w' M" by (simp add: file_inv_def)
  show "unlocked_but None w' M" by (simp add: unlocked_but_def at)
  show "content w' M x = bytes (mem w') (start (mmios w' M) + x)" for x by (simp add: content_def at)
  show "fsize (mmios w' M) = int fsz" "ino (mmios w' M) = i" "map_length E fd fsz = Inr (mapped_len (mmios w' M))"
    "rwlock (mmios w' M) = rwlock (mmios w M)"
    "policy (mmios w' M) = policy (mmios w M)" "bravo w' = bravo w" "ref (mmios w' M) = ref (mmios w M)"
    using st by (simp_all add: m') (simp_all add: w' o)
  show "mmios w' p = mmios w p" if "p \<noteq> M" for p using that by (simp add: w' o)
qed

lemma get_new_mmio_spares:
  assumes sp: "spare_tables w" and ls: "log_space LA w" and mp: "mmap_good LA P fd (mem w) k" and sz: "fsz \<le> 2 ^ 48"
    and r: "get_new_mmio E P t fd flags i fsz w k = Inr (M, w', k')"
  shows "spare_tables w'" and "log_space LA w'" and "POP_PROVIDER t (mmio_pool w) = Inr (M, mmio_pool w')"
proof -
  obtain pool len prot a mm k1 root w2 thread where st: "POP_PROVIDER t (mmio_pool w) = Inr (M, pool)" and ml: "map_length E fd fsz = Inr len"
    and ma: "sys_mmap P len prot (MAP_SHARED OR MAP_POPULATE) fd (mem w) k = (Some a, mm, k1)"
    and ri: "init_radixlog t (radixlog (mmios w M)) len (w\<lparr>mmio_pool := pool, mem := mm\<rparr>) = Inr (root, w2)"
    and w': "w' = upd_mmio M (\<lambda>m. m\<lparr>radixlog := root, start := a, end_addr := a + len, fsize := int fsz, ino := i, checkpoint_thread := thread\<rparr>) w2"
    by (rule get_new_mmio_steps [OF r])
  have "spare_tables (w\<lparr>mmio_pool := pool, mem := mm\<rparr>)" using sp by (simp add: spare_tables_def)
  note rx = init_radixlog_result [OF this ri]
  have o: "mem w2 = mm" "idxs w2 = idxs w" "idx_pool w2 = idx_pool w" "log_pool w2 = log_pool w" "mmio_pool w2 = pool"
    using rx(3) by (simp_all add: only_tables_def)
  have "\<And>b n. accessible (mem w) b n \<Longrightarrow> accessible mm b n"
    using mp ma map_length_le [OF ml sz] unfolding mmap_good_def good_mapping_def by blast
  then show "log_space LA w'" using ls by (simp add: log_space_def w' o)
  show "spare_tables w'" using rx(6) by (simp add: w' spare_tables_def)
  show "POP_PROVIDER t (mmio_pool w) = Inr (M, mmio_pool w')" using st by (simp add: w' o)
qed

text \<open>The ways in which opening a file can end the process.\<close>

definition open_errors :: "error set" where
  "open_errors = Exit ` {''global->skip_list is empty'', ''posix_fallocate'', ''flags is wrong.'', ''mmap'', ''pthread_create''}"

lemma get_new_mmio_fail:
  assumes "pool_inv (mmio_pool w)" and "spare_tables w" and "get_new_mmio E P t fd flags i fsz w k = Inl e"
  shows "e \<in> open_errors"
proof -
  have r: "e = Exit ''global->skip_list is empty''" if "init_radixlog t root len (w\<lparr>mmio_pool := pool, mem := mm\<rparr>) = Inl e" for root len pool mm
  proof -
    have sp: "spare_tables (w\<lparr>mmio_pool := pool, mem := mm\<rparr>)" using assms(2) by (simp add: spare_tables_def)
    show ?thesis using init_radix_loop_fail [OF _ sp] that by (simp add: init_radixlog_def Let_def)
  qed
  show ?thesis
    using assms(3) POP_PROVIDER_fail [OF assms(1), of t e]
    unfolding get_new_mmio_def create_checkpoint_thread_def Let_def map_length_def get_prot_def open_errors_def
    by (auto dest: r elim!: bindE_InlE split: prod.splits option.splits if_splits)
qed

subsection \<open>The table of open files\<close>

text \<open>The unused file objects: none is in the table, and their locks are free.\<close>

definition spare_mmios :: "file_hash \<Rightarrow> world \<Rightarrow> bool" where
  "spare_mmios H w \<longleftrightarrow> pool_inv (mmio_pool w) \<and>
     (\<forall>M \<in> avail (mmio_pool w). rwlock (mmios w M) = bravo_rwlock_init \<and> (\<forall>i. table_find H (mmios w) i \<noteq> Some M))"

lemma table_nodes:
  assumes "hash_inv H ms B" and "k < FILE_HASH_SIZE" and "p \<in> set (B k)"
  shows "table_find H ms (ino (ms (hptr H p))) = Some (hptr H p)"
proof -
  let ?i = "ino (ms (hptr H p))"
  have k: "get_hash_index ?i = k" and hk: "hash_ok H B" and d: "distinct (map (\<lambda>p. ino (ms (hptr H p))) (B k))"
    using assms by (auto simp: hash_inv_def)
  obtain q where q: "find (\<lambda>p. ino (ms (hptr H p)) = ?i) (B k) = Some q"
    using assms(3) by (cases "find (\<lambda>p. ino (ms (hptr H p)) = ?i) (B k)") (auto simp: find_None_iff)
  then have "q \<in> set (B k)" "ino (ms (hptr H q)) = ?i" by (auto simp: find_Some_iff)
  then have "q = p" using d assms(3) by (simp add: distinct_map inj_on_def)
  then show ?thesis using q k by (simp add: table_find_eq [OF hk] bucket_find_def)
qed

text \<open>A file that is not in the table may change without the table noticing.\<close>

lemma table_outside:
  assumes ok: "table_ok H ms" and out: "\<And>i. table_find H ms i \<noteq> Some M" and o: "\<And>p. p \<noteq> M \<Longrightarrow> ino (ms' p) = ino (ms p)"
  shows "table_ok H ms'" and "table_find H ms' = table_find H ms"
proof -
  obtain B where B: "hash_inv H ms B" using ok by (auto simp: table_ok_def)
  then have hk: "hash_ok H B" by (simp add: hash_inv_def)
  have e: "ino (ms' (hptr H p)) = ino (ms (hptr H p))" if "k < FILE_HASH_SIZE" "p \<in> set (B k)" for k p
    using table_nodes [OF B that] out o by metis
  have mp: "map (\<lambda>p. ino (ms' (hptr H p))) (B k) = map (\<lambda>p. ino (ms (hptr H p))) (B k)" if "k < FILE_HASH_SIZE" for k
    using e [OF that] by simp
  have "hash_inv H ms' B" using B e by (simp add: hash_inv_def mp del: distinct_map)
  then show "table_ok H ms'" by (auto simp: table_ok_def)
  have "find (\<lambda>p. ino (ms' (hptr H p)) = i) (B (get_hash_index i)) = find (\<lambda>p. ino (ms (hptr H p)) = i) (B (get_hash_index i))" for i
    by (rule find_cong) (simp_all add: e [OF get_hash_index_less])
  then show "table_find H ms' = table_find H ms" by (simp add: table_find_eq [OF hk] bucket_find_def fun_eq_iff)
qed

subsection \<open>Opening a file\<close>

text \<open>
  The state between requests: unused tables, entries, log space and file objects are in their
  pools, the table of open files is well-formed, and no thread is visible as a reader.
\<close>

definition lib_ok :: "addr set \<Rightarrow> 'k lib \<Rightarrow> bool" where
  "lib_ok LA L \<longleftrightarrow> spare_tables (wld L) \<and> log_space LA (wld L) \<and> spare_mmios (fhash L) (wld L) \<and>
     table_ok (fhash L) (mmios (wld L)) \<and> visible_readers (bravo (wld L)) = (\<lambda>_. None)"

text \<open>A file as it is right after its first \<^verbatim>\<open>open\<close>: its contents are the bytes of the mapping.\<close>

definition just_opened :: "addr set \<Rightarrow> tid \<Rightarrow> nat \<Rightarrow> nat \<Rightarrow> ptr \<Rightarrow> world \<Rightarrow> bool" where
  "just_opened LA t i fsz M w \<longleftrightarrow>
     ready LA t w M \<and> ino (mmios w M) = i \<and> fsize (mmios w M) = int fsz \<and> fsz \<le> mapped_len (mmios w M) \<and>
     (\<forall>x. content w M x = bytes (mem w) (start (mmios w M) + x))"

lemma get_new_mmio_opened:
  assumes ok: "lib_ok LA L"
    and mp: "mmap_good LA P fd (mem (wld L)) k"
    and sz: "fsz \<le> 2 ^ 48" and r: "get_new_mmio E P t fd flags i fsz (wld L) k = Inr (M, w', k')"
  shows "just_opened LA t i fsz M w'" and "ref (mmios w' M) = ref (mmios (wld L) M)"
    and "table_ok (fhash L) (mmios w')" and "table_find (fhash L) (mmios w') = table_find (fhash L) (mmios (wld L))"
    and "\<And>j. table_find (fhash L) (mmios (wld L)) j \<noteq> Some M" and "lib_ok LA (L\<lparr>wld := w'\<rparr>)" and "M \<notin> avail (mmio_pool w')"
proof -
  let ?w = "wld L"
  have sp: "spare_tables ?w" "log_space LA ?w" "spare_mmios (fhash L) ?w" "table_ok (fhash L) (mmios ?w)"
    "visible_readers (bravo ?w) = (\<lambda>_. None)" using ok by (simp_all add: lib_ok_def)
  note n = get_new_mmio_result [OF sp(1,2) mp sz r]
  note sp' = get_new_mmio_spares [OF sp(1,2) mp sz r]
  have "pool_inv (mmio_pool ?w)" using sp(3) by (simp add: spare_mmios_def)
  note pop = POP_PROVIDER_result [OF this sp'(3)]
  have M: "rwlock (mmios ?w M) = bravo_rwlock_init" and out: "\<And>i. table_find (fhash L) (mmios ?w) i \<noteq> Some M"
    using sp(3) pop(2) by (simp_all add: spare_mmios_def)
  show "table_find (fhash L) (mmios (wld L)) j \<noteq> Some M" for j by (rule out)
  show "M \<notin> avail (mmio_pool w')" using pop(3) by simp
  show "ref (mmios w' M) = ref (mmios ?w M)" by (rule n(10))
  have "lock_idle t M w'" using sp(5) by (simp add: lock_idle_def n(7,9) M bravo_rwlock_init_def RWLOCK_INIT_def)
  moreover have "fsz \<le> mapped_len (mmios w' M)" using n(6) by (auto simp: map_length_def split: if_splits)
  ultimately show "just_opened LA t i fsz M w'" using n(1-5) by (simp add: just_opened_def ready_def)
  have "ino (mmios w' p) = ino (mmios ?w p)" if "p \<noteq> M" for p using n(11) that by simp
  then show tb: "table_ok (fhash L) (mmios w')" "table_find (fhash L) (mmios w') = table_find (fhash L) (mmios ?w)"
    using table_outside [OF sp(4) out] by blast+
  have "spare_mmios (fhash L) w'" using sp(3) pop n(11) by (simp add: spare_mmios_def tb(2))
  then show "lib_ok LA (L\<lparr>wld := w'\<rparr>)" using sp'(1,2) tb(1) sp(5) by (simp add: lib_ok_def n(9))
qed

text \<open>Counting a reference changes nothing that a request looks at.\<close>

lemma same_index_ref: "same_index M w (upd_mmio M (\<lambda>m. m\<lparr>ref := r m\<rparr>) w)"
  by (simp add: same_index_def Let_def)

lemma ready_ref: "ready LA t (upd_mmio M (\<lambda>m. m\<lparr>ref := r m\<rparr>) w) M = ready LA t w M"
  using same_index_eqs [OF same_index_ref [of M w r]] by (simp add: ready_def lock_idle_def)

lemma just_opened_ref:
  assumes "just_opened LA t i fsz M w"
  shows "just_opened LA t i fsz M (upd_mmio M (\<lambda>m. m\<lparr>ref := ref m + 1\<rparr>) w)"
proof -
  let ?w = "upd_mmio M (\<lambda>m. m\<lparr>ref := ref m + 1\<rparr>) w"
  have "content ?w M = content w M" by (rule same_index_eqs(12) [OF same_index_ref]) simp
  moreover have "mapped_len (mmios ?w M) = mapped_len (mmios w M)" by (simp add: mapped_len_def)
  ultimately show ?thesis using assms by (simp add: just_opened_def ready_ref)
qed

lemma libnvmmio_open_new_result:
  assumes ok: "lib_ok LA L" and fx: "fops L ''__fxstat''" "sys_fxstat P fd (kern L) = ((0, st), k)"
    and fd: "0 \<le> fd" "nat fd < MAX_FD" and sz: "st_size st \<le> 2 ^ 48" and mp: "mmap_good LA P fd (mem (wld L)) k"
    and new: "table_find (fhash L) (mmios (wld L)) (st_ino st) = None"
    and r: "get_new_mmio E P t fd flags (st_ino st) (st_size st) (wld L) k = Inr (M, w1, k1)"
  shows "\<exists>L'. libnvmmio_open E P t fd flags mode L = Inr L' \<and> just_opened LA t (st_ino st) (st_size st) M (wld L') \<and>
    ref (mmios (wld L') M) = ref (mmios (wld L) M) + 1 \<and> lib_ok LA L' \<and>
    table_find (fhash L') (mmios (wld L')) = (table_find (fhash L) (mmios (wld L)))(st_ino st := Some M) \<and>
    fd_table L' = (fd_table L)(nat fd := Some \<lparr>fmmio = M, fflags = flags, fmode = mode, fpos = 0, fino = st_ino st\<rparr>)"
proof -
  let ?w = "wld L" and ?i = "st_ino st" and ?H = "fhash L"
  have lk: "get_mmio_hash ?i ?H ?w = Inr (None, ?w)"
    using lookup_bucket_ok [of ?H "mmios ?w" ?i] ok new by (simp add: get_mmio_hash_def lib_ok_def)
  note n = get_new_mmio_opened [OF ok mp sz r]
  have "table_find ?H (mmios w1) ?i = None" "ino (mmios w1 M) = ?i" using n(1,4) new by (simp_all add: just_opened_def)
  then obtain H' where p: "put_mmio_hash ?i M ?H w1 = Inr (M, H', upd_mmio M (\<lambda>m. m\<lparr>ref := ref m + 1\<rparr>) w1)"
    and H': "table_ok H' (mmios w1)" "table_find H' (mmios w1) = (table_find ?H (mmios w1))(?i := Some M)"
    using put_mmio_hash_new [OF n(3)] by blast
  let ?w2 = "upd_mmio M (\<lambda>m. m\<lparr>ref := ref m + 1\<rparr>) w1"
  have c: "ino (mmios ?w2 p) = ino (mmios w1 p)" for p by simp
  have tb: "table_ok H' (mmios ?w2)" "table_find H' (mmios ?w2) = (table_find ?H (mmios ?w))(?i := Some M)"
    using table_cong [of "mmios ?w2" "mmios w1", OF c] H' n(4) by simp_all
  moreover have "lib_ok LA (L\<lparr>wld := ?w2, fhash := H'\<rparr>)"
    using tb n(6,7) n(4) by (auto simp: lib_ok_def spare_mmios_def spare_tables_def log_space_def)
  moreover have "just_opened LA t ?i (st_size st) M ?w2" by (rule just_opened_ref [OF n(1)])
  moreover have "ref (mmios ?w2 M) = ref (mmios ?w M) + 1" using n(2) by simp
  ultimately show ?thesis
    using fx fd lk r p by (auto simp: libnvmmio_open_def resolve_def set_file_def lib_ok_def)
qed


subsection \<open>The example process\<close>

definition ex_lib :: "world \<Rightarrow> nat lib" where
  "ex_lib w = \<lparr>wld = w, fhash = ex_hash, fd_table = (\<lambda>_. None), fops = (\<lambda>_. True), initialized = True, logdir = [], kern = 0\<rparr>"

definition ex_spare :: world where
  "ex_spare = (ex_world UNDO)\<lparr>mmio_pool := two_objects\<rparr>"

lemma ex_lib_ok: "lib_ok ex_logs (ex_lib ex_spare)"
  by (auto simp: lib_ok_def ex_lib_def ex_spare_def spare_tables_def log_space_def spare_mmios_def two_objects_inv NR_NODE_FILL_def)

lemma ex_mmap_good: "mmap_good ex_logs ex_posix fd (mem (wld (ex_lib ex_spare))) k"
  by (auto simp: mmap_good_def good_mapping_def ex_posix_def stub_posix_def ex_top_def accessible_def ex_logs_def ex_lib_def ex_spare_def)

lemma ex_init_radixlog:
  assumes "table_pool w = two_objects"
  obtains root' w' where "init_radixlog t root (2 ^ 48) w = Inr (root', w')"
proof -
  have "get_deepest_table_type (2 ^ 48 - 1) = LGD"
    by (simp add: get_deepest_table_type_def layout_simps drop_bit_eq_div)
  then show thesis using that assms
    by (simp add: init_radixlog_def Let_def ul_sub_ge init_radix_loop.simps alloc_log_table_def POP_PROVIDER_def
        refill_def fill_local_provider_def two_objects_def alloc_flist_def cut_splice_def less_eq_table_type_def)
qed

lemma ex_get_new_mmio:
  obtains M w1 k1 where "get_new_mmio ex_env ex_posix 5 3 O_RDWR 7 (2 ^ 48) ex_spare k = Inr (M, w1, k1)"
proof -
  have p: "O_RDWR AND O_ACCMODE = O_RDWR" "O_RDWR \<noteq> O_RDONLY" "O_RDWR \<noteq> O_WRONLY"
    by (simp_all add: O_RDWR_def O_ACCMODE_def O_RDONLY_def O_WRONLY_def)
  obtain M pool where pop: "POP_PROVIDER 5 (mmio_pool ex_spare) = Inr (M, pool)"
    by (simp add: ex_spare_def POP_PROVIDER_def refill_def fill_local_provider_def two_objects_def alloc_flist_def cut_splice_def)
  let ?w = "ex_spare\<lparr>mmio_pool := pool, mem := (mem ex_spare)\<lparr>regions := (ex_top (mem ex_spare), 2 ^ 48) # regions (mem ex_spare)\<rparr>\<rparr>"
  have "table_pool ?w = two_objects" by (simp add: ex_spare_def)
  then obtain root' w' where "init_radixlog 5 (radixlog (mmios ex_spare M)) (2 ^ 48) ?w = Inr (root', w')"
    by (rule ex_init_radixlog)
  then show thesis using that pop p
    by (simp add: get_new_mmio_def map_length_def get_prot_def Let_def create_checkpoint_thread_def ex_posix_def stub_posix_def)
qed


end
