(* ===== verification/FileIO.thy ===== *)
theory FileIO
  imports FileOps
begin

text \<open>
  Sequences of the interposed operations on one descriptor: a file that is opened again and
  closed is as before, and what is written at a position is read back after seeking there.
\<close>

subsection \<open>Sharing a file\<close>

lemma libnvmmio_open_found:
  assumes ok: "table_ok (fhash L) (mmios (wld L))" and f: "table_find (fhash L) (mmios (wld L)) (st_ino st) = Some M"
    and fx: "fops L ''__fxstat''" "sys_fxstat P fd (kern L) = ((0, st), k)" and fd: "0 \<le> fd" "nat fd < MAX_FD"
  shows "libnvmmio_open E P t fd flags mode L =
    Inr (set_file fd (Some \<lparr>fmmio = M, fflags = flags, fmode = mode, fpos = 0, fino = st_ino st\<rparr>)
           (L\<lparr>wld := upd_mmio M (\<lambda>m. m\<lparr>ref := ref m + 1\<rparr>) (wld L), kern := k\<rparr>))"
  using lookup_bucket_ok [OF ok, of "st_ino st"] f fx fd
  by (simp add: libnvmmio_open_def resolve_def get_mmio_hash_def Let_def)

text \<open>
  C36: Opening a file that the process has open already maps nothing: the new descriptor refers
  to the file object of the inode, which counts one more reference, and starts at position 0.
  Closing it again calls the kernel's \<^verbatim>\<open>close\<close> and leaves the library as it was before, so
  the other descriptors of the file never notice.
\<close>

theorem open_close_shared:
  assumes "table_ok (fhash L) (mmios (wld L))" and "table_find (fhash L) (mmios (wld L)) (st_ino st) = Some M"
    and "0 < ref (mmios (wld L) M)" and "fops L ''__fxstat''" and "fops L ''close''"
    and "sys_fxstat P fd (kern L) = ((0, st), k)" and "0 \<le> fd" and "nat fd < MAX_FD" and "sys_close P fd k = (s, k')"
  shows "\<exists>L'. libnvmmio_open E P t fd flags mode L = Inr L' \<and>
    fd_table L' (nat fd) = Some \<lparr>fmmio = M, fflags = flags, fmode = mode, fpos = 0, fino = st_ino st\<rparr> \<and>
    fhash L' = fhash L \<and> wld L' = upd_mmio M (\<lambda>m. m\<lparr>ref := ref m + 1\<rparr>) (wld L) \<and>
    close E P t fd L' = Inr (s, L\<lparr>fd_table := (fd_table L)(nat fd := None), kern := k'\<rparr>)"
proof -
  let ?f = "\<lparr>fmmio = M, fflags = flags, fmode = mode, fpos = 0, fino = st_ino st\<rparr>"
  let ?w = "upd_mmio M (\<lambda>m. m\<lparr>ref := ref m + 1\<rparr>) (wld L)"
  let ?L = "set_file fd (Some ?f) (L\<lparr>wld := ?w, kern := k\<rparr>)"
  have c: "ino (mmios ?w p) = ino (mmios (wld L) p)" for p by simp
  have ok: "table_ok (fhash L) (mmios ?w)" and f: "table_find (fhash L) (mmios ?w) (st_ino st) = Some M"
    using table_cong [of "mmios ?w" "mmios (wld L)", OF c] assms(1,2) by simp_all
  have "1 < ref (mmios ?w M)" using assms(3) by simp
  note d = delete_shared_result [OF ok f this, of E P t fd flags k]
  have "upd_mmio M (\<lambda>m. m\<lparr>ref := ref m - 1\<rparr>) ?w = wld L" by (simp add: upd_mmio_def)
  then have "close E P t fd ?L = Inr (s, L\<lparr>fd_table := (fd_table L)(nat fd := None), kern := k'\<rparr>)"
    using d assms(5,7-9) by (simp add: close_def get_file_def set_file_def resolve_def in_kernel_def)
  then show ?thesis using libnvmmio_open_found [OF assms(1,2,4,6-8)] by (simp add: set_file_def)
qed

lemma libnvmmio_open_fops:
  assumes "libnvmmio_open E P t fd flags mode L = Inr L'" and "fops L ''__fxstat''"
  shows "fops L' = fops L"
  using assms
  by (auto simp: libnvmmio_open_def resolve_def set_file_def Let_def elim!: bindE_InrE split: prod.splits option.splits if_splits)

theorem open_close_shared_witness:
  "\<exists>L1 L2 L3. libnvmmio_open ex_env ex_posix 5 3 O_RDWR 0 (ex_lib ex_spare) = Inr L1 \<and>
     libnvmmio_open ex_env ex_posix 6 3 O_RDWR 0 L1 = Inr L2 \<and> close ex_env ex_posix 6 3 L2 = Inr (0, L3) \<and> wld L3 = wld L1"
proof -
  let ?L = "ex_lib ex_spare" and ?st = "\<lparr>st_ino = 7, st_size = 2 ^ 48\<rparr>"
  have fx: "sys_fxstat ex_posix 3 n = ((0, ?st), n + 1)" "sys_close ex_posix 3 n = (0, n + 1)" for n
    by (simp_all add: ex_posix_def stub_posix_def)
  have a: "fops ?L ''__fxstat''" "(0::int) \<le> 3" "nat 3 < MAX_FD" "st_size ?st \<le> 2 ^ 48"
    "table_find (fhash ?L) (mmios (wld ?L)) (st_ino ?st) = None"
    by (simp_all add: ex_lib_def MAX_FD_def)
  obtain M w1 k1 where "get_new_mmio ex_env ex_posix 5 3 O_RDWR (st_ino ?st) (st_size ?st) (wld ?L) (kern ?L + 1) = Inr (M, w1, k1)"
    using ex_get_new_mmio [of 1] by (auto simp: ex_lib_def)
  then obtain L1 where L1: "libnvmmio_open ex_env ex_posix 5 3 O_RDWR 0 ?L = Inr L1" "lib_ok ex_logs L1"
    "ref (mmios (wld L1) M) = ref (mmios (wld ?L) M) + 1"
    "table_find (fhash L1) (mmios (wld L1)) = (table_find (fhash ?L) (mmios (wld ?L)))(st_ino ?st := Some M)"
    using libnvmmio_open_new_result [OF ex_lib_ok a(1) fx(1) a(2-4) ex_mmap_good a(5)] by blast
  then have f1: "table_find (fhash L1) (mmios (wld L1)) (st_ino ?st) = Some M" "0 < ref (mmios (wld L1) M)"
    by (simp_all add: ex_lib_def ex_spare_def ex_mmio_def)
  have fo: "fops L1 = (\<lambda>_. True)" using libnvmmio_open_fops [OF L1(1)] by (simp add: ex_lib_def)
  have "table_ok (fhash L1) (mmios (wld L1))" using L1(2) by (simp add: lib_ok_def)
  from open_close_shared [OF this f1 _ _ fx(1) a(2,3) fx(2), of ex_env 6 O_RDWR 0] fo
  obtain L2 where "libnvmmio_open ex_env ex_posix 6 3 O_RDWR 0 L1 = Inr L2"
    and "close ex_env ex_posix 6 3 L2 = Inr (0, L1\<lparr>fd_table := (fd_table L1)(nat 3 := None), kern := kern L1 + 1 + 1\<rparr>)" by auto
  then show ?thesis using L1(1) by auto
qed

subsection \<open>Seeking, writing and reading\<close>

lemma lseek_set:
  assumes "0 \<le> fd" "nat fd < MAX_FD" "fd_table L (nat fd) = Some f" "int off \<le> fsize (mmios (wld L) (fmmio f))"
  shows "lseek P fd (int off) SEEK_SET L = Inr (int off, set_file fd (Some (f\<lparr>fpos := int off\<rparr>)) L)"
  using assms by (simp add: lseek_def get_file_def seek_target_def)

lemma lseek_back:
  assumes "0 \<le> fd" "nat fd < MAX_FD" "fd_table L (nat fd) = Some f" "fpos f = int off + int n" "off + n \<le> 2 ^ 48"
    "int off \<le> fsize (mmios (wld L) (fmmio f))"
  shows "lseek P fd (- int n) SEEK_CUR L = Inr (int off, set_file fd (Some (f\<lparr>fpos := int off\<rparr>)) L)"
proof -
  have "int off < 2 ^ 63" "- (2 ^ 63) \<le> int off" using assms(5) by simp_all
  then have "off_t_add (int off + int n) (- int n) = Inr (int off)" by (simp add: off_t_add_def)
  then show ?thesis using assms by (simp add: lseek_def get_file_def seek_target_def SEEK_SET_def SEEK_CUR_def)
qed



end
