(* ===== verification/Load.thy ===== *)
theory Load
  imports FileIO
begin

text \<open>
  Loading the library (src/src/file.c, src/src/allocator.c): the pools that the constructor
  fills satisfy the invariants that opening, reading and writing rely on, and the destructor
  removes the files again.
\<close>

subsection \<open>What mmap promises\<close>

text \<open>A new mapping can be accessed, overlaps no memory in use, and older memory stays.\<close>

definition fresh_mmap :: "'k posix \<Rightarrow> bool" where
  "fresh_mmap P \<longleftrightarrow>
     (\<forall>len prot flags fd m k a m' k'. sys_mmap P len prot flags fd m k = (Some a, m', k') \<longrightarrow>
        accessible m' a len \<and> (\<forall>b n. accessible m b n \<longrightarrow> accessible m' b n) \<and> (\<forall>b \<in> {a..<a + len}. \<not> accessible m b 1))"

definition grows :: "memory \<Rightarrow> memory \<Rightarrow> bool" where
  "grows m m' \<longleftrightarrow> (\<forall>b n. accessible m b n \<longrightarrow> accessible m' b n)"

lemma alloc_pmem_result:
  assumes "fresh_mmap P" and "alloc_pmem E P dir name i len m k = Inr (a, m', k')"
  shows "accessible m' a len" and "grows m m'" and "\<And>b. b \<in> {a..<a + len} \<Longrightarrow> \<not> accessible m b 1"
proof -
  obtain prot flags fd k1 where "sys_mmap P len prot flags fd m k1 = (Some a, m', k')"
    using assms(2) by (auto simp: alloc_pmem_def mmap_logfile_def elim!: bindE_InrE split: prod.splits option.splits)
  then have "accessible m' a len \<and> grows m m' \<and> (\<forall>b \<in> {a..<a + len}. \<not> accessible m b 1)"
    using assms(1) unfolding fresh_mmap_def grows_def by blast
  then show "accessible m' a len" and "grows m m'" and "\<And>b. b \<in> {a..<a + len} \<Longrightarrow> \<not> accessible m b 1" by blast+
qed

lemma disjoint_rangesI: "{a..<a + n} \<inter> {b..<b + k} = {} \<Longrightarrow> 0 < n \<Longrightarrow> 0 < k \<Longrightarrow> disjoint_ranges a n b k"
  by (rule ccontr) (auto simp: disjoint_ranges_def dest!: equalityD1 [THEN subsetD, of _ _ "max a b"])

subsection \<open>The lists of log space\<close>

definition log_pools :: "nat \<Rightarrow> addr set \<Rightarrow> world \<Rightarrow> bool" where
  "log_pools n LA w \<longleftrightarrow>
     (\<forall>s < n. pool_inv (log_pool w s)) \<and>
     (\<forall>s < n. \<forall>a \<in> avail (log_pool w s). accessible (mem w) a (LOG_SIZE s) \<and> {a..<a + LOG_SIZE s} \<subseteq> LA) \<and>
     (\<forall>s < n. \<forall>s' < n. \<forall>a \<in> avail (log_pool w s). \<forall>a' \<in> avail (log_pool w s').
        (s, a) \<noteq> (s', a') \<longrightarrow> disjoint_ranges a (LOG_SIZE s) a' (LOG_SIZE s')) \<and>
     (\<forall>a \<in> LA. accessible (mem w) a 1)"

lemma in_area:
  assumes "a \<in> (\<lambda>i. base + i * sz) ` {..<count::nat}"
  shows "base \<le> a" and "a + sz \<le> base + sz * count"
proof -
  obtain i where i: "a = base + i * sz" "i < count" using assms by auto
  have "Suc i * sz \<le> count * sz" using i(2) by (intro mult_le_mono1) simp
  then show "base \<le> a" "a + sz \<le> base + sz * count" using i(1) by (simp_all add: mult.commute)
qed

lemma apart_in_area:
  assumes "a \<in> (\<lambda>i. base + i * sz) ` {..<count::nat}" and "a' \<in> (\<lambda>i. base + i * sz) ` {..<count}" and "a \<noteq> a'"
  shows "disjoint_ranges a sz a' sz"
proof -
  obtain i j where ij: "a = base + i * sz" "a' = base + j * sz" using assms by auto
  then have "i < j \<or> j < i" using assms(3) by (metis nat_neq_iff)
  then have "Suc i * sz \<le> j * sz \<or> Suc j * sz \<le> i * sz" using mult_le_mono1 Suc_leI by metis
  then show ?thesis using ij by (auto simp: disjoint_ranges_def)
qed

lemma log_list_count_batches: "log_list_count i mod NR_NODE_FILL = 0"
  by (simp add: log_list_count_def Let_def minus_mod_eq_mult_div)

lemma create_log_pool_steps:
  assumes f: "fresh_mmap P" and r: "create_log_pool E P dir n (w, k) = Inr (w', k')"
  obtains a m pool where "w' = w\<lparr>mem := m, log_pool := (log_pool w)(n := pool)\<rparr>" and "pool_inv pool"
    and "avail pool = (\<lambda>i. a + i * LOG_SIZE n) ` {..<log_list_count n}" and "accessible m a (LOG_SIZE n * log_list_count n)"
    and "grows (mem w) m" and "\<And>b. b \<in> {a..<a + LOG_SIZE n * log_list_count n} \<Longrightarrow> \<not> accessible (mem w) b 1"
proof -
  obtain a m k1 pool where al: "alloc_pmem E P dir ''logs'' n (LOG_SIZE n * log_list_count n) (mem w) k = Inr (a, m, k1)"
    and cr: "create_global_list a (LOG_SIZE n) (log_list_count n) (empty_pool NR_NODE_FILL) = Inr pool"
    and w': "w' = w\<lparr>mem := m, log_pool := (log_pool w)(n := pool)\<rparr>"
    using r by (auto simp: create_log_pool_def LOG_SIZE_def elim!: bindE_InrE)
  have "pool_inv pool \<and> avail pool = (\<lambda>i. a + i * LOG_SIZE n) ` {..<log_list_count n}"
    using create_global_list_result [of NR_NODE_FILL "LOG_SIZE n" "log_list_count n" a] cr log_list_count_batches [of n]
    by (auto simp: NR_NODE_FILL_def LOG_SIZE_eq)
  then show thesis using that [OF w'] alloc_pmem_result [OF f al] by blast
qed

text \<open>A pool over a new area extends the pools over the older ones.\<close>

lemma log_pools_add:
  assumes lp: "log_pools n LA w" and p: "pool_inv pool" "avail pool = (\<lambda>i. a + i * LOG_SIZE n) ` {..<log_list_count n}"
    and m: "accessible m a (LOG_SIZE n * log_list_count n)" "grows (mem w) m"
    and fr: "\<And>b. b \<in> {a..<a + LOG_SIZE n * log_list_count n} \<Longrightarrow> \<not> accessible (mem w) b 1"
    and w': "w' = w\<lparr>mem := m, log_pool := (log_pool w)(n := pool)\<rparr>"
  shows "\<exists>LA'. log_pools (Suc n) LA' w'"
proof -
  define A where "A = {a..<a + LOG_SIZE n * log_list_count n}"
  have pos: "0 < LOG_SIZE s" for s by (simp add: LOG_SIZE_def)
  have sub: "{b..<b + LOG_SIZE n} \<subseteq> A" "accessible m b (LOG_SIZE n)" if "b \<in> avail pool" for b
    using in_area [of b a "LOG_SIZE n" "log_list_count n"] that p(2) accessible_sub [OF m(1), of b "LOG_SIZE n"] by (auto simp: A_def)
  have LA: "LA \<inter> A = {}" using lp fr by (auto simp: log_pools_def A_def)
  have cross: "disjoint_ranges b (LOG_SIZE s) c (LOG_SIZE n)" if "s < n" "b \<in> avail (log_pool w s)" "c \<in> avail pool" for s b c
  proof (rule disjoint_rangesI [OF _ pos pos])
    have "{b..<b + LOG_SIZE s} \<subseteq> LA" using lp that by (simp add: log_pools_def)
    then show "{b..<b + LOG_SIZE s} \<inter> {c..<c + LOG_SIZE n} = {}" using sub(1) [OF that(3)] LA by blast
  qed
  have own: "disjoint_ranges b (LOG_SIZE n) c (LOG_SIZE n)" if "b \<in> avail pool" "c \<in> avail pool" "b \<noteq> c" for b c
    using apart_in_area that p(2) by simp
  have "\<forall>s < Suc n. pool_inv (log_pool w' s)" using lp p(1) by (simp add: log_pools_def w' less_Suc_eq)
  moreover have "\<forall>s < Suc n. \<forall>b \<in> avail (log_pool w' s). accessible (mem w') b (LOG_SIZE s) \<and> {b..<b + LOG_SIZE s} \<subseteq> LA \<union> A"
  proof (intro allI impI ballI)
    fix s b
    assume h: "s < Suc n" "b \<in> avail (log_pool w' s)"
    show "accessible (mem w') b (LOG_SIZE s) \<and> {b..<b + LOG_SIZE s} \<subseteq> LA \<union> A"
    proof (cases "s = n")
      case True
      then show ?thesis using h sub [of b] by (auto simp: w')
    next
      case False
      then have "accessible (mem w) b (LOG_SIZE s) \<and> {b..<b + LOG_SIZE s} \<subseteq> LA" using h lp by (simp add: w' log_pools_def)
      then show ?thesis using m(2) by (auto simp: w' grows_def)
    qed
  qed
  moreover have "\<forall>s < Suc n. \<forall>s' < Suc n. \<forall>b \<in> avail (log_pool w' s). \<forall>c \<in> avail (log_pool w' s').
        (s, b) \<noteq> (s', c) \<longrightarrow> disjoint_ranges b (LOG_SIZE s) c (LOG_SIZE s')"
  proof (intro allI impI ballI)
    fix s s' b c
    assume h: "s < Suc n" "s' < Suc n" "b \<in> avail (log_pool w' s)" "c \<in> avail (log_pool w' s')" "(s, b) \<noteq> (s', c)"
    show "disjoint_ranges b (LOG_SIZE s) c (LOG_SIZE s')"
    proof (cases "s = n")
      case True
      then show ?thesis
        using h own [of b c] cross [of s' c b] disjoint_ranges_sym [of b "LOG_SIZE n" c "LOG_SIZE s'"] by (cases "s' = n") (auto simp: w')
    next
      case False
      then show ?thesis using h cross [of s b c] lp by (cases "s' = n") (auto simp: w' log_pools_def)
    qed
  qed
  moreover have "\<forall>b \<in> LA \<union> A. accessible (mem w') b 1"
    using lp m(2) accessible_sub [OF m(1), of _ 1] by (auto simp: log_pools_def w' grows_def A_def)
  ultimately have "log_pools (Suc n) (LA \<union> A) w'" unfolding log_pools_def by blast
  then show "\<exists>LA'. log_pools (Suc n) LA' w'" ..
qed

lemma create_log_pool_extends:
  assumes f: "fresh_mmap P" and r: "create_log_pool E P dir n (w, k) = Inr (w', k')" and lp: "log_pools n LA w"
  shows "\<exists>LA'. log_pools (Suc n) LA' w'" and "\<exists>m p. w' = w\<lparr>mem := m, log_pool := p\<rparr>"
proof -
  obtain a m pool where w': "w' = w\<lparr>mem := m, log_pool := (log_pool w)(n := pool)\<rparr>" and p: "pool_inv pool"
    "avail pool = (\<lambda>i. a + i * LOG_SIZE n) ` {..<log_list_count n}" and m: "accessible m a (LOG_SIZE n * log_list_count n)"
    "grows (mem w) m" and fr: "\<And>b. b \<in> {a..<a + LOG_SIZE n * log_list_count n} \<Longrightarrow> \<not> accessible (mem w) b 1"
    by (rule create_log_pool_steps [OF f r]) blast
  show "\<exists>LA'. log_pools (Suc n) LA' w'" by (rule log_pools_add [OF lp p m fr w'])
  show "\<exists>m p. w' = w\<lparr>mem := m, log_pool := p\<rparr>" using w' by blast
qed

lemma create_global_log_list_result:
  assumes f: "fresh_mmap P" and r: "create_global_log_list E P dir w k = Inr (w', k')"
  shows "\<exists>LA. log_pools NR_LOG_SIZES LA w'" and "\<exists>m p. w' = w\<lparr>mem := m, log_pool := p\<rparr>"
proof -
  have "(\<exists>LA. log_pools n LA w1) \<and> (\<exists>m p. w1 = w\<lparr>mem := m, log_pool := p\<rparr>)"
    if "foldE (create_log_pool E P dir) [0..<n] (w, k) = Inr (w1, k1)" for n w1 k1
    using that
  proof (induction n arbitrary: w1 k1)
    case 0
    then have "log_pools 0 {} w1 \<and> w1 = w\<lparr>mem := mem w, log_pool := log_pool w\<rparr>" by (simp add: log_pools_def)
    then show ?case by blast
  next
    case (Suc n)
    obtain w2 k2 where s2: "foldE (create_log_pool E P dir) [0..<n] (w, k) = Inr (w2, k2)"
      and s1: "create_log_pool E P dir n (w2, k2) = Inr (w1, k1)"
      using Suc.prems by (auto simp: foldE_append elim!: bindE_InrE)
    then obtain LA m p where "log_pools n LA w2" and w2: "w2 = w\<lparr>mem := m, log_pool := p\<rparr>" using Suc.IH by blast
    then show ?case using create_log_pool_extends [OF f s1] by auto
  qed
  then show "\<exists>LA. log_pools NR_LOG_SIZES LA w'" and "\<exists>m p. w' = w\<lparr>mem := m, log_pool := p\<rparr>"
    using r unfolding create_global_log_list_def by blast+
qed

subsection \<open>The other pools\<close>

lemma idx_list_count_eq: "idx_list_count = 40310784"
  by (simp add: idx_list_count_def LOG_FILE_SIZE_def PAGE_SHIFT_def NR_LOG_SIZES_def upt_rec)

lemma init_range_in:
  assumes "p \<in> (\<lambda>i. base + i * sz) ` {..<count}" and "0 < sz"
  shows "init_range base sz count f h p = f (h p)"
  using assms by (auto simp: init_range_def in_array_def)

lemma create_global_idx_list_result:
  assumes "create_global_idx_list E P dir w k = Inr (w', k')"
  shows "pool_inv (idx_pool w')" and "\<And>e. e \<in> avail (idx_pool w') \<Longrightarrow> united (idxs w' e) = 0"
    and "\<exists>m p i. w' = w\<lparr>mem := m, idx_pool := p, idxs := i\<rparr>"
proof -
  obtain a m pool where cr: "create_global_list a sizeof_idx_entry idx_list_count (empty_pool NR_NODE_FILL) = Inr pool"
    and w': "w' = w\<lparr>mem := m, idx_pool := pool, idxs := init_range a sizeof_idx_entry idx_list_count init_idx (idxs w)\<rparr>"
    using assms by (auto simp: create_global_idx_list_def elim!: bindE_InrE)
  have "pool_inv pool \<and> avail pool = (\<lambda>i. a + i * sizeof_idx_entry) ` {..<idx_list_count}"
    using create_global_list_result [of NR_NODE_FILL sizeof_idx_entry idx_list_count a] cr
    by (auto simp: NR_NODE_FILL_def sizeof_idx_entry_def idx_list_count_eq)
  then show "pool_inv (idx_pool w')" and "\<And>e. e \<in> avail (idx_pool w') \<Longrightarrow> united (idxs w' e) = 0"
    and "\<exists>m p i. w' = w\<lparr>mem := m, idx_pool := p, idxs := i\<rparr>"
    using init_range_in [of _ a sizeof_idx_entry idx_list_count init_idx "idxs w"]
    by (auto simp: w' init_idx_def sizeof_idx_entry_def)
qed

lemma create_global_mmio_list_result:
  assumes f: "fresh_mmap P" and r: "create_global_mmio_list E P dir w k = Inr (w', k')"
  shows "pool_inv (mmio_pool w')" and "\<And>M. M \<in> avail (mmio_pool w') \<Longrightarrow> rwlock (mmios w' M) = bravo_rwlock_init"
    and "\<exists>m p i. w' = w\<lparr>mem := m, mmio_pool := p, mmios := i\<rparr>" and "grows (mem w) (mem w')"
proof -
  obtain a m k1 pool where al: "alloc_pmem E P dir ''mmio'' 0 (sizeof_mmio * mmio_list_count) (mem w) k = Inr (a, m, k1)"
    and cr: "create_global_list a sizeof_mmio mmio_list_count (empty_pool NR_MMIO_FILL) = Inr pool"
    and w': "w' = w\<lparr>mem := m, mmio_pool := pool, mmios := init_range a sizeof_mmio mmio_list_count init_mmio (mmios w)\<rparr>"
    using r by (auto simp: create_global_mmio_list_def elim!: bindE_InrE)
  have "pool_inv pool \<and> avail pool = (\<lambda>i. a + i * sizeof_mmio) ` {..<mmio_list_count}"
    using create_global_list_result [of NR_MMIO_FILL sizeof_mmio mmio_list_count a] cr
    by (auto simp: NR_MMIO_FILL_def NR_MMIOS_def MAX_FD_def sizeof_mmio_def mmio_list_count_def)
  then show "pool_inv (mmio_pool w')" and "\<And>M. M \<in> avail (mmio_pool w') \<Longrightarrow> rwlock (mmios w' M) = bravo_rwlock_init"
    and "\<exists>m p i. w' = w\<lparr>mem := m, mmio_pool := p, mmios := i\<rparr>" and "grows (mem w) (mem w')"
    using init_range_in [of _ a sizeof_mmio mmio_list_count init_mmio "mmios w"] alloc_pmem_result(2) [OF f al]
    by (auto simp: w' init_mmio_def sizeof_mmio_def)
qed

lemma create_global_table_list_result:
  assumes "create_global_table_list P w k = Inr (w', k')"
  shows "spare_tables w'" and "\<exists>p i. w' = w\<lparr>table_pool := p, tables := i\<rparr>"
proof -
  let ?n = "NR_ALLOC_TABLES - NR_ALLOC_TABLES mod NR_NODE_FILL"
  obtain a pool where cr: "create_global_list a sizeof_log_table ?n (empty_pool NR_NODE_FILL) = Inr pool"
    and w': "w' = w\<lparr>table_pool := pool, tables := init_range a sizeof_log_table ?n init_table (tables w)\<rparr>"
    using assms by (auto simp: create_global_table_list_def Let_def elim!: bindE_InrE split: prod.splits option.splits)
  have "pool_inv pool \<and> avail pool = (\<lambda>i. a + i * sizeof_log_table) ` {..<?n}"
    using create_global_list_result [of NR_NODE_FILL sizeof_log_table ?n a] cr
    by (auto simp: NR_NODE_FILL_def sizeof_log_table_def minus_mod_eq_mult_div)
  then show "spare_tables w'" and "\<exists>p i. w' = w\<lparr>table_pool := p, tables := i\<rparr>"
    using init_range_in [of _ a sizeof_log_table ?n init_table "tables w"]
    by (auto simp: w' init_table_def sizeof_log_table_def spare_tables_def)
qed

subsection \<open>Loading\<close>

lemma log_pools_grow:
  assumes "log_pools n LA w" and "grows (mem w) (mem w')" and "log_pool w' = log_pool w"
  shows "log_pools n LA w'"
  using assms unfolding log_pools_def grows_def by simp

lemma init_allocator_result:
  assumes f: "fresh_mmap P" and r: "init_allocator E P w k = Inr (dir, w', k')"
  shows "spare_tables w'" and "\<exists>LA. log_space LA w' \<and> (\<forall>a \<in> LA. accessible (mem w') a 1)" and "pool_inv (mmio_pool w')"
    and "\<And>M. M \<in> avail (mmio_pool w') \<Longrightarrow> rwlock (mmios w' M) = bravo_rwlock_init" and "bravo w' = bravo w"
proof -
  obtain k1 w1 k2 w2 k3 w3 k4 where s: "create_global_idx_list E P dir w k1 = Inr (w1, k2)"
    "create_global_log_list E P dir w1 k2 = Inr (w2, k3)" "create_global_mmio_list E P dir w2 k3 = Inr (w3, k4)"
    "create_global_table_list P w3 k4 = Inr (w', k')"
    using r by (auto simp: init_allocator_def elim!: bindE_InrE)
  note i = create_global_idx_list_result [OF s(1)] and t = create_global_table_list_result [OF s(4)]
    and l = create_global_log_list_result [OF f s(2)] and m = create_global_mmio_list_result [OF f s(3)]
  obtain LA where LA: "log_pools NR_LOG_SIZES LA w2" using l(1) by blast
  obtain m1 p1 i1 m2 p2 m3 p3 i3 p4 i4 where w1: "w1 = w\<lparr>mem := m1, idx_pool := p1, idxs := i1\<rparr>"
    and w2: "w2 = w1\<lparr>mem := m2, log_pool := p2\<rparr>" and w3: "w3 = w2\<lparr>mem := m3, mmio_pool := p3, mmios := i3\<rparr>"
    and w4: "w' = w3\<lparr>table_pool := p4, tables := i4\<rparr>"
    using i(3) l(2) m(3) t(2) by blast
  have lp: "log_pools NR_LOG_SIZES LA w'" by (rule log_pools_grow [OF LA]) (use m(4) in \<open>simp_all add: w4 w3\<close>)
  have e: "idx_pool w' = idx_pool w1" "idxs w' = idxs w1" by (simp_all add: w4 w3 w2)
  have "log_space LA w'" using lp i(1,2) unfolding log_space_def log_pools_def e by blast
  then show "\<exists>LA. log_space LA w' \<and> (\<forall>a \<in> LA. accessible (mem w') a 1)" using lp unfolding log_pools_def by blast
  show "spare_tables w'" by (rule t(1))
  show "pool_inv (mmio_pool w')" "\<And>M. M \<in> avail (mmio_pool w') \<Longrightarrow> rwlock (mmios w' M) = bravo_rwlock_init"
    using m(1,2) by (simp_all add: w4)
  show "bravo w' = bravo w" by (simp add: w4 w3 w2 w1)
qed

text \<open>With every symbol found, all pointers are set and nothing else changes.\<close>

lemma foldE_dlsym:
  assumes "\<And>symb. sys_dlsym P symb"
  shows "foldE (\<lambda>(f, symb, msg) L. if sys_dlsym P symb then Inr (L\<lparr>fops := (fops L)(f := True)\<rparr>) else Inl (Exit msg)) xs L =
    Inr (L\<lparr>fops := \<lambda>f. f \<in> fst ` set xs \<or> fops L f\<rparr>)"
  using assms by (induction xs arbitrary: L) (auto simp: fun_eq_iff intro!: arg_cong [of _ _ "\<lambda>f. L\<lparr>fops := f\<rparr>" for L])

definition load_errors :: "error set" where
  "load_errors = {UB ''pmem_path[len - 1]'', UB ''sprintf(logdir_path)''} \<union> Exit ` {''open'', ''posix_fallocate'', ''mmap'', ''malloc''}"

lemma alloc_pmem_fail: "alloc_pmem E P dir name i len m k = Inl e \<Longrightarrow> e \<in> load_errors"
  by (auto simp: alloc_pmem_def mmap_logfile_def open_logfile_def load_errors_def elim!: bindE_InlE split: prod.splits option.splits if_splits)

lemma create_global_list_total: "0 < u \<Longrightarrow> create_global_list a sz n (empty_pool u) \<noteq> Inl e"
  using create_global_list_building [of u a sz n] by auto

lemma create_pools_fail:
  "create_global_idx_list E P dir w k = Inl e \<Longrightarrow> e \<in> load_errors" "create_log_pool E P dir i (w, k) = Inl e \<Longrightarrow> e \<in> load_errors"
  "create_global_mmio_list E P dir w k = Inl e \<Longrightarrow> e \<in> load_errors" "create_global_table_list P w k = Inl e \<Longrightarrow> e \<in> load_errors"
  by (auto simp: create_global_idx_list_def create_log_pool_def create_global_mmio_list_def NR_NODE_FILL_def NR_MMIO_FILL_def
      create_global_list_total elim!: bindE_InlE dest: alloc_pmem_fail)
    (auto simp: create_global_table_list_def Let_def create_global_list_total NR_NODE_FILL_def load_errors_def
      elim!: bindE_InlE split: prod.splits option.splits)

lemma create_log_pools_fail: "foldE (create_log_pool E P dir) xs (w, k) = Inl e \<Longrightarrow> e \<in> load_errors"
  by (induction xs arbitrary: w k) (auto elim!: bindE_InlE dest: create_pools_fail(2))

lemma init_allocator_fail: "init_allocator E P w k = Inl e \<Longrightarrow> e \<in> load_errors"
  by (auto simp: init_allocator_def create_global_log_list_def elim!: bindE_InlE dest: create_pools_fail create_log_pools_fail)
    (auto simp: get_env_def Let_def load_errors_def split: option.splits if_splits prod.splits)


lemma ex_fresh_mmap: "fresh_mmap ex_posix"
proof -
  have top: "b + l \<le> ex_top m" if "(b, l) \<in> set (regions m)" for b l m
  proof -
    have "b + l \<le> sum_list (map (\<lambda>(b, l). b + l) (regions m))" using that by (intro member_le_sum_list) (force, simp)
    then show ?thesis by (simp add: ex_top_def)
  qed
  have "\<not> accessible m b 1" if "ex_top m \<le> b" for b m
    using that top by (fastforce simp: accessible_def list_ex_iff)
  then show ?thesis by (auto simp: fresh_mmap_def ex_posix_def stub_posix_def accessible_def)
qed

lemma ex_alloc_pmem: "\<exists>a m' k'. alloc_pmem ex_env ex_posix dir name i len m k = Inr (a, m', k')"
  by (simp add: alloc_pmem_def mmap_logfile_def open_logfile_def ex_env_def ex_posix_def stub_posix_def)

lemma create_global_list_runs: "0 < u \<Longrightarrow> \<exists>p. create_global_list a sz n (empty_pool u) = Inr p"
  using create_global_list_building [of u a sz n] by blast

lemma ex_pools_run:
  "\<exists>w' k'. create_global_idx_list ex_env ex_posix dir w k = Inr (w', k')" "\<exists>w' k'. create_log_pool ex_env ex_posix dir i (w, k) = Inr (w', k')"
  "\<exists>w' k'. create_global_mmio_list ex_env ex_posix dir w k = Inr (w', k')" "\<exists>w' k'. create_global_table_list ex_posix w k = Inr (w', k')"
proof -
  note cr = create_global_list_runs [of NR_NODE_FILL] create_global_list_runs [of NR_MMIO_FILL]
  have u: "0 < NR_NODE_FILL" "0 < NR_MMIO_FILL" by (simp_all add: NR_NODE_FILL_def NR_MMIO_FILL_def)
  show "\<exists>w' k'. create_global_idx_list ex_env ex_posix dir w k = Inr (w', k')"
    using ex_alloc_pmem [of dir "''index''" 0 "idx_list_count * sizeof_idx_entry" "mem w" k] cr(1) [OF u(1)]
    by (auto simp: create_global_idx_list_def bindE_eq_Inr)
  show "\<exists>w' k'. create_log_pool ex_env ex_posix dir i (w, k) = Inr (w', k')"
    using ex_alloc_pmem [of dir "''logs''" i "2 ^ LOG_SHIFT i * log_list_count i" "mem w" k] cr(1) [OF u(1)]
    by (auto simp: create_log_pool_def bindE_eq_Inr)
  show "\<exists>w' k'. create_global_mmio_list ex_env ex_posix dir w k = Inr (w', k')"
    using ex_alloc_pmem [of dir "''mmio''" 0 "sizeof_mmio * mmio_list_count" "mem w" k] cr(2) [OF u(2)]
    by (auto simp: create_global_mmio_list_def bindE_eq_Inr)
  show "\<exists>w' k'. create_global_table_list ex_posix w k = Inr (w', k')"
    using cr(1) [OF u(1)] by (auto simp: create_global_table_list_def Let_def ex_posix_def stub_posix_def bindE_eq_Inr)
qed

lemma ex_log_pools_run: "\<exists>w' k'. foldE (create_log_pool ex_env ex_posix dir) xs (w, k) = Inr (w', k')"
proof (induction xs arbitrary: w k)
  case (Cons i xs)
  then show ?case using ex_pools_run(2) [of dir i w k] by (auto simp: bindE_eq_Inr)
qed simp

lemma ex_init_allocator_runs: "\<exists>dir w' k'. init_allocator ex_env ex_posix w k = Inr (dir, w', k')"
proof -
  have "get_env ex_posix k = Inr (''/mnt/pmem/.libnvmmio-42'', 0, k + 1)"
    by (simp add: get_env_def ex_posix_def stub_posix_def DEFAULT_PMEM_PATH_def DIR_PATH_def sizeof_logdir_path_def decimal.simps digit_def)
  moreover obtain w1 k1 where "create_global_idx_list ex_env ex_posix ''/mnt/pmem/.libnvmmio-42'' w (k + 1) = Inr (w1, k1)"
    using ex_pools_run(1) by blast
  moreover obtain w2 k2 where "create_global_log_list ex_env ex_posix ''/mnt/pmem/.libnvmmio-42'' w1 k1 = Inr (w2, k2)"
    unfolding create_global_log_list_def using ex_log_pools_run by blast
  moreover obtain w3 k3 where "create_global_mmio_list ex_env ex_posix ''/mnt/pmem/.libnvmmio-42'' w2 k2 = Inr (w3, k3)"
    using ex_pools_run(3) by blast
  moreover obtain w4 k4 where "create_global_table_list ex_posix w3 k3 = Inr (w4, k4)" using ex_pools_run(4) by blast
  ultimately show ?thesis by (simp add: init_allocator_def)
qed


subsection \<open>Removing the log files\<close>

text \<open>
  A directory as \<^verbatim>\<open>readdir\<close> and \<^verbatim>\<open>unlink\<close> are documented: the stream \<open>d\<close> returns the names in
  \<open>pending\<close> one by one, whatever is unlinked in between; \<open>unlinked\<close> are the files removed.
\<close>

definition dir_stream :: "'k posix \<Rightarrow> nat \<Rightarrow> ('k \<Rightarrow> string list) \<Rightarrow> ('k \<Rightarrow> string list) \<Rightarrow> bool" where
  "dir_stream P d pending unlinked \<longleftrightarrow>
     (\<forall>k. \<exists>k'. unlinked k' = unlinked k \<and> pending k' = tl (pending k) \<and>
        sys_readdir P d k = (if pending k = [] then None else Some (hd (pending k)), k')) \<and>
     (\<forall>f k. \<exists>k'. sys_unlink P f k = (0, k') \<and> pending k' = pending k \<and> unlinked k' = unlinked k @ [f])"

lemma dir_stream_readdir:
  assumes "dir_stream P d pending unlinked"
  shows "\<exists>k'. unlinked k' = unlinked k \<and> pending k' = tl (pending k) \<and>
    sys_readdir P d k = (if pending k = [] then None else Some (hd (pending k)), k')"
  using assms unfolding dir_stream_def by (elim conjE allE)

lemma dir_stream_unlink:
  assumes "dir_stream P d pending unlinked"
  shows "\<exists>k'. sys_unlink P f k = (0, k') \<and> pending k' = pending k \<and> unlinked k' = unlinked k @ [f]"
  using assms unfolding dir_stream_def by (elim conjE allE)

lemma remove_loop_ends:
  assumes st: "dir_stream P d pending unlinked"
  shows "\<exists>k'. remove_loop P dir d k = Some (Inr k') \<and>
    unlinked k' = unlinked k @ map (\<lambda>n. dir @ ''/'' @ n) (filter (\<lambda>n. n \<noteq> ''.'' \<and> n \<noteq> ''..'') (pending k))"
proof (induction "length (pending k)" arbitrary: k)
  case 0
  then obtain k' where "sys_readdir P d k = (None, k')" "unlinked k' = unlinked k" using dir_stream_readdir [OF st, of k] by auto
  then show ?case using 0 by (subst remove_loop.simps) simp
next
  case (Suc n)
  then obtain x xs where p: "pending k = x # xs" by (cases "pending k") simp_all
  then obtain k1 where k1: "sys_readdir P d k = (Some x, k1)" "unlinked k1 = unlinked k" "pending k1 = xs"
    using dir_stream_readdir [OF st, of k] by auto
  obtain k2 where k2: "sys_unlink P (dir @ ''/'' @ x) k1 = (0, k2)" "pending k2 = xs" "unlinked k2 = unlinked k1 @ [dir @ ''/'' @ x]"
    using dir_stream_unlink [OF st, of "dir @ ''/'' @ x" k1] k1(3) by auto
  have "n = length (pending k1)" "n = length (pending k2)" using Suc.hyps(2) p k1(3) k2(2) by simp_all
  then show ?case using Suc.hyps(1) [of k1] Suc.hyps(1) [of k2] p k1 k2
    by (subst remove_loop.simps) (cases "x = ''.'' \<or> x = ''..''"; auto)
qed


definition ex_dir :: "(string list \<times> string list) posix" where
  "ex_dir = (stub_posix id)\<lparr>sys_readdir := (\<lambda>_ (ns, us). (if ns = [] then None else Some (hd ns), (tl ns, us))),
     sys_unlink := (\<lambda>f (ns, us). (0, (ns, us @ [f])))\<rparr>"


end
