(* ===== verification/BravoSteps.thy ===== *)
theory BravoSteps
  imports Bravo
begin

text \<open>
  The BRAVO lock of src/src/bravo.c with its threads interleaved. Each thread is at a program
  point \<open>pc\<close>; a step is one access of a thread to what the threads share, that is the table of
  visible readers and the locks, with the reading of the clock an arbitrary number. Only the
  test of \<open>rd_clock\<close> makes two, of \<^verbatim>\<open>rbias\<close> and \<^verbatim>\<open>inhibit_until\<close>, at a point where the thread
  holds the lock for reading, so that no writer changes either in between. A release that the
  underlying lock refuses has no step. The set
  \<open>U\<close> has the pairs of a thread and a lock that it may use. Accesses take effect in the order
  of the steps. The flag of \<open>Rd_cas\<close> and others marks the \<^verbatim>\<open>trylock\<close> functions, which give up
  where the others wait; the flag of \<open>Reading\<close> records whether the lock was taken on the fast
  path and is looked at by no step.
\<close>

datatype pc =
    Idle
  | Rd_cas bool ptr
  | Rd_check bool ptr
  | Rd_retract bool ptr
  | Rd_slow bool ptr
  | Rd_clock ptr
  | Rd_bias ptr
  | Reading bool ptr
  | Un_clear ptr
  | Un_slow ptr
  | Wr_lock bool ptr
  | Wr_check ptr
  | Wr_scan ptr nat nat
  | Writing ptr

record bravo_sys =
  locks :: "ptr \<Rightarrow> bravo_rwlock"
  slots :: "nat \<Rightarrow> ptr option"
  pcs :: "tid \<Rightarrow> pc"

definition init_sys :: bravo_sys where
  "init_sys = \<lparr>locks = (\<lambda>_. bravo_rwlock_init), slots = (\<lambda>_. None), pcs = (\<lambda>_. Idle)\<rparr>"

definition go :: "tid \<Rightarrow> pc \<Rightarrow> bravo_sys \<Rightarrow> bravo_sys" where
  "go t p s = s\<lparr>pcs := (pcs s)(t := p)\<rparr>"

definition set_slot :: "tid \<Rightarrow> ptr \<Rightarrow> ptr option \<Rightarrow> bravo_sys \<Rightarrow> bravo_sys" where
  "set_slot t l v s = s\<lparr>slots := (slots s)(bravo_hash t l := v)\<rparr>"

definition slot_of :: "tid \<Rightarrow> ptr \<Rightarrow> bravo_sys \<Rightarrow> ptr option" where
  "slot_of t l s = slots s (bravo_hash t l)"

definition upd_lock :: "ptr \<Rightarrow> (bravo_rwlock \<Rightarrow> bravo_rwlock) \<Rightarrow> bravo_sys \<Rightarrow> bravo_sys" where
  "upd_lock l f s = s\<lparr>locks := (locks s)(l := f (locks s l))\<rparr>"

inductive bravo_step :: "(tid \<times> ptr) set \<Rightarrow> bravo_sys \<Rightarrow> bravo_sys \<Rightarrow> bool" for U where
  rd_start: "pcs s t = Idle \<Longrightarrow> (t, l) \<in> U \<Longrightarrow>
    bravo_step U s (go t (if rbias (locks s l) then Rd_cas tr l else Rd_slow tr l) s)"
| rd_cas: "pcs s t = Rd_cas tr l \<Longrightarrow> slot_of t l s = None \<Longrightarrow>
    bravo_step U s (go t (Rd_check tr l) (set_slot t l (Some l) s))"
| rd_cas_fail: "pcs s t = Rd_cas tr l \<Longrightarrow> slot_of t l s \<noteq> None \<Longrightarrow> bravo_step U s (go t (Rd_slow tr l) s)"
| rd_check: "pcs s t = Rd_check tr l \<Longrightarrow>
    bravo_step U s (go t (if rbias (locks s l) then Reading True l else Rd_retract tr l) s)"
| rd_retract: "pcs s t = Rd_retract tr l \<Longrightarrow> bravo_step U s (go t (Rd_slow tr l) (set_slot t l None s))"
| rd_slow: "pcs s t = Rd_slow tr l \<Longrightarrow> RWLOCK_READ_TRYLOCK (underlying (locks s l)) = Some u \<Longrightarrow>
    bravo_step U s (go t (Rd_clock l) (upd_lock l (\<lambda>b. b\<lparr>underlying := u\<rparr>) s))"
| rd_slow_fail: "pcs s t = Rd_slow True l \<Longrightarrow> RWLOCK_READ_TRYLOCK (underlying (locks s l)) = None \<Longrightarrow>
    bravo_step U s (go t Idle s)"
| rd_clock: "pcs s t = Rd_clock l \<Longrightarrow>
    bravo_step U s (go t (if \<not> rbias (locks s l) \<and> inhibit_until (locks s l) \<le> now_time then Rd_bias l else Reading False l) s)"
| rd_bias: "pcs s t = Rd_bias l \<Longrightarrow> bravo_step U s (go t (Reading False l) (upd_lock l (\<lambda>b. b\<lparr>rbias := True\<rparr>) s))"
| un_start: "pcs s t = Reading f l \<Longrightarrow>
    bravo_step U s (go t (if slot_of t l s \<noteq> None then Un_clear l else Un_slow l) s)"
| un_clear: "pcs s t = Un_clear l \<Longrightarrow> bravo_step U s (go t Idle (set_slot t l None s))"
| un_slow: "pcs s t = Un_slow l \<Longrightarrow> RWLOCK_UNLOCK (underlying (locks s l)) = Inr u \<Longrightarrow>
    bravo_step U s (go t Idle (upd_lock l (\<lambda>b. b\<lparr>underlying := u\<rparr>) s))"
| wr_start: "pcs s t = Idle \<Longrightarrow> (t, l) \<in> U \<Longrightarrow> bravo_step U s (go t (Wr_lock tr l) s)"
| wr_lock: "pcs s t = Wr_lock tr l \<Longrightarrow> RWLOCK_WRITE_TRYLOCK (underlying (locks s l)) = Some u \<Longrightarrow>
    bravo_step U s (go t (Wr_check l) (upd_lock l (\<lambda>b. b\<lparr>underlying := u\<rparr>) s))"
| wr_lock_fail: "pcs s t = Wr_lock True l \<Longrightarrow> RWLOCK_WRITE_TRYLOCK (underlying (locks s l)) = None \<Longrightarrow>
    bravo_step U s (go t Idle s)"
| wr_check: "pcs s t = Wr_check l \<Longrightarrow> \<not> rbias (locks s l) \<Longrightarrow> bravo_step U s (go t (Writing l) s)"
| wr_revoke: "pcs s t = Wr_check l \<Longrightarrow> rbias (locks s l) \<Longrightarrow>
    bravo_step U s (go t (Wr_scan l 0 start_time) (upd_lock l (\<lambda>b. b\<lparr>rbias := False\<rparr>) s))"
| wr_scan: "pcs s t = Wr_scan l i start_time \<Longrightarrow> i < NR_SLOTS \<Longrightarrow> slots s i \<noteq> Some l \<Longrightarrow>
    bravo_step U s (go t (Wr_scan l (i + 1) start_time) s)"
| wr_scanned: "pcs s t = Wr_scan l i start_time \<Longrightarrow> \<not> i < NR_SLOTS \<Longrightarrow>
    bravo_step U s (go t (Writing l) (upd_lock l
      (\<lambda>b. b\<lparr>inhibit_until := ul (now_time + ul (ul_sub now_time start_time * N_INHIBIT))\<rparr>) s))"
| wr_unlock: "pcs s t = Writing l \<Longrightarrow> RWLOCK_UNLOCK (underlying (locks s l)) = Inr u \<Longrightarrow>
    bravo_step U s (go t Idle (upd_lock l (\<lambda>b. b\<lparr>underlying := u\<rparr>) s))"

inductive bravo_reach :: "(tid \<times> ptr) set \<Rightarrow> bravo_sys \<Rightarrow> bool" for U where
  reach_init: "bravo_reach U init_sys"
| reach_step: "bravo_reach U s \<Longrightarrow> bravo_step U s s' \<Longrightarrow> bravo_reach U s'"

subsection \<open>The invariant\<close>

text \<open>The lock that a thread has published in its slot, has read-locked, or has write-locked.\<close>

fun fast :: "pc \<Rightarrow> ptr option" where
  "fast (Rd_check _ l) = Some l"
| "fast (Rd_retract _ l) = Some l"
| "fast (Reading True l) = Some l"
| "fast (Un_clear l) = Some l"
| "fast _ = None"

fun slow :: "pc \<Rightarrow> ptr option" where
  "slow (Rd_clock l) = Some l"
| "slow (Rd_bias l) = Some l"
| "slow (Reading False l) = Some l"
| "slow (Un_slow l) = Some l"
| "slow _ = None"

fun writing :: "pc \<Rightarrow> ptr option" where
  "writing (Wr_check l) = Some l"
| "writing (Wr_scan l _ _) = Some l"
| "writing (Writing l) = Some l"
| "writing _ = None"

fun uses :: "pc \<Rightarrow> ptr option" where
  "uses Idle = None"
| "uses (Rd_cas _ l) = Some l"
| "uses (Rd_check _ l) = Some l"
| "uses (Rd_retract _ l) = Some l"
| "uses (Rd_slow _ l) = Some l"
| "uses (Rd_clock l) = Some l"
| "uses (Rd_bias l) = Some l"
| "uses (Reading _ l) = Some l"
| "uses (Un_clear l) = Some l"
| "uses (Un_slow l) = Some l"
| "uses (Wr_lock _ l) = Some l"
| "uses (Wr_check l) = Some l"
| "uses (Wr_scan l _ _) = Some l"
| "uses (Writing l) = Some l"

definition slots_inv :: "(tid \<times> ptr) set \<Rightarrow> bravo_sys \<Rightarrow> bool" where
  "slots_inv U s \<longleftrightarrow>
     (\<forall>t l. uses (pcs s t) = Some l \<longrightarrow> (t, l) \<in> U) \<and>
     (\<forall>t l. fast (pcs s t) = Some l \<longrightarrow> slot_of t l s = Some l) \<and>
     (\<forall>i l. slots s i = Some l \<longrightarrow> (\<exists>t. fast (pcs s t) = Some l \<and> i = bravo_hash t l))"

definition counts_inv :: "bravo_sys \<Rightarrow> bool" where
  "counts_inv s \<longleftrightarrow>
     (\<forall>l. finite {t. slow (pcs s t) = Some l} \<and> readers (underlying (locks s l)) = card {t. slow (pcs s t) = Some l}) \<and>
     (\<forall>l. rwlock_ok (underlying (locks s l))) \<and>
     (\<forall>t l. writing (pcs s t) = Some l \<longrightarrow> writer (underlying (locks s l))) \<and>
     (\<forall>t t' l. writing (pcs s t) = Some l \<longrightarrow> writing (pcs s t') = Some l \<longrightarrow> t = t')"

text \<open>
  A lock whose bias is off has no reader on the fast path, unless a writer is still scanning
  the table: then such readers are in slots that it has not passed yet.
\<close>

definition scanning :: "ptr \<Rightarrow> nat \<Rightarrow> bravo_sys \<Rightarrow> bool" where
  "scanning l n s \<longleftrightarrow> (\<exists>t i st. pcs s t = Wr_scan l i st \<and> i \<le> n)"

definition bias_inv :: "bravo_sys \<Rightarrow> bool" where
  "bias_inv s \<longleftrightarrow>
     (\<forall>t l. pcs s t = Writing l \<longrightarrow> \<not> rbias (locks s l)) \<and>
     (\<forall>t l i st. pcs s t = Wr_scan l i st \<longrightarrow> \<not> rbias (locks s l)) \<and>
     (\<forall>l t'. \<not> rbias (locks s l) \<longrightarrow> pcs s t' = Reading True l \<longrightarrow> scanning l (bravo_hash t' l) s)"

lemma sys_simps [simp]:
  "pcs (go t p s) = (pcs s)(t := p)" "slots (go t p s) = slots s" "locks (go t p s) = locks s"
  "pcs (set_slot t l v s) = pcs s" "slots (set_slot t l v s) = (slots s)(bravo_hash t l := v)" "locks (set_slot t l v s) = locks s"
  "pcs (upd_lock l f s) = pcs s" "slots (upd_lock l f s) = slots s" "locks (upd_lock l f s) = (locks s)(l := f (locks s l))"
  by (simp_all add: go_def set_slot_def upd_lock_def)

lemma fast_uses: "fast p = Some l \<Longrightarrow> uses p = Some l"
  by (cases p rule: fast.cases) simp_all

lemma slots_invD:
  assumes "slots_inv U s"
  shows "uses (pcs s t) = Some l \<Longrightarrow> (t, l) \<in> U" and "fast (pcs s t) = Some l \<Longrightarrow> slots s (bravo_hash t l) = Some l"
    and "slots s i = Some l \<Longrightarrow> \<exists>t. fast (pcs s t) = Some l \<and> i = bravo_hash t l"
  using assms unfolding slots_inv_def slot_of_def by blast+

text \<open>No two pairs of a thread and a lock share a slot.\<close>

definition no_collision :: "(tid \<times> ptr) set \<Rightarrow> bool" where
  "no_collision U \<longleftrightarrow> inj_on (\<lambda>(t, l). bravo_hash t l) U"

subsubsection \<open>Slots\<close>

lemma slots_keep:
  assumes "slots_inv U s" and "pcs s' = (pcs s)(t := p)" and "slots s' = slots s" and "fast p = fast (pcs s t)"
    and "\<And>l. uses p = Some l \<Longrightarrow> (t, l) \<in> U"
  shows "slots_inv U s'"
  using assms unfolding slots_inv_def slot_of_def by (simp split: if_splits) metis

lemma slots_owner:
  assumes inv: "slots_inv U s" and c: "no_collision U" and u: "(t, l) \<in> U" and sl: "slot_of t l s = Some l'"
  shows "fast (pcs s t) = Some l"
proof -
  obtain t' where t': "fast (pcs s t') = Some l'" "bravo_hash t l = bravo_hash t' l'"
    using slots_invD(3) [OF inv] sl unfolding slot_of_def by blast
  then have "(t', l') \<in> U" using slots_invD(1) [OF inv] fast_uses by blast
  then have "(t, l) = (t', l')" using c u t'(2) inj_onD [of "\<lambda>(t, l). bravo_hash t l" U "(t, l)" "(t', l')"] by (simp add: no_collision_def)
  then show ?thesis using t'(1) by simp
qed

lemma reader_slot:
  assumes inv: "slots_inv U s" and c: "no_collision U" and pc: "pcs s t = Reading f l"
  shows "slot_of t l s \<noteq> None \<longleftrightarrow> f"
proof -
  have "(t, l) \<in> U" using slots_invD(1) [OF inv, of t l] pc by simp
  then show ?thesis using slots_owner [OF inv c, of t l] slots_invD(2) [OF inv, of t l] pc by (cases f; cases "slot_of t l s") (auto simp: slot_of_def)
qed

lemma slots_publish:
  assumes inv: "slots_inv U s" and pc: "uses (pcs s t) = Some l" "fast (pcs s t) = None" and sl: "slot_of t l s = None"
    and p: "fast p = Some l" and s': "pcs s' = (pcs s)(t := p)" "slots s' = (slots s)(bravo_hash t l := Some l)"
  shows "slots_inv U s'"
proof -
  have u: "(t, l) \<in> U" using inv pc(1) by (simp add: slots_inv_def)
  have "slot_of t' l' s' = Some l'" if "fast (pcs s' t') = Some l'" for t' l'
    using that slots_invD(2) [OF inv, of t' l'] p sl by (cases "t' = t") (auto simp: s' slot_of_def)
  moreover have "\<exists>t'. fast (pcs s' t') = Some l' \<and> i = bravo_hash t' l'" if "slots s' i = Some l'" for i l'
  proof (cases "i = bravo_hash t l")
    case True
    then show ?thesis using that p by (auto simp: s' intro!: exI [of _ t])
  next
    case False
    then have "slots s i = Some l'" using that by (simp add: s')
    then obtain t' where "fast (pcs s t') = Some l'" "i = bravo_hash t' l'"
      using slots_invD(3) [OF inv] by blast
    then show ?thesis using pc(2) by (intro exI [of _ t']) (auto simp: s')
  qed
  moreover have "(t', l') \<in> U" if "uses (pcs s' t') = Some l'" for t' l'
    using that inv u fast_uses [OF p] by (cases "t' = t") (auto simp: s' slots_inv_def)
  ultimately show ?thesis by (simp add: slots_inv_def)
qed

lemma slots_clear:
  assumes inv: "slots_inv U s" and c: "no_collision U" and pc: "fast (pcs s t) = Some l"
    and p: "fast p = None" "\<And>l'. uses p = Some l' \<Longrightarrow> l' = l"
    and s': "pcs s' = (pcs s)(t := p)" "slots s' = (slots s)(bravo_hash t l := None)"
  shows "slots_inv U s'"
proof -
  have u: "(t, l) \<in> U" using inv fast_uses [OF pc] by (simp add: slots_inv_def)
  have "slot_of t' l' s' = Some l'" if f: "fast (pcs s' t') = Some l'" for t' l'
  proof -
    have t: "t' \<noteq> t" "fast (pcs s t') = Some l'" using f p(1) by (auto simp: s' split: if_splits)
    then have "(t', l') \<in> U" using inv fast_uses by (simp add: slots_inv_def)
    then have "bravo_hash t' l' \<noteq> bravo_hash t l"
      using c u t(1) inj_onD [of "\<lambda>(t, l). bravo_hash t l" U "(t', l')" "(t, l)"] by (auto simp: no_collision_def)
    then show ?thesis using inv t(2) by (simp add: s' slots_inv_def slot_of_def)
  qed
  moreover have "\<exists>t'. fast (pcs s' t') = Some l' \<and> i = bravo_hash t' l'" if i: "slots s' i = Some l'" for i l'
  proof -
    obtain t' where "fast (pcs s t') = Some l'" "i = bravo_hash t' l'" "i \<noteq> bravo_hash t l"
      using i slots_invD(3) [OF inv, of i l'] by (auto simp: s' split: if_splits)
    then show ?thesis using pc by (intro exI [of _ t']) (auto simp: s')
  qed
  moreover have "(t', l') \<in> U" if "uses (pcs s' t') = Some l'" for t' l'
    using that inv u p(2) by (cases "t' = t") (auto simp: s' slots_inv_def)
  ultimately show ?thesis by (simp add: slots_inv_def)
qed

lemma slots_inv_step:
  assumes inv: "slots_inv U s" and c: "no_collision U" and st: "bravo_step U s s'"
  shows "slots_inv U s'"
proof -
  have u: "(t, l) \<in> U" if "uses (pcs s t) = Some l" for t l using inv that by (simp add: slots_inv_def)
  show ?thesis using st
  proof cases
    case (rd_cas t tr l)
    then show ?thesis by (intro slots_publish [OF inv, of t l "Rd_check tr l"]) simp_all
  next
    case (rd_retract t tr l)
    then show ?thesis by (intro slots_clear [OF inv c, of t l "Rd_slow tr l"]) simp_all
  next
    case (un_clear t l)
    then show ?thesis by (intro slots_clear [OF inv c, of t l Idle]) simp_all
  next
    case (un_start t f l)
    then have "fast (if slot_of t l s \<noteq> None then Un_clear l else Un_slow l) = fast (pcs s t)"
      using reader_slot [OF inv c, of t f l] by (cases f) simp_all
    then show ?thesis
      using un_start u [of t l] by (intro slots_keep [OF inv, of _ t "if slot_of t l s \<noteq> None then Un_clear l else Un_slow l"]) (auto split: if_splits)
  qed (use u in \<open>auto intro!: slots_keep [OF inv] split: if_splits\<close>)
qed

subsubsection \<open>The underlying lock\<close>

lemma holders_upd:
  "{t'. slow ((f(t := p)) t') = Some l} =
     (if slow p = Some l then insert t {t'. slow (f t') = Some l} else {t'. slow (f t') = Some l} - {t})"
  by auto

lemma counts_keep:
  assumes inv: "counts_inv s" and s': "pcs s' = (pcs s)(t := p)" "\<And>l. underlying (locks s' l) = underlying (locks s l)"
    and p: "slow p = slow (pcs s t)" "writing p = writing (pcs s t)"
  shows "counts_inv s'"
proof -
  have "slow (pcs s' t') = slow (pcs s t')" "writing (pcs s' t') = writing (pcs s t')" for t' using p by (simp_all add: s'(1))
  then show ?thesis using inv unfolding counts_inv_def s'(2) by simp
qed

lemma counts_invD:
  assumes "counts_inv s"
  shows "finite {t. slow (pcs s t) = Some l}" and "readers (underlying (locks s l)) = card {t. slow (pcs s t) = Some l}"
    and "rwlock_ok (underlying (locks s l))" and "writing (pcs s t) = Some l \<Longrightarrow> writer (underlying (locks s l))"
    and "writing (pcs s t) = Some l \<Longrightarrow> writing (pcs s t') = Some l \<Longrightarrow> t = t'"
  using assms unfolding counts_inv_def by blast+

lemma slow_excludes_writer:
  assumes inv: "counts_inv s" and "slow (pcs s t) = Some l"
  shows "0 < readers (underlying (locks s l))" and "\<not> writer (underlying (locks s l))" and "writing (pcs s t') \<noteq> Some l"
proof -
  have "t \<in> {t. slow (pcs s t) = Some l}" using assms(2) by simp
  then show r: "0 < readers (underlying (locks s l))"
    unfolding counts_invD(2) [OF inv] card_gt_0_iff using counts_invD(1) [OF inv] by blast
  then show "\<not> writer (underlying (locks s l))" using counts_invD(3) [OF inv, of l] by (auto simp: rwlock_ok_def)
  then show "writing (pcs s t') \<noteq> Some l" using counts_invD(4) [OF inv] by blast
qed

text \<open>Moving one thread together with the underlying lock of \<open>l\<close>.\<close>

lemma counts_move:
  assumes inv: "counts_inv s" and s': "pcs s' = (pcs s)(t := p)" "\<And>l'. underlying (locks s' l') = (if l' = l then u else underlying (locks s l'))"
    and ok: "rwlock_ok u" and r: "readers u = card {t'. slow (pcs s' t') = Some l}"
    and o: "\<And>l'. l' \<noteq> l \<Longrightarrow> slow p \<noteq> Some l' \<and> slow (pcs s t) \<noteq> Some l' \<and> writing p \<noteq> Some l'"
    and w: "\<And>t'. writing (pcs s' t') = Some l \<Longrightarrow> writer u"
    and w1: "\<And>t'. writing p = Some l \<Longrightarrow> writing (pcs s t') = Some l \<Longrightarrow> t' = t"
  shows "counts_inv s'"
proof -
  have f: "finite {t'. slow (pcs s' t') = Some l'}" for l' using counts_invD(1) [OF inv] unfolding s'(1) holders_upd by simp
  have "{t'. slow (pcs s' t') = Some l'} = {t'. slow (pcs s t') = Some l'}" if "l' \<noteq> l" for l'
    using o [OF that] by (auto simp: s'(1))
  then have "readers (underlying (locks s' l')) = card {t'. slow (pcs s' t') = Some l'}" for l'
    using r counts_invD(2) [OF inv] by (simp add: s'(2))
  moreover have "rwlock_ok (underlying (locks s' l'))" for l' using ok counts_invD(3) [OF inv] by (simp add: s'(2))
  moreover have "writer (underlying (locks s' l'))" if "writing (pcs s' t') = Some l'" for t' l'
    using that w [of t'] o [of l'] counts_invD(4) [OF inv, of t' l'] by (cases "l' = l"; cases "t' = t") (auto simp: s')
  moreover have "t1 = t2" if "writing (pcs s' t1) = Some l'" "writing (pcs s' t2) = Some l'" for t1 t2 l'
  proof (cases "t1 = t \<or> t2 = t")
    case True
    then have "writing p = Some l'" using that by (auto simp: s'(1))
    moreover from this have "l' = l" using o by blast
    ultimately show ?thesis using that True w1 [of t1] w1 [of t2] by (auto simp: s'(1) split: if_splits)
  next
    case False
    then show ?thesis using that counts_invD(5) [OF inv, of t1 l' t2] by (simp add: s'(1))
  qed
  ultimately show ?thesis using f unfolding counts_inv_def by blast
qed

lemma holders_add: "counts_inv s \<Longrightarrow> slow (pcs s t) = None \<Longrightarrow> slow p = Some l \<Longrightarrow>
    card {t'. slow (((pcs s)(t := p)) t') = Some l} = readers (underlying (locks s l)) + 1"
  unfolding holders_upd using counts_invD(1,2) [of s l] by simp

lemma holders_del: "counts_inv s \<Longrightarrow> slow (pcs s t) = Some l \<Longrightarrow> slow p = None \<Longrightarrow>
    card {t'. slow (((pcs s)(t := p)) t') = Some l} = readers (underlying (locks s l)) - 1"
  unfolding holders_upd using counts_invD(1,2) [of s l] by simp

lemma holders_same: "counts_inv s \<Longrightarrow> slow (pcs s t) = slow p \<Longrightarrow>
    card {t'. slow (((pcs s)(t := p)) t') = Some l} = readers (underlying (locks s l))"
  unfolding holders_upd using counts_invD(2) [of s l] by (auto intro!: arg_cong [of _ _ card])

lemma counts_inv_step:
  assumes inv: "counts_inv s" and sl: "slots_inv U s" "no_collision U" and st: "bravo_step U s s'"
  shows "counts_inv s'"
  using st
proof cases
  case (rd_slow t tr l u)
  have u: "u = (underlying (locks s l))\<lparr>readers := readers (underlying (locks s l)) + 1\<rparr>" "\<not> writer (underlying (locks s l))"
    using rd_slow(3) by (auto simp: rwlock_defs split: if_splits)
  show ?thesis
    by (rule counts_move [OF inv, of s' t "Rd_clock l" l u])
      (use rd_slow u holders_add [OF inv, of t "Rd_clock l" l] counts_invD(4) [OF inv] in \<open>auto simp: rwlock_ok_def split: if_splits\<close>)
next
  case (un_slow t l u)
  have pos: "0 < readers (underlying (locks s l))" "\<not> writer (underlying (locks s l))"
    using slow_excludes_writer [OF inv, of t l] un_slow(2) by simp_all
  then have u: "u = (underlying (locks s l))\<lparr>readers := readers (underlying (locks s l)) - 1\<rparr>"
    using un_slow(3) by (auto simp: rwlock_defs split: if_splits)
  show ?thesis
    by (rule counts_move [OF inv, of s' t Idle l u])
      (use un_slow u pos holders_del [OF inv, of t l Idle] counts_invD(4) [OF inv] in \<open>auto simp: rwlock_ok_def split: if_splits\<close>)
next
  case (wr_lock t tr l u)
  have u: "u = (underlying (locks s l))\<lparr>writer := True\<rparr>" "\<not> writer (underlying (locks s l))" "readers (underlying (locks s l)) = 0"
    using wr_lock(3) by (auto simp: rwlock_defs split: if_splits)
  show ?thesis
    by (rule counts_move [OF inv, of s' t "Wr_check l" l u])
      (use wr_lock u holders_same [OF inv, of t "Wr_check l" l] counts_invD(4) [OF inv] in \<open>auto simp: rwlock_ok_def split: if_splits\<close>)
next
  case (wr_unlock t l u)
  have w: "writer (underlying (locks s l))" using counts_invD(4) [OF inv, of t l] wr_unlock(2) by simp
  then have u: "u = (underlying (locks s l))\<lparr>writer := False\<rparr>" using wr_unlock(3) by (simp add: rwlock_defs)
  show ?thesis
    by (rule counts_move [OF inv, of s' t Idle l u])
      (use wr_unlock u w holders_same [OF inv, of t Idle l] counts_invD(5) [OF inv, of t l] in \<open>auto simp: rwlock_ok_def split: if_splits\<close>)
next
  case (un_start t f l)
  then have "slow (if slot_of t l s \<noteq> None then Un_clear l else Un_slow l) = slow (pcs s t)"
    using reader_slot [OF sl, of t f l] by (cases f) simp_all
  then show ?thesis
    using un_start by (intro counts_keep [OF inv, of _ t "if slot_of t l s \<noteq> None then Un_clear l else Un_slow l"]) auto
qed (auto intro!: counts_keep [OF inv] split: if_splits)

subsubsection \<open>The bias\<close>

lemma bias_invD:
  assumes "bias_inv s"
  shows "pcs s t = Writing l \<Longrightarrow> \<not> rbias (locks s l)" and "pcs s t = Wr_scan l i st \<Longrightarrow> \<not> rbias (locks s l)"
    and "\<not> rbias (locks s l) \<Longrightarrow> pcs s t' = Reading True l \<Longrightarrow> scanning l (bravo_hash t' l) s"
  using assms unfolding bias_inv_def by blast+

lemma scanningI: "pcs s t = Wr_scan l i st \<Longrightarrow> i \<le> n \<Longrightarrow> scanning l n s"
  unfolding scanning_def by blast

lemma scanning_other:
  assumes "scanning l n s" and "pcs s' = (pcs s)(t := p)" and "\<And>i st. pcs s t = Wr_scan l i st \<Longrightarrow> n < i"
  shows "scanning l n s'"
proof -
  obtain t1 i st where "pcs s t1 = Wr_scan l i st" "i \<le> n" using assms(1) unfolding scanning_def by blast
  moreover from this have "t1 \<noteq> t" using assms(3) by fastforce
  ultimately show ?thesis using assms(2) by (intro scanningI [of s' t1 l i st]) simp_all
qed

text \<open>A step of a thread that is not involved in the bias of any lock.\<close>

lemma bias_keep:
  assumes inv: "bias_inv s" and s': "pcs s' = (pcs s)(t := p)" "\<And>l. rbias (locks s' l) = rbias (locks s l)"
    and p: "\<And>l. p = Writing l \<Longrightarrow> \<not> rbias (locks s l)" "\<And>l i st. p \<noteq> Wr_scan l i st" "\<And>l. p = Reading True l \<Longrightarrow> rbias (locks s l)"
    and t: "\<And>l i st. pcs s t \<noteq> Wr_scan l i st"
  shows "bias_inv s'"
  unfolding bias_inv_def s'(2)
proof (intro conjI allI impI)
  fix t1 l
  assume "pcs s' t1 = Writing l"
  then show "\<not> rbias (locks s l)" using p(1) bias_invD(1) [OF inv] by (auto simp: s'(1) split: if_splits)
next
  fix t1 l i st
  assume "pcs s' t1 = Wr_scan l i st"
  then show "\<not> rbias (locks s l)" using p(2) bias_invD(2) [OF inv] by (auto simp: s'(1) split: if_splits)
next
  fix l t'
  assume h: "\<not> rbias (locks s l)" "pcs s' t' = Reading True l"
  then have "pcs s t' = Reading True l" using p(3) by (auto simp: s'(1) split: if_splits)
  then show "scanning l (bravo_hash t' l) s'" using scanning_other [OF bias_invD(3) [OF inv h(1)] s'(1)] t by blast
qed

lemma bias_inv_step:
  assumes inv: "bias_inv s" and cn: "counts_inv s" and sl: "slots_inv U s" and st: "bravo_step U s s'"
  shows "bias_inv s'"
  using st
proof cases
  case (rd_bias t l)
  have w: "writing (pcs s t') \<noteq> Some l" for t' using slow_excludes_writer(3) [OF cn, of t l] rd_bias(2) by simp
  have "pcs s t' \<noteq> Writing l" "pcs s t' \<noteq> Wr_scan l i st" for t' i st using w [of t'] by auto
  moreover have "scanning l' n s'" if "scanning l' n s" for l' n
    using scanning_other [OF that, of s' t "Reading False l"] rd_bias by simp
  ultimately show ?thesis using inv rd_bias unfolding bias_inv_def by (auto split: if_splits)
next
  case (wr_revoke t l st)
  have "pcs s t' \<noteq> Writing l" "pcs s t' \<noteq> Wr_scan l i st" for t' i st using bias_invD(1,2) [OF inv] wr_revoke(3) by blast+
  moreover have "scanning l' n s'" if "scanning l' n s" for l' n
    using scanning_other [OF that, of s' t "Wr_scan l 0 st"] wr_revoke by simp
  moreover have "scanning l n s'" for n using wr_revoke(1) by (intro scanningI [of s' t l 0 st]) simp_all
  ultimately show ?thesis using inv wr_revoke unfolding bias_inv_def by (auto split: if_splits)
next
  case (wr_scan t l i st)
  have n: "\<not> rbias (locks s l)" using bias_invD(2) [OF inv wr_scan(2)] .
  have "scanning l' (bravo_hash t' l') s'" if h: "\<not> rbias (locks s l')" "pcs s t' = Reading True l'" for l' t'
  proof (cases "l' = l \<and> i \<le> bravo_hash t' l'")
    case True
    moreover have "bravo_hash t' l' \<noteq> i" using slots_invD(2) [OF sl, of t' l'] h(2) wr_scan(4) True by auto
    ultimately show ?thesis using wr_scan(1) by (intro scanningI [of s' t l' "i + 1" st]) auto
  next
    case False
    then show ?thesis
      using scanning_other [OF bias_invD(3) [OF inv h], of s' t "Wr_scan l (i + 1) st"] wr_scan(1,2) by fastforce
  qed
  then show ?thesis using inv wr_scan n unfolding bias_inv_def by (auto split: if_splits)
next
  case (wr_scanned t l i st now_time)
  have n: "\<not> rbias (locks s l)" using bias_invD(2) [OF inv wr_scanned(2)] .
  have "scanning l' (bravo_hash t' l') s'" if h: "\<not> rbias (locks s l')" "pcs s t' = Reading True l'" for l' t'
    using scanning_other [OF bias_invD(3) [OF inv h], of s' t "Writing l"] wr_scanned(1-3) bravo_hash_less [of t' l'] by fastforce
  then show ?thesis using inv wr_scanned n unfolding bias_inv_def by (auto split: if_splits)
next
  case (rd_check t tr l)
  then show ?thesis by (intro bias_keep [OF inv, of s' t "if rbias (locks s l) then Reading True l else Rd_retract tr l"]) (auto split: if_splits)
next
  case (un_start t f l)
  then show ?thesis by (intro bias_keep [OF inv, of s' t "if slot_of t l s \<noteq> None then Un_clear l else Un_slow l"]) (auto split: if_splits)
next
  case (rd_start t l tr)
  then show ?thesis by (intro bias_keep [OF inv, of s' t "if rbias (locks s l) then Rd_cas tr l else Rd_slow tr l"]) (auto split: if_splits)
next
  case (rd_clock t l now_time)
  then show ?thesis
    by (intro bias_keep [OF inv, of s' t "if \<not> rbias (locks s l) \<and> inhibit_until (locks s l) \<le> now_time then Rd_bias l else Reading False l"]) (auto split: if_splits)
qed (auto intro!: bias_keep [OF inv] split: if_splits)

lemma bravo_inv:
  assumes "bravo_reach U s" and c: "no_collision U"
  shows "slots_inv U s \<and> counts_inv s \<and> bias_inv s"
  using assms(1)
proof induction
  case reach_init
  then show ?case by (simp add: init_sys_def slots_inv_def counts_inv_def bias_inv_def bravo_rwlock_init_def rwlock_defs)
next
  case (reach_step s s')
  then show ?case using slots_inv_step [OF _ c] counts_inv_step [OF _ _ c] bias_inv_step by blast
qed

subsection \<open>Runs\<close>

lemma go_go [simp]: "go t p (go t q s) = go t p s" "go t p (set_slot t' l v (go t q s)) = go t p (set_slot t' l v s)"
  "go t p (upd_lock l f (go t q s)) = go t p (upd_lock l f s)"
  by (simp_all add: go_def set_slot_def upd_lock_def)

text \<open>A reader on the fast path, and one whose slot is taken.\<close>

lemma run_fast_read:
  assumes "bravo_reach U s" "pcs s t = Idle" "(t, l) \<in> U" "rbias (locks s l)" "slot_of t l s = None"
  shows "bravo_reach U (go t (Reading True l) (set_slot t l (Some l) s))"
proof -
  have "bravo_reach U (go t (Rd_cas False l) s)"
    using reach_step [OF assms(1) rd_start [OF assms(2,3), of False]] assms(4) by simp
  from reach_step [OF this rd_cas [of _ t False l]] assms(5)
  have "bravo_reach U (go t (Rd_check False l) (set_slot t l (Some l) s))" by (simp add: slot_of_def)
  from reach_step [OF this rd_check [of _ t False l]] assms(4) show ?thesis by simp
qed

lemma run_slow_read:
  assumes "bravo_reach U s" "pcs s t = Idle" "(t, l) \<in> U" "rbias (locks s l)" "slot_of t l s \<noteq> None"
    and "RWLOCK_READ_TRYLOCK (underlying (locks s l)) = Some u"
  shows "bravo_reach U (go t (Reading False l) (upd_lock l (\<lambda>b. b\<lparr>underlying := u\<rparr>) s))"
proof -
  have "bravo_reach U (go t (Rd_cas False l) s)"
    using reach_step [OF assms(1) rd_start [OF assms(2,3), of False]] assms(4) by simp
  from reach_step [OF this rd_cas_fail [of _ t False l]] assms(5)
  have "bravo_reach U (go t (Rd_slow False l) s)" by (simp add: slot_of_def)
  from reach_step [OF this rd_slow [of _ t False l u]] assms(6)
  have "bravo_reach U (go t (Rd_clock l) (upd_lock l (\<lambda>b. b\<lparr>underlying := u\<rparr>) s))" by simp
  from reach_step [OF this rd_clock [where t = t and l = l and now_time = 0]] assms(4) show ?thesis by simp
qed

lemma run_unlock_clear:
  assumes "bravo_reach U s" "pcs s t = Reading f l" "slot_of t l s \<noteq> None"
  shows "bravo_reach U (go t Idle (set_slot t l None s))"
proof -
  have "bravo_reach U (go t (Un_clear l) s)" using reach_step [OF assms(1) un_start [OF assms(2)]] assms(3) by simp
  from reach_step [OF this un_clear [of _ t l]] show ?thesis by simp
qed

lemma run_scan:
  assumes "bravo_reach U (go t (Wr_scan l 0 st) s)" "\<And>i. i < NR_SLOTS \<Longrightarrow> slots s i \<noteq> Some l" "i \<le> NR_SLOTS"
  shows "bravo_reach U (go t (Wr_scan l i st) s)"
  using assms(3)
proof (induction i)
  case 0
  then show ?case using assms(1) by simp
next
  case (Suc i)
  then show ?case using reach_step [OF Suc.IH wr_scan [of _ t l i st]] assms(2) [of i] by simp
qed

lemma run_write:
  assumes "bravo_reach U s" "pcs s t = Idle" "(t, l) \<in> U" "underlying (locks s l) = RWLOCK_INIT" "rbias (locks s l)"
    and "\<And>i. i < NR_SLOTS \<Longrightarrow> slots s i \<noteq> Some l"
  shows "\<exists>s'. bravo_reach U s' \<and> pcs s' = (pcs s)(t := Writing l)"
proof -
  let ?u = "RWLOCK_INIT\<lparr>writer := True\<rparr>"
  let ?s1 = "upd_lock l (\<lambda>b. b\<lparr>underlying := ?u\<rparr>) s"
  let ?s2 = "upd_lock l (\<lambda>b. b\<lparr>rbias := False\<rparr>) ?s1"
  have "bravo_reach U (go t (Wr_lock False l) s)" by (rule reach_step [OF assms(1) wr_start [OF assms(2,3)]])
  from reach_step [OF this wr_lock [of _ t False l ?u]] assms(4)
  have "bravo_reach U (go t (Wr_check l) ?s1)" by (simp add: rwlock_defs)
  from reach_step [OF this wr_revoke [where t = t and l = l and start_time = 0]] assms(5)
  have s0: "bravo_reach U (go t (Wr_scan l 0 0) ?s2)" by simp
  have "bravo_reach U (go t (Wr_scan l NR_SLOTS 0) ?s2)" (is "bravo_reach U ?s3") by (rule run_scan [OF s0]) (use assms(6) in simp_all)
  moreover have "bravo_step U ?s3 (go t (Writing l) (upd_lock l (\<lambda>b. b\<lparr>inhibit_until := ul (0 + ul (ul_sub 0 0 * N_INHIBIT))\<rparr>) ?s3))"
    by (rule wr_scanned [of _ _ _ NR_SLOTS]) simp_all
  ultimately have "bravo_reach U (go t (Writing l) (upd_lock l (\<lambda>b. b\<lparr>inhibit_until := ul (0 + ul (ul_sub 0 0 * N_INHIBIT))\<rparr>) ?s3))"
    by (rule reach_step)
  moreover have "pcs (go t (Writing l) (upd_lock l f ?s3)) = (pcs s)(t := Writing l)" for f by simp
  ultimately show ?thesis by blast
qed

subsection \<open>Properties\<close>

text \<open>
  C9: The lock excludes, in every interleaving of any number of threads, as long as no two
  pairs of a thread and a lock hash to the same slot: while a thread is between
  \<^verbatim>\<open>bravo_write_lock\<close> and \<^verbatim>\<open>bravo_write_unlock\<close>, no other is, and no thread is between
  \<^verbatim>\<open>bravo_read_lock\<close> and \<^verbatim>\<open>bravo_read_unlock\<close> of the same lock, on the fast or on the slow path.
  And the underlying lock is never released by a thread that does not hold it.
\<close>

theorem bravo_mutual_exclusion:
  assumes "no_collision U" and "bravo_reach U s"
  shows "(\<forall>t t' f l. pcs s t = Writing l \<longrightarrow> pcs s t' \<noteq> Reading f l) \<and>
    (\<forall>t t' l. pcs s t = Writing l \<and> pcs s t' = Writing l \<longrightarrow> t = t') \<and>
    (\<forall>t l. pcs s t = Un_slow l \<or> pcs s t = Writing l \<longrightarrow> (\<exists>u. RWLOCK_UNLOCK (underlying (locks s l)) = Inr u))"
proof (intro conjI allI impI)
  note inv = bravo_inv [OF assms(2,1), THEN conjunct2, THEN conjunct1] bravo_inv [OF assms(2,1), THEN conjunct2, THEN conjunct2]
  fix t l
  show "t = t'" if "pcs s t = Writing l \<and> pcs s t' = Writing l" for t' using counts_invD(5) [OF inv(1), of t l t'] that by simp
  show "\<exists>u. RWLOCK_UNLOCK (underlying (locks s l)) = Inr u" if "pcs s t = Un_slow l \<or> pcs s t = Writing l"
    using that slow_excludes_writer(1) [OF inv(1), of t l] counts_invD(4) [OF inv(1), of t l] by (auto simp: RWLOCK_UNLOCK_def)
  show "pcs s t' \<noteq> Reading f l" if w: "pcs s t = Writing l" for t' f
  proof (cases f)
    case True
    have "pcs s t1 \<noteq> Wr_scan l i st" for t1 i st using counts_invD(5) [OF inv(1), of t l t1] w by auto
    then have "\<not> scanning l n s" for n by (simp add: scanning_def)
    then show ?thesis using True bias_invD(3) [OF inv(2) bias_invD(1) [OF inv(2) w], of t'] by auto
  next
    case False
    then show ?thesis using slow_excludes_writer(3) [OF inv(1), of t' l t] w by auto
  qed
qed

theorem bravo_mutual_exclusion_witness:
  "\<exists>s. bravo_reach {(5, 64), (6, 64)} s \<and> pcs s 5 = Reading True 64 \<and> pcs s 6 \<noteq> Writing 64"
proof -
  let ?U = "{(5, 64), (6, 64)}" and ?s = "go 5 (Reading True 64) (set_slot 5 64 (Some 64) init_sys)"
  have "bravo_hash 5 64 \<noteq> bravo_hash 6 64" by code_simp
  then have c: "no_collision ?U" by (simp add: no_collision_def)
  have r: "bravo_reach ?U ?s"
    by (rule run_fast_read [OF reach_init]) (simp_all add: init_sys_def slot_of_def bravo_rwlock_init_def)
  have p: "pcs ?s 5 = Reading True 64" by simp
  have "pcs ?s 6 \<noteq> Writing 64" using bravo_mutual_exclusion [OF c r] p by blast
  then show ?thesis using r p by blast
qed

text \<open>
  C32: Without that assumption the lock does not exclude: if a thread and a lock hash to the
  slot of another thread reading another lock, there is a run in which the first thread
  reads its lock, clears the slot on unlocking, and then write-locks the other thread's
  lock while the other thread is still reading.
\<close>

theorem bravo_collision_breaks_exclusion:
  assumes "bravo_hash t l = bravo_hash t' l'" and "t \<noteq> t'" and "l \<noteq> l'" and "{(t, l), (t, l'), (t', l')} \<subseteq> U"
  shows "\<exists>s. bravo_reach U s \<and> pcs s t' = Reading True l' \<and> pcs s t = Writing l'"
proof -
  let ?s1 = "go t' (Reading True l') (set_slot t' l' (Some l') init_sys)"
  have i: "rbias (locks init_sys k)" "underlying (locks init_sys k) = RWLOCK_INIT" "slots init_sys j = None" "pcs init_sys p = Idle" for k j p
    by (simp_all add: init_sys_def bravo_rwlock_init_def)
  have s1: "bravo_reach U ?s1" by (rule run_fast_read [OF reach_init]) (use assms(4) in \<open>simp_all add: i slot_of_def\<close>)
  let ?u = "RWLOCK_INIT\<lparr>readers := 1\<rparr>"
  let ?s2 = "go t (Reading False l) (upd_lock l (\<lambda>b. b\<lparr>underlying := ?u\<rparr>) ?s1)"
  have s2: "bravo_reach U ?s2"
    by (rule run_slow_read [OF s1]) (use assms in \<open>simp_all add: i slot_of_def rwlock_defs\<close>)
  let ?s3 = "go t Idle (set_slot t l None ?s2)"
  have "slot_of t l ?s2 \<noteq> None" using assms(1) by (simp add: slot_of_def)
  then have s3: "bravo_reach U ?s3" by (intro run_unlock_clear [OF s2, of t False l]) simp_all
  have "\<exists>s'. bravo_reach U s' \<and> pcs s' = (pcs ?s3)(t := Writing l')"
    by (rule run_write [OF s3]) (use assms in \<open>simp_all add: i\<close>)
  then show ?thesis using assms(2) by auto
qed

theorem bravo_collision_breaks_exclusion_witness:
  "\<exists>s. bravo_reach UNIV s \<and> pcs s 2 = Reading True 10 \<and> pcs s 1 = Writing 10"
proof -
  have "bravo_hash 1 11 = bravo_hash 2 10" by (simp add: bravo_hash_def)
  from bravo_collision_breaks_exclusion [OF this, of UNIV] show ?thesis by simp
qed

end
