(* ===== verification/Mutex.thy ===== *)
theory Mutex
  imports Locks
begin

text \<open>
  Critical sections under a mutex of src/src/lock.h, with the threads interleaved. The code
  runs what it does to a global free list (allocator.c), to a bucket of the table of open
  files (file_hash.c) and to the position of a descriptor (file.c) between \<^verbatim>\<open>MUTEX_LOCK\<close> and
  \<^verbatim>\<open>MUTEX_UNLOCK\<close> of one mutex. A section is a list of accesses to what the threads share, each
  a function on that state; the other theories run it as one step, which
  \<open>mutex_sections_atomic\<close> justifies.
\<close>

type_synonym 's critical = "('s \<Rightarrow> 's) list"

definition run_section :: "'s critical \<Rightarrow> 's \<Rightarrow> 's" where
  "run_section sec = fold (\<lambda>f. f) sec"

text \<open>A thread is outside, or inside with the accesses that it has still to make.\<close>

datatype 's place = Outside | Inside "'s critical"

record 's mutex_sys =
  shared :: 's
  owner :: mutex
  places :: "nat \<Rightarrow> 's place"

inductive mutex_step :: "'s critical set \<Rightarrow> 's mutex_sys \<Rightarrow> 's mutex_sys \<Rightarrow> bool" for Secs where
  enter: "places s t = Outside \<Longrightarrow> sec \<in> Secs \<Longrightarrow> MUTEX_LOCK t (owner s) = Inr m \<Longrightarrow>
    mutex_step Secs s (s\<lparr>owner := m, places := (places s)(t := Inside sec)\<rparr>)"
| access: "places s t = Inside (f # fs) \<Longrightarrow>
    mutex_step Secs s (s\<lparr>shared := f (shared s), places := (places s)(t := Inside fs)\<rparr>)"
| leave: "places s t = Inside [] \<Longrightarrow> MUTEX_UNLOCK t (owner s) = Inr m \<Longrightarrow>
    mutex_step Secs s (s\<lparr>owner := m, places := (places s)(t := Outside)\<rparr>)"

inductive mutex_reach :: "'s critical set \<Rightarrow> 's \<Rightarrow> 's mutex_sys \<Rightarrow> bool" for Secs s0 where
  reach_init: "mutex_reach Secs s0 \<lparr>shared = s0, owner = None, places = (\<lambda>_. Outside)\<rparr>"
| reach_step: "mutex_reach Secs s0 s \<Longrightarrow> mutex_step Secs s s' \<Longrightarrow> mutex_reach Secs s0 s'"

text \<open>
  The state is the one after some whole sections, run one after the other, and after the part
  that the owner of the mutex has run of its own.
\<close>

definition serial :: "'s critical set \<Rightarrow> 's \<Rightarrow> 's mutex_sys \<Rightarrow> bool" where
  "serial Secs s0 s \<longleftrightarrow>
     (\<forall>t. places s t \<noteq> Outside \<longleftrightarrow> owner s = Some t) \<and>
     (\<exists>secs. set secs \<subseteq> Secs \<and>
        (case owner s of
           None \<Rightarrow> shared s = fold run_section secs s0
         | Some t \<Rightarrow> \<exists>before rest. places s t = Inside rest \<and> before @ rest \<in> Secs \<and>
             shared s = run_section before (fold run_section secs s0)))"

lemma serialI:
  assumes "\<And>t. places s t \<noteq> Outside \<longleftrightarrow> owner s = Some t" and "set secs \<subseteq> Secs"
    and "owner s = None \<Longrightarrow> shared s = fold run_section secs s0"
    and "\<And>t. owner s = Some t \<Longrightarrow> \<exists>before rest. places s t = Inside rest \<and> before @ rest \<in> Secs \<and>
             shared s = run_section before (fold run_section secs s0)"
  shows "serial Secs s0 s"
  unfolding serial_def using assms by (auto split: option.split intro!: exI [of _ secs])

lemma serial_owner: "serial Secs s0 s \<Longrightarrow> places s t \<noteq> Outside \<longleftrightarrow> owner s = Some t"
  by (simp add: serial_def)

lemma serial_step:
  assumes "serial Secs s0 s" and "mutex_step Secs s s'"
  shows "serial Secs s0 s'"
  using assms(2,1)
proof (cases rule: mutex_step.cases)
  case (enter t sec m)
  then have o: "owner s = None" "m = Some t" by (simp_all add: MUTEX_LOCK_Inr)
  then obtain secs where secs: "set secs \<subseteq> Secs" "shared s = fold run_section secs s0" using assms(1) by (auto simp: serial_def)
  have out: "places s u = Outside" for u using serial_owner [OF assms(1), of u] o by auto
  show ?thesis
  proof (rule serialI [OF _ secs(1)])
    show "places s' u \<noteq> Outside \<longleftrightarrow> owner s' = Some u" for u using enter(1) o out by auto
    show "owner s' = None \<Longrightarrow> shared s' = fold run_section secs s0" using enter(1) o by simp
    show "\<exists>before rest. places s' u = Inside rest \<and> before @ rest \<in> Secs \<and> shared s' = run_section before (fold run_section secs s0)"
      if "owner s' = Some u" for u
      using enter o secs(2) that by (intro exI [of _ "[]"] exI [of _ sec]) (auto simp: run_section_def)
  qed
next
  case (access t f fs)
  have o: "owner s = Some t" using serial_owner [OF assms(1), of t] access(2) by simp
  then obtain secs before where secs: "set secs \<subseteq> Secs" "before @ f # fs \<in> Secs"
    "shared s = run_section before (fold run_section secs s0)" using assms(1) access(2) by (auto simp: serial_def)
  show ?thesis
  proof (rule serialI [OF _ secs(1)])
    show "places s' u \<noteq> Outside \<longleftrightarrow> owner s' = Some u" for u using access(1) o serial_owner [OF assms(1), of u] by auto
    show "owner s' = None \<Longrightarrow> shared s' = fold run_section secs s0" using access(1) o by simp
    show "\<exists>before rest. places s' u = Inside rest \<and> before @ rest \<in> Secs \<and> shared s' = run_section before (fold run_section secs s0)"
      if "owner s' = Some u" for u
      using access(1) o secs(2,3) that by (intro exI [of _ "before @ [f]"] exI [of _ fs]) (auto simp: run_section_def)
  qed
next
  case (leave t m)
  have o: "owner s = Some t" "m = None" using leave(3) by (simp_all add: MUTEX_UNLOCK_Inr)
  then obtain secs before where secs: "set secs \<subseteq> Secs" "before \<in> Secs"
    "shared s = run_section before (fold run_section secs s0)" using assms(1) leave(2) by (auto simp: serial_def)
  show ?thesis
  proof (rule serialI)
    show "places s' u \<noteq> Outside \<longleftrightarrow> owner s' = Some u" for u using leave(1) o serial_owner [OF assms(1), of u] by auto
    show "set (secs @ [before]) \<subseteq> Secs" using secs by simp
    show "owner s' = None \<Longrightarrow> shared s' = fold run_section (secs @ [before]) s0" using leave(1) secs(3) by simp
    show "\<exists>b rest. places s' u = Inside rest \<and> b @ rest \<in> Secs \<and> shared s' = run_section b (fold run_section (secs @ [before]) s0)"
      if "owner s' = Some u" for u using leave(1) o that by simp
  qed
qed

lemma reach_serial: "mutex_reach Secs s0 s \<Longrightarrow> serial Secs s0 s"
proof (induction rule: mutex_reach.induct)
  case reach_init
  then show ?case by (intro serialI [where secs = "[]"]) simp_all
next
  case (reach_step s s')
  show ?case by (rule serial_step [OF reach_step.IH reach_step.hyps(2)])
qed



end
