(* ===== verification/CheckpointSpec.thy ===== *)
theory CheckpointSpec
  imports Commit
begin

text \<open>
  Checkpointing a file (\<^verbatim>\<open>checkpoint_mmio\<close> of src/src/mmio.c): every block whose log is older than
  the current epoch is written back and gives up its entry and its log, and the contents of
  the file do not change.
\<close>

subsection \<open>Giving up one entry\<close>

text \<open>The file without the entry of the block of \<open>off\<close>, whose contents are in the file now.\<close>

definition removed :: "ptr \<Rightarrow> nat \<Rightarrow> ptr \<Rightarrow> world \<Rightarrow> world \<Rightarrow> bool" where
  "removed M off entry w w' \<longleftrightarrow>
     entry_at w M off = Some entry \<and>
     (\<forall>x < mapped_len (mmios w M). entry_at w' M x = (if entry_at w M x = Some entry then None else entry_at w M x)) \<and>
     leaf_size w' M = leaf_size w M \<and> leaves_ok w' M \<and> mem w' = mem w \<and> mmios w' = mmios w \<and> bravo w' = bravo w \<and>
     (\<forall>p. p \<noteq> entry \<longrightarrow> idxs w' p = idxs w p) \<and> united (idxs w' entry) = 0 \<and>
     pool_inv (idx_pool w') \<and> avail (idx_pool w') = insert entry (avail (idx_pool w)) \<and>
     (\<forall>r < NR_LOG_SIZES. pool_inv (log_pool w' r)) \<and>
     (\<forall>r. avail (log_pool w' r) =
        (if r = leaf_size w M off then insert (log (idxs w entry)) (avail (log_pool w r)) else avail (log_pool w r))) \<and>
     (\<forall>i < bpart w M off. entry_view w entry (start (mmios w M) + boff w M off) i = bytes (mem w) (start (mmios w M) + boff w M off + i)) \<and>
     (\<forall>x. find_log_table w' (radixlog (mmios w M)) x = find_log_table w (radixlog (mmios w M)) x) \<and>
     (\<forall>q j. child w' q j \<noteq> None \<longrightarrow> child w q j \<noteq> None)"

lemma removedD:
  assumes "removed M off entry w w'"
  shows "entry_at w M off = Some entry"
    and "x < mapped_len (mmios w M) \<Longrightarrow> entry_at w' M x = (if entry_at w M x = Some entry then None else entry_at w M x)"
    and "leaf_size w' M = leaf_size w M" and "mem w' = mem w" and "mmios w' = mmios w"
    and "p \<noteq> entry \<Longrightarrow> idxs w' p = idxs w p" and "united (idxs w' entry) = 0"
    and "pool_inv (idx_pool w')" and "avail (idx_pool w') = insert entry (avail (idx_pool w))"
    and "r < NR_LOG_SIZES \<Longrightarrow> pool_inv (log_pool w' r)"
    and "avail (log_pool w' r) = (if r = leaf_size w M off then insert (log (idxs w entry)) (avail (log_pool w r)) else avail (log_pool w r))"
    and "i < bpart w M off \<Longrightarrow> entry_view w entry (start (mmios w M) + boff w M off) i = bytes (mem w) (start (mmios w M) + boff w M off + i)"
    and "leaves_ok w' M" and "bravo w' = bravo w"
    and "find_log_table w' (radixlog (mmios w M)) x = find_log_table w (radixlog (mmios w M)) x"
    and "child w' q j \<noteq> None \<Longrightarrow> child w q j \<noteq> None"
  using assms unfolding removed_def by auto

lemma removed_eqs:
  assumes r: "removed M off entry w w'"
  shows "bsize w' M = bsize w M" "boff w' M = boff w M" "bpart w' M = bpart w M" "accessible (mem w') = accessible (mem w)"
    "mapped_len (mmios w' M) = mapped_len (mmios w M)" "map_ok LA w' M = map_ok LA w M"
proof -
  show b: "bsize w' M = bsize w M" by (intro ext) (simp add: bsize_def removedD(3) [OF r])
  show o: "boff w' M = boff w M" by (intro ext) (simp add: boff_def b)
  show m: "mapped_len (mmios w' M) = mapped_len (mmios w M)" by (simp add: removedD(5) [OF r])
  show "bpart w' M = bpart w M" by (intro ext) (simp add: bpart_def b o m)
  show a: "accessible (mem w') = accessible (mem w)" by (intro ext) (simp add: accessible_def removedD(4) [OF r])
  show "map_ok LA w' M = map_ok LA w M" by (simp add: map_ok_def Let_def a removedD(5) [OF r])
qed

lemma removed_left:
  assumes r: "removed M off entry w w'" and x: "x < mapped_len (mmios w M)" "entry_at w' M x = Some e"
  shows "entry_at w M x = Some e" and "e \<noteq> entry" and "idxs w' e = idxs w e" and "entry_fits LA w' M x e = entry_fits LA w M x e"
proof -
  show at: "entry_at w M x = Some e" and ne: "e \<noteq> entry" using removedD(2) [OF r x(1)] x(2) by (auto split: if_splits)
  show i: "idxs w' e = idxs w e" using removedD(6) [OF r ne] .
  show "entry_fits LA w' M x e = entry_fits LA w M x e"
    by (simp add: entry_fits_def entry_inv_def entry_ok_def Let_def removed_eqs [OF r] i removedD(3,5) [OF r])
qed

lemma removed_entries_ok:
  assumes r: "removed M off entry w w'" and e: "entries_ok LA w M"
  shows "entries_ok LA w' M"
proof -
  note l = removed_left [OF r] and eq = removed_eqs [OF r]
  have "entry_fits LA w' M x a" if "x < mapped_len (mmios w M)" "entry_at w' M x = Some a" for x a
    using l [OF that] e that(1) by (simp add: entries_ok_def)
  moreover have "if a = b then boff w' M x = boff w' M y else logs_disjoint w' a b"
    if x: "x < mapped_len (mmios w M)" "entry_at w' M x = Some a" and y: "y < mapped_len (mmios w M)" "entry_at w' M y = Some b" for x y a b
  proof -
    have "if a = b then boff w M x = boff w M y else logs_disjoint w a b"
      using e x(1) y(1) l(1) [OF x] l(1) [OF y] unfolding entries_ok_def by blast
    then show ?thesis using l(3) [OF x] l(3) [OF y] by (auto simp: logs_disjoint_def eq split: if_splits)
  qed
  ultimately show ?thesis unfolding entries_ok_def eq by blast
qed

lemma spares_okD:
  assumes "spares_ok LA w M"
  shows "e \<in> avail (idx_pool w) \<Longrightarrow> united (idxs w e) = 0"
    and "e \<in> avail (idx_pool w) \<Longrightarrow> x < mapped_len (mmios w M) \<Longrightarrow> entry_at w M x \<noteq> Some e"
    and "s < NR_LOG_SIZES \<Longrightarrow> a \<in> avail (log_pool w s) \<Longrightarrow> accessible (mem w) a (LOG_SIZE s) \<and> {a..<a + LOG_SIZE s} \<subseteq> LA"
    and "s < NR_LOG_SIZES \<Longrightarrow> a \<in> avail (log_pool w s) \<Longrightarrow> x < mapped_len (mmios w M) \<Longrightarrow> entry_at w M x = Some e \<Longrightarrow>
      disjoint_ranges (log (idxs w e)) (LOG_SIZE (log_size (idxs w e))) a (LOG_SIZE s)"
    and "s < NR_LOG_SIZES \<Longrightarrow> s' < NR_LOG_SIZES \<Longrightarrow> a \<in> avail (log_pool w s) \<Longrightarrow> a' \<in> avail (log_pool w s') \<Longrightarrow>
      (s, a) \<noteq> (s', a') \<Longrightarrow> disjoint_ranges a (LOG_SIZE s) a' (LOG_SIZE s')"
    and "pool_inv (idx_pool w)" and "s < NR_LOG_SIZES \<Longrightarrow> pool_inv (log_pool w s)"
  using assms unfolding spares_ok_def by blast+

lemma removed_spares_ok:
  assumes r: "removed M off entry w w'" and inv: "file_inv LA w M" and off: "off < mapped_len (mmios w M)"
  shows "spares_ok LA w' M"
proof -
  let ?N = "mapped_len (mmios w M)" and ?s = "leaf_size w M off" and ?l = "log (idxs w entry)"
  note d = removedD [OF r] and l = removed_left [OF r] and be = block_entry [OF inv off d(1)]
  have sp: "spares_ok LA w M" and eo: "entries_ok LA w M" using inv by (simp_all add: file_inv_def)
  have lg: "accessible (mem w) ?l (LOG_SIZE ?s)" "{?l..<?l + LOG_SIZE ?s} \<subseteq> LA"
    using be(2,3,4) by (auto simp: entry_fits_def entry_inv_def entry_ok_def Let_def bsize_def)
  have old: "disjoint_ranges ?l (LOG_SIZE ?s) a (LOG_SIZE q)" if "q < NR_LOG_SIZES" "a \<in> avail (log_pool w q)" for q a
    using spares_okD(4) [OF sp that off d(1)] be(3) by simp
  have used: "disjoint_ranges (log (idxs w e)) (LOG_SIZE (log_size (idxs w e))) ?l (LOG_SIZE ?s)"
    if "x < ?N" "entry_at w' M x = Some e" for x e
  proof -
    have "logs_disjoint w e entry" using eo off d(1) that(1) l(1,2) [OF that] unfolding entries_ok_def by (metis (no_types, lifting))
    then show ?thesis using be(3) by (simp add: logs_disjoint_def)
  qed
  have "united (idxs w' e) = 0 \<and> (\<forall>x < ?N. entry_at w' M x \<noteq> Some e)" if "e \<in> avail (idx_pool w')" for e
  proof (cases "e = entry")
    case False
    then have "e \<in> avail (idx_pool w)" using that by (simp add: d(9))
    then show ?thesis using spares_okD(1,2) [OF sp] d(6) [OF False] l(1) by metis
  qed (use d(7) l(2) in auto)
  moreover have "accessible (mem w) a (LOG_SIZE q) \<and> {a..<a + LOG_SIZE q} \<subseteq> LA \<and> (\<forall>x < ?N. \<forall>e. entry_at w' M x = Some e \<longrightarrow>
      disjoint_ranges (log (idxs w' e)) (LOG_SIZE (log_size (idxs w' e))) a (LOG_SIZE q))"
    if q: "q < NR_LOG_SIZES" "a \<in> avail (log_pool w' q)" for q a
  proof (cases "q = ?s \<and> a = ?l")
    case True
    then show ?thesis using lg used l(3) by auto
  next
    case False
    then have "a \<in> avail (log_pool w q)" using q(2) by (auto simp: d(11) split: if_splits)
    then show ?thesis using spares_okD(3,4) [OF sp q(1)] l(1,3) by metis
  qed
  moreover have "disjoint_ranges a (LOG_SIZE q) a' (LOG_SIZE q')"
    if q: "q < NR_LOG_SIZES" "q' < NR_LOG_SIZES" "a \<in> avail (log_pool w' q)" "a' \<in> avail (log_pool w' q')" "(q, a) \<noteq> (q', a')" for q q' a a'
  proof -
    have v: "b \<in> avail (log_pool w p) \<or> p = ?s \<and> b = ?l" if "b \<in> avail (log_pool w' p)" for p b using that by (auto simp: d(11) split: if_splits)
    show ?thesis
      using v [OF q(3)] v [OF q(4)] q old [of q a] old [of q' a'] spares_okD(5) [OF sp q(1,2) _ _ q(5)]
        disjoint_ranges_sym [of a "LOG_SIZE q" ?l "LOG_SIZE ?s"] by auto
  qed
  ultimately show ?thesis using d(8,10) unfolding spares_ok_def removed_eqs [OF r] by blast
qed

text \<open>The block's own bytes are its contents, so the file reads as before.\<close>

lemma removed_file:
  assumes r: "removed M off entry w w'" and inv: "file_inv LA w M" and off: "off < mapped_len (mmios w M)"
  shows "file_inv LA w' M" and "x < mapped_len (mmios w M) \<Longrightarrow> content w' M x = content w M x"
    and "unlocked_but (Some entry) w M \<Longrightarrow> unlocked_but None w' M"
proof -
  note d = removedD [OF r] and l = removed_left [OF r] and eq = removed_eqs [OF r]
  show "file_inv LA w' M"
    using inv removed_entries_ok [OF r] removed_spares_ok [OF r inv off] d(13) by (simp add: file_inv_def eq)
  show "unlocked_but None w' M" if "unlocked_but (Some entry) w M"
    using that l(1-3) unfolding unlocked_but_def eq by (metis option.inject)
  show "content w' M x = content w M x" if x: "x < mapped_len (mmios w M)"
  proof (cases "entry_at w M x = Some entry")
    case True
    note c = content_block [OF inv off d(1) x True]
    have "content w' M x = bytes (mem w) (start (mmios w M) + x)" using d(2) [OF x] True by (simp add: content_def d(4,5))
    then show ?thesis using c(1,3) d(12) [OF c(2)] by (simp add: add.assoc)
  next
    case False
    then have "entry_at w' M x = entry_at w M x" using d(2) [OF x] by simp
    moreover have "idxs w' e = idxs w e" if "entry_at w M x = Some e" for e using False that d(6) by auto
    ultimately show ?thesis by (simp add: content_def entry_view_def eq d(4,5) split: option.split)
  qed
qed

subsection \<open>Writing back one log\<close>

lemma copy_log_file:
  assumes E: "pmem_copies E" and inv: "file_inv LA w M" and off: "off < mapped_len (mmios w M)" and at: "entry_at w M off = Some entry"
  obtains w' where "(if e_policy (idxs w entry) = REDO then copy_log E entry w else Inr w) = Inr w'"
    and "file_inv LA w' M" and "same_index M w w'" and "mmios w' = mmios w" and "bravo w' = bravo w"
    and "\<And>x. x < mapped_len (mmios w M) \<Longrightarrow> content w' M x = content w M x"
    and "\<And>i. i < bpart w M off \<Longrightarrow> entry_view w' entry (start (mmios w M) + boff w M off) i =
           bytes (mem w') (start (mmios w M) + boff w M off + i)"
proof (cases "e_policy (idxs w entry) = REDO")
  case False
  then show thesis using inv that [of w] by (simp add: same_index_refl entry_view_def)
next
  case True
  let ?e = "idxs w entry" and ?b = "start (mmios w M) + boff w M off" and ?K = "bpart w M off"
  note ei = block_entry(4) [OF inv off at]
  have ok: "entry_ok w entry ?b ?K" and d: "e_len ?e = 0 \<or> dst ?e = ?b" and le: "e_offset ?e + e_len ?e \<le> ?K"
    and dj: "disjoint_ranges (log ?e) (LOG_SIZE (log_size ?e)) ?b ?K" and K: "?K \<le> LOG_SIZE (log_size ?e)"
    using ei True by (auto simp: entry_inv_def entry_ok_def Let_def)
  let ?w = "FENCE (stored (dst ?e + e_offset ?e) (log ?e + e_offset ?e) (e_len ?e) w)"
  have run: "copy_log E entry w = Inr ?w"
    using d entry_ok_accessible [OF ok le] by (auto simp: copy_log_def Let_def NTSTORE_Inr [OF E] stored_def)
  have s: "same_index M w ?w" "mmios ?w = mmios w" "bravo ?w = bravo w" by (simp_all add: same_index_def Let_def stored_def)
  have out: "bytes (mem ?w) a = bytes (mem w) a" if "a < ?b \<or> ?b + ?K \<le> a" for a
    using d le that by (auto simp: stored_def mcpy_def)
  have fb: "bytes (mem ?w) (?b + i) = entry_view w entry ?b i" if "i < ?K" for i
    using d True by (auto simp: stored_def entry_view_def redo_view_def mcpy_at in_range_def)
  have log: "bytes (mem ?w) (log ?e + i) = bytes (mem w) (log ?e + i)" if "i < ?K" for i
    using out [of "log ?e + i"] dj K that by (auto simp: disjoint_ranges_def)
  have v: "entry_view ?w entry ?b i = entry_view w entry ?b i" if "i < ?K" for i
    using fb [OF that] log [OF that] True by (auto simp: entry_view_def redo_view_def stored_def)
  have t: "touches_only entry ?b ?K w ?w" using out by (simp add: touches_only_def only_entry_def Let_def stored_def)
  have inv': "file_inv LA ?w M" using inv by (simp add: same_index_eqs [OF s(1)])
  have "content ?w M x = content w M x" if "x < mapped_len (mmios w M)" for x
    using touched_content [OF inv off at t inv', of 0] v that by (simp add: bsize_def)
  then show thesis using that [of ?w] True run inv' s v fb by simp
qed

subsection \<open>Freeing the entry\<close>

lemma free_slot_removed:
  assumes inv: "file_inv LA w M" and off: "off < mapped_len (mmios w M)" and at: "entry_at w M off = Some entry"
    and f: "find_log_table w (radixlog (mmios w M)) off = Some tb" and s: "s = tlog_size (tables w tb)"
    and v: "\<And>i. i < bpart w M off \<Longrightarrow> entry_view w entry (start (mmios w M) + boff w M off) i =
           bytes (mem w) (start (mmios w M) + boff w M off + i)"
  shows "\<exists>w'. free_idx_entry t entry s (set_table_entry tb (TABLE_INDEX s off) None w) = Inr w' \<and> removed M off entry w w'"
proof -
  let ?r = "radixlog (mmios w M)" and ?i = "TABLE_INDEX s off" and ?l = "log (idxs w entry)"
  let ?w1 = "set_table_entry tb ?i None w"
  note be = block_entry [OF inv off at]
  have ls: "leaf_size w M off = s" using f s by (simp add: leaf_size_def)
  have ok: "leaves_ok w M" and sp: "spares_ok LA w M" using inv by (simp_all add: file_inv_def)
  have sl: "s < NR_LOG_SIZES" using be(1) ls by simp
  have e: "entry \<notin> avail (idx_pool w)" using spares_okD(2) [OF sp _ off] at by blast
  have "?l \<notin> avail (log_pool w s)"
    using spares_okD(4) [OF sp sl _ off at, of ?l] LOG_SIZE_pos [of s] be(3) ls by (auto simp: disjoint_ranges_def)
  then obtain lp where lp: "PUSH_COLLECTOR t ?l (log_pool w s) = Inr lp" "pool_inv lp" "avail lp = insert ?l (avail (log_pool w s))"
    using PUSH_COLLECTOR_result [OF spares_okD(7) [OF sp sl]] by metis
  obtain ip where ip: "PUSH_COLLECTOR t entry (idx_pool w) = Inr ip" "pool_inv ip" "avail ip = insert entry (avail (idx_pool w))"
    using PUSH_COLLECTOR_result [OF spares_okD(6) [OF sp] e] by metis
  let ?w' = "(upd_entry entry (\<lambda>e. e\<lparr>log := 0, united := 0, dst := 0\<rparr>) (?w1\<lparr>log_pool := (log_pool w)(s := lp)\<rparr>))\<lparr>idx_pool := ip\<rparr>"
  have run: "free_idx_entry t entry s ?w1 = Inr ?w'"
    using lp(1) ip(1) by (simp add: free_idx_entry_eq free_log_data_def Let_def set_table_entry_def)
  have ri: "radix_inv w ?r" using ok by (simp add: leaves_ok_def Let_def)
  note slot = radix_set_slot [OF ri f, of ?i None]
  have tw: "tables ?w' = tables ?w1" "table_pool ?w' = table_pool ?w1" "mmios ?w' = mmios w" "mem ?w' = mem w" "bravo ?w' = bravo w"
    by (simp_all add: set_table_entry_def)
  have rx: "find_log_table ?w' ?r x = find_log_table w ?r x" "start_type ?w' ?r = start_type w ?r" "radix_inv ?w' ?r" for x
    using slot radix_cong [OF tw(1)] tw(2) by simp_all
  have sz: "tlog_size (tables ?w' q) = tlog_size (tables w q)" "child ?w' q j = (if q = tb \<and> j = ?i then None else child w q j)" for q j
    by (simp_all add: tw(1) child_def set_table_entry_def)
  have en: "entries (tables ?w' q) = (if q = tb then (entries (tables w q))(?i := None) else entries (tables w q))" for q
    by (simp add: tw(1) set_table_entry_def)
  have "leaves_ok ?w' M" using ok rx(3) unfolding leaves_ok_def Let_def tw(3) rx sz en by auto
  moreover have "leaf_size ?w' M = leaf_size w M" unfolding leaf_size_def tw(3) rx sz ..
  moreover have "entry_at ?w' M x = (if entry_at w M x = Some entry then None else entry_at w M x)" if x: "x < mapped_len (mmios w M)" for x
  proof -
    have "find_log_table w ?r x = Some tb \<and> TABLE_INDEX s x = ?i \<longleftrightarrow> entry_at w M x = Some entry"
      unfolding same_block_entry(1) [OF inv off at x] using same_leaf_chunk [OF ok off x f] index_block [OF sl, of off x] ls
      by (simp only: bsize_def eq_commute)
    then show ?thesis using s sl unfolding entry_at_def tw(3) rx sz by (auto split: option.splits)
  qed
  moreover have "idxs ?w' = (idxs w)(entry := (idxs w entry)\<lparr>log := 0, united := 0, dst := 0\<rparr>)" "idx_pool ?w' = ip"
    "log_pool ?w' = (log_pool w)(s := lp)" by (simp_all add: set_table_entry_def)
  ultimately have "removed M off entry w ?w'"
    using at v ip lp spares_okD(7) [OF sp] ls tw(3-5) rx(1) unfolding removed_def sz(2) by simp
  with run show ?thesis by blast
qed

subsection \<open>The blocks of one table\<close>

definition fresh :: "nat \<Rightarrow> world \<Rightarrow> ptr \<Rightarrow> nat \<Rightarrow> bool" where
  "fresh ep w M x \<longleftrightarrow> (case entry_at w M x of None \<Rightarrow> True | Some e \<Rightarrow> ep \<le> e_epoch (idxs w e))"

text \<open>
  Some of the logs older than \<open>ep\<close> are gone, every other log is as it was, and the file
  reads as before; of the file's record only the lock may have changed.
\<close>

definition drained :: "nat \<Rightarrow> addr set \<Rightarrow> ptr \<Rightarrow> world \<Rightarrow> world \<Rightarrow> bool" where
  "drained ep LA M w w' \<longleftrightarrow>
     file_inv LA w' M \<and> unlocked_but None w' M \<and> leaf_size w' M = leaf_size w M \<and>
     (\<forall>x. find_log_table w' (radixlog (mmios w M)) x = find_log_table w (radixlog (mmios w M)) x) \<and>
     (\<forall>q j. child w' q j \<noteq> None \<longrightarrow> child w q j \<noteq> None) \<and>
     (mmios w' M)\<lparr>rwlock := rwlock (mmios w M)\<rparr> = mmios w M \<and>
     (\<forall>x < mapped_len (mmios w M). content w' M x = content w M x \<and>
        (entry_at w' M x = entry_at w M x \<and> (\<forall>e. entry_at w M x = Some e \<longrightarrow> idxs w' e = idxs w e) \<or>
         entry_at w' M x = None \<and> \<not> fresh ep w M x))"

lemma drained_fields:
  assumes "drained ep LA M w w'"
  shows "mapped_len (mmios w' M) = mapped_len (mmios w M)" "radixlog (mmios w' M) = radixlog (mmios w M)"
    "start (mmios w' M) = start (mmios w M)" "leaf_size w' M = leaf_size w M" "file_inv LA w' M" "unlocked_but None w' M"
    "find_log_table w' (radixlog (mmios w M)) x = find_log_table w (radixlog (mmios w M)) x"
    "epoch (mmios w' M) = epoch (mmios w M)" "child w' q j \<noteq> None \<Longrightarrow> child w q j \<noteq> None"
proof -
  have r: "(mmios w' M)\<lparr>rwlock := rwlock (mmios w M)\<rparr> = mmios w M" using assms by (simp add: drained_def)
  show "mapped_len (mmios w' M) = mapped_len (mmios w M)" using arg_cong [OF r, of mapped_len] by simp
  show "radixlog (mmios w' M) = radixlog (mmios w M)" using arg_cong [OF r, of radixlog] by simp
  show "start (mmios w' M) = start (mmios w M)" using arg_cong [OF r, of start] by simp
  show "epoch (mmios w' M) = epoch (mmios w M)" using arg_cong [OF r, of epoch] by simp
qed (use assms in \<open>auto simp: drained_def\<close>)

lemma drained_refl: "file_inv LA w M \<Longrightarrow> unlocked_but None w M \<Longrightarrow> drained ep LA M w w"
  by (simp add: drained_def)

lemma drained_trans:
  assumes a: "drained ep LA M w w1" and b: "drained ep LA M w1 w2"
  shows "drained ep LA M w w2"
proof -
  note f = drained_fields [OF a] and g = drained_fields [OF b]
  have "(mmios w2 M)\<lparr>rwlock := rwlock (mmios w M)\<rparr> =
      ((mmios w2 M)\<lparr>rwlock := rwlock (mmios w1 M)\<rparr>)\<lparr>rwlock := rwlock (mmios w M)\<rparr>" by simp
  also have "\<dots> = mmios w M" using a b by (simp only: drained_def)
  finally have "(mmios w2 M)\<lparr>rwlock := rwlock (mmios w M)\<rparr> = mmios w M" .
  moreover have "content w2 M x = content w M x \<and>
        (entry_at w2 M x = entry_at w M x \<and> (\<forall>e. entry_at w M x = Some e \<longrightarrow> idxs w2 e = idxs w e) \<or>
         entry_at w2 M x = None \<and> \<not> fresh ep w M x)" if "x < mapped_len (mmios w M)" for x
  proof -
    have "content w1 M x = content w M x" "content w2 M x = content w1 M x"
      and 1: "entry_at w1 M x = entry_at w M x \<and> (\<forall>e. entry_at w M x = Some e \<longrightarrow> idxs w1 e = idxs w e) \<or>
         entry_at w1 M x = None \<and> \<not> fresh ep w M x"
      and 2: "entry_at w2 M x = entry_at w1 M x \<and> (\<forall>e. entry_at w1 M x = Some e \<longrightarrow> idxs w2 e = idxs w1 e) \<or>
         entry_at w2 M x = None \<and> \<not> fresh ep w1 M x"
      using a b that unfolding drained_def f(1) by blast+
    with 1 2 show ?thesis by (auto simp: fresh_def split: option.splits)
  qed
  moreover have "child w2 q j \<noteq> None \<longrightarrow> child w q j \<noteq> None" for q j using f(9) g(9) by blast
  ultimately show ?thesis unfolding drained_def using f(2,4,7) g(4-7) by simp
qed

lemma drained_fresh: "drained ep LA M w w' \<Longrightarrow> x < mapped_len (mmios w M) \<Longrightarrow> fresh ep w M x \<Longrightarrow> fresh ep w' M x"
  by (auto simp: drained_def fresh_def split: option.splits)

lemma removed_drained:
  assumes inv: "file_inv LA w M" and off: "off < mapped_len (mmios w M)" and r: "removed M off entry w1 w'"
    and w1: "agree M w w1" "mmios w1 = mmios w"  "leaves_ok w1 M" and u: "unlocked_but (Some entry) w1 M"
    and c: "\<And>x. x < mapped_len (mmios w M) \<Longrightarrow> content w1 M x = content w M x"
    and l: "\<And>e. e \<noteq> entry \<Longrightarrow> idxs w1 e = idxs w e" "tables w1 = tables w" and ep: "e_epoch (idxs w entry) < ep"
  shows "drained ep LA M w w'"
proof -
  note d = removedD [OF r]
  have inv1: "file_inv LA w1 M" by (rule file_inv_agree [OF inv w1(1,3)])
  have off1: "off < mapped_len (mmios w1 M)" using off w1(2) by simp
  note rf = removed_file [OF r inv1 off1]
  have e: "entry_at w1 M = entry_at w M" using w1(1) by (simp add: agree_def Let_def)
  have ls: "leaf_size w1 M = leaf_size w M" by (simp add: leaf_size_def radix_cong [OF l(2)] l(2) w1(2) fun_eq_iff split: option.split)
  have "entry_at w' M x = entry_at w M x \<and> (\<forall>e. entry_at w M x = Some e \<longrightarrow> idxs w' e = idxs w e) \<or>
         entry_at w' M x = None \<and> \<not> fresh ep w M x" if "x < mapped_len (mmios w M)" for x
    using d(2) [of x] d(6) l(1) that ep by (auto simp: e w1(2) fresh_def)
  moreover have "content w' M x = content w M x" if "x < mapped_len (mmios w M)" for x
    using rf(2) [of x] c that by (simp add: w1(2))
  moreover have "(mmios w' M)\<lparr>rwlock := rwlock (mmios w M)\<rparr> = mmios w M" using d(5) w1(2) by simp
  ultimately show ?thesis using rf(1) rf(3) [OF u] d(3,5,15,16) unfolding drained_def by (simp add: w1(2) ls radix_cong [OF l(2)] child_def l(2))
qed

text \<open>
  No slot that lies beyond the mapping is in use; the slots of the last leaf may reach beyond
  a mapping that is not a whole number of leaves.
\<close>

definition slots_mapped :: "world \<Rightarrow> ptr \<Rightarrow> bool" where
  "slots_mapped w M \<longleftrightarrow>
     (\<forall>off < mapped_len (mmios w M). \<forall>tb i. find_log_table w (radixlog (mmios w M)) off = Some tb \<and>
        i < NR_ENTRIES (tlog_size (tables w tb)) \<and> child w tb i \<noteq> None \<longrightarrow>
        off - off mod 2 ^ 21 + i * LOG_SIZE (tlog_size (tables w tb)) < mapped_len (mmios w M))"

lemma slot_offset:
  fixes off :: nat
  assumes off: "2 ^ 21 dvd off" and s: "s < NR_LOG_SIZES" and i: "i < NR_ENTRIES s"
  shows "(off + i * LOG_SIZE s) div 2 ^ 21 = off div 2 ^ 21" and "TABLE_INDEX s (off + i * LOG_SIZE s) = i"
proof -
  let ?d = "i * LOG_SIZE s"
  have "?d < NR_ENTRIES s * LOG_SIZE s" using i by simp
  then have d: "?d < 2 ^ 21" using NR_ENTRIES_LOG_SIZE [OF s] by simp
  obtain k where k: "off = 2 ^ 21 * k" using off unfolding dvd_def by blast
  show "(off + ?d) div 2 ^ 21 = off div 2 ^ 21" using d k by simp
  have "(off + ?d) mod 2 ^ 21 = ?d" using d k by simp
  then show "TABLE_INDEX s (off + ?d) = i" by (simp add: TABLE_INDEX_eq [OF s])
qed

lemma child_entry_at:
  assumes "leaves_ok w M" and "off < mapped_len (mmios w M)" and "x < mapped_len (mmios w M)"
    and "find_log_table w (radixlog (mmios w M)) off = Some tb" and "tlog_size (tables w tb) < NR_LOG_SIZES"
    and "off div 2 ^ 21 = x div 2 ^ 21"
  shows "entry_at w M x = child w tb (TABLE_INDEX (tlog_size (tables w tb)) x)" and "find_log_table w (radixlog (mmios w M)) x = Some tb"
proof -
  show "find_log_table w (radixlog (mmios w M)) x = Some tb" using same_leaf_chunk [OF assms(1-4)] assms(6) by simp
  then show "entry_at w M x = child w tb (TABLE_INDEX (tlog_size (tables w tb)) x)" using assms(5) by (simp add: entry_at_def)
qed

lemma same_index_agree:
  assumes "same_index M w w'" shows "agree M w w'"
  using assms same_index_eqs(1,2) [OF assms] by (simp add: agree_def same_index_def Let_def)

lemma drop_entry:
  fixes l
  assumes E: "pmem_copies E" and inv: "file_inv LA w M" and u: "unlocked_but None w M" and off: "off < mapped_len (mmios w M)"
    and at: "entry_at w M off = Some entry" and ep: "e_epoch (idxs w entry) < ep"
    and f: "find_log_table w (radixlog (mmios w M)) off = Some tb" and s: "s = tlog_size (tables w tb)"
  defines "w1 \<equiv> upd_entry entry (\<lambda>e. e\<lparr>rwlockp := l\<rparr>) w"
  shows "\<exists>w'. bindE (if e_policy (idxs w1 entry) = REDO then copy_log E entry w1 else Inr w1) (\<lambda>w2.
       free_idx_entry t entry s (set_table_entry tb (TABLE_INDEX s off) None w2)) = Inr w' \<and>
     drained ep LA M w w' \<and> mmios w' = mmios w \<and> bravo w' = bravo w \<and>
     (\<forall>x < mapped_len (mmios w M). entry_at w M x = Some entry \<longrightarrow> entry_at w' M x = None)"
proof -
  have a: "agree M w w1" unfolding w1_def by (rule agree_lock)
  have inv1: "file_inv LA w1 M" using inv a by (intro file_inv_agree [OF inv a]) (simp add: w1_def file_inv_def)
  have m1: "mmios w1 = mmios w" "tables w1 = tables w" "bravo w1 = bravo w" "entry_at w1 M off = Some entry"
    using at by (simp_all add: w1_def)
  obtain w2 where w2: "(if e_policy (idxs w1 entry) = REDO then copy_log E entry w1 else Inr w1) = Inr w2"
    and i2: "file_inv LA w2 M" "same_index M w1 w2" "mmios w2 = mmios w1" "bravo w2 = bravo w1"
    and c: "\<And>x. x < mapped_len (mmios w1 M) \<Longrightarrow> content w2 M x = content w1 M x"
    and v: "\<And>i. i < bpart w1 M off \<Longrightarrow> entry_view w2 entry (start (mmios w1 M) + boff w1 M off) i =
           bytes (mem w2) (start (mmios w1 M) + boff w1 M off + i)"
    using copy_log_file [OF E inv1 _ m1(4)] off m1(1) by metis
  note eq = same_index_eqs [OF i2(2)]
  have t2: "tables w2 = tables w" using i2(2) m1(2) by (simp add: same_index_def Let_def)
  have b2: "boff w2 M off = boff w1 M off" "bpart w2 M off = bpart w1 M off" by (simp_all add: boff_def bpart_def eq)
  have "\<exists>w'. free_idx_entry t entry s (set_table_entry tb (TABLE_INDEX s off) None w2) = Inr w' \<and> removed M off entry w2 w'"
  proof (rule free_slot_removed [OF i2(1)])
    show "off < mapped_len (mmios w2 M)" "entry_at w2 M off = Some entry" using off m1 by (simp_all only: eq(1,4))
    show "find_log_table w2 (radixlog (mmios w2 M)) off = Some tb" "s = tlog_size (tables w2 tb)"
      using f s by (simp_all only: radix_cong [OF t2] t2 i2(3) m1(1))
    show "entry_view w2 entry (start (mmios w2 M) + boff w2 M off) i = bytes (mem w2) (start (mmios w2 M) + boff w2 M off + i)"
      if "i < bpart w2 M off" for i using v that by (simp only: b2 i2(3))
  qed
  then obtain w' where r: "free_idx_entry t entry s (set_table_entry tb (TABLE_INDEX s off) None w2) = Inr w'" "removed M off entry w2 w'"
    by blast
  note d = removedD [OF r(2)]
  have a2: "agree M w w2" by (rule agree_trans [OF a same_index_agree [OF i2(2)]])
  have c2: "content w2 M x = content w M x" if "x < mapped_len (mmios w M)" for x
    using c [of x] agree_content [OF a] that by (simp add: m1(1) w1_def)
  have "unlocked_but (Some entry) w2 M" using u by (simp add: eq unlocked_but_def w1_def)
  moreover have "leaves_ok w2 M" using i2(1) by (simp add: file_inv_def)
  ultimately have "drained ep LA M w w'"
    using off by (intro removed_drained [OF inv off r(2) a2 _ _ _ c2 _ t2 ep]) (simp_all add: i2(3) m1(1) eq w1_def)
  moreover have "mmios w' = mmios w" "bravo w' = bravo w" using d(5,14) i2(3,4) m1 by simp_all
  moreover have "entry_at w' M x = None" if "x < mapped_len (mmios w M)" "entry_at w M x = Some entry" for x
    using d(2) [of x] that by (simp add: i2(3) m1(1) eq w1_def)
  ultimately show ?thesis using w2 r(1) by simp
qed

text \<open>What the loop over the slots of the leaf of \<open>off\<close> has done once it has passed the slots \<open>I\<close>.\<close>

definition slots_done :: "nat \<Rightarrow> addr set \<Rightarrow> ptr \<Rightarrow> nat \<Rightarrow> log_size_t \<Rightarrow> nat set \<Rightarrow> world \<Rightarrow> world \<Rightarrow> bool" where
  "slots_done ep LA M off s I w w' \<longleftrightarrow>
     drained ep LA M w w' \<and> mmios w' = mmios w \<and> bravo w' = bravo w \<and>
     (\<forall>x < mapped_len (mmios w M). x div 2 ^ 21 = off div 2 ^ 21 \<and> TABLE_INDEX s x \<in> I \<longrightarrow> fresh ep w' M x)"

lemma checkpoint_slot_done:
  assumes E: "pmem_copies E" and inv: "file_inv LA w M" and u: "unlocked_but None w M" and sm: "slots_mapped w M"
    and off: "2 ^ 21 dvd off" "off < mapped_len (mmios w M)"
    and f: "find_log_table w (radixlog (mmios w M)) off = Some tb" and s: "tlog_size (tables w tb) = s" "s < NR_LOG_SIZES"
    and i: "i < NR_ENTRIES s"
  shows "\<exists>w'. checkpoint_slot E t ep tb s i w = Inr w' \<and> slots_done ep LA M off s {i} w w'"
proof -
  let ?x = "off + i * LOG_SIZE s"
  note o = slot_offset [OF off(1) s(2) i]
  have lv: "leaves_ok w M" using inv by (simp add: file_inv_def)
  have at: "entry_at w M x = child w tb (TABLE_INDEX s x)" "find_log_table w (radixlog (mmios w M)) x = Some tb"
    if "x < mapped_len (mmios w M)" "x div 2 ^ 21 = off div 2 ^ 21" for x
    using child_entry_at [OF lv off(2) that(1) f] s that(2) by simp_all
  show ?thesis
  proof (cases "\<exists>entry. child w tb i = Some entry \<and> e_epoch (idxs w entry) < ep")
    case False
    then have "checkpoint_slot E t ep tb s i w = Inr w" by (auto simp: checkpoint_slot_def split: option.splits)
    moreover have "fresh ep w M x" if "x < mapped_len (mmios w M)" "x div 2 ^ 21 = off div 2 ^ 21" "TABLE_INDEX s x = i" for x
      using False at(1) [OF that(1,2)] that(3) by (auto simp: fresh_def not_less split: option.splits)
    ultimately show ?thesis using drained_refl [OF inv u] by (auto simp: slots_done_def)
  next
    case True
    then obtain entry where c: "child w tb i = Some entry" and ep: "e_epoch (idxs w entry) < ep" by blast
    have "off mod 2 ^ 21 = 0" using off(1) by simp
    moreover have "off - off mod 2 ^ 21 + i * LOG_SIZE s < mapped_len (mmios w M)"
      using sm off(2) f i c s(1) unfolding slots_mapped_def by blast
    ultimately have xl: "?x < mapped_len (mmios w M)" by simp
    note ax = at [OF xl o(1)]
    have e: "entry_at w M ?x = Some entry" using ax(1) c o(2) by simp
    then have "rwlockp (idxs w entry) = RWLOCK_INIT" using u xl by (simp add: unlocked_but_def)
    then obtain l where l: "RWLOCK_WRITE_TRYLOCK (rwlockp (idxs w entry)) = Some l" by (simp add: rwlock_defs)
    obtain w' where w': "bindE (if e_policy (idxs (upd_entry entry (\<lambda>e. e\<lparr>rwlockp := l\<rparr>) w) entry) = REDO
          then copy_log E entry (upd_entry entry (\<lambda>e. e\<lparr>rwlockp := l\<rparr>) w) else Inr (upd_entry entry (\<lambda>e. e\<lparr>rwlockp := l\<rparr>) w)) (\<lambda>w2.
          free_idx_entry t entry s (set_table_entry tb (TABLE_INDEX s ?x) None w2)) = Inr w'"
      and d: "drained ep LA M w w'" "mmios w' = mmios w" "bravo w' = bravo w"
        "\<And>x. x < mapped_len (mmios w M) \<Longrightarrow> entry_at w M x = Some entry \<Longrightarrow> entry_at w' M x = None"
      using drop_entry [OF E inv u xl e ep ax(2) s(1) [symmetric], of l t] by blast
    have "checkpoint_slot E t ep tb s i w = Inr w'"
      using w' c ep l unfolding o(2) by (simp add: checkpoint_slot_def Let_def agree_fields(1) [OF agree_lock])
    moreover have "fresh ep w' M x" if "x < mapped_len (mmios w M)" "x div 2 ^ 21 = off div 2 ^ 21" "TABLE_INDEX s x = i" for x
      using d(4) [OF that(1)] at(1) [OF that(1,2)] that(3) c by (simp add: fresh_def)
    ultimately show ?thesis using d by (auto simp: slots_done_def)
  qed
qed

lemma slots_done_trans:
  assumes "slots_done ep LA M off s I w w1" and "slots_done ep LA M off s J w1 w2"
  shows "slots_done ep LA M off s (I \<union> J) w w2"
  using assms drained_trans [of ep LA M w w1 w2] drained_fresh [of ep LA M w1 w2] by (auto simp: slots_done_def)

lemma drained_mapped:
  assumes "drained ep LA M w w'" and "slots_mapped w M"
  shows "slots_mapped w' M"
proof -
  note f = drained_fields [OF assms(1)]
  have "tlog_size (tables w' tb) = tlog_size (tables w tb)" if "find_log_table w (radixlog (mmios w M)) off = Some tb" for off tb
    using fun_cong [OF f(4), of off] that by (simp add: leaf_size_def f(2,7))
  then show ?thesis using assms(2) f(9) unfolding slots_mapped_def f(1,2,7) by metis
qed

lemma checkpoint_slots_done:
  assumes "pmem_copies E" and "2 ^ 21 dvd off" and "set is \<subseteq> {..<NR_ENTRIES s}" and "s < NR_LOG_SIZES"
  shows "file_inv LA w M \<Longrightarrow> unlocked_but None w M \<Longrightarrow> slots_mapped w M \<Longrightarrow> off < mapped_len (mmios w M) \<Longrightarrow>
    find_log_table w (radixlog (mmios w M)) off = Some tb \<Longrightarrow> tlog_size (tables w tb) = s \<Longrightarrow>
    \<exists>w'. foldE (checkpoint_slot E t ep tb s) is w = Inr w' \<and> slots_done ep LA M off s (set is) w w'"
  using assms(3)
proof (induction "is" arbitrary: w)
  case Nil
  then show ?case using drained_refl by (simp add: slots_done_def)
next
  case (Cons i "is")
  obtain w1 where w1: "checkpoint_slot E t ep tb s i w = Inr w1" "slots_done ep LA M off s {i} w w1"
    using checkpoint_slot_done [OF assms(1) Cons.prems(1-3) assms(2) Cons.prems(4-6) assms(4), of i t ep] Cons.prems(7) by auto
  have dr: "drained ep LA M w w1" and m: "mmios w1 = mmios w" using w1(2) by (simp_all add: slots_done_def)
  note d = drained_fields [OF dr]
  have "tlog_size (tables w1 tb) = s" using fun_cong [OF d(4), of off] Cons.prems(5,6) d(7) by (simp add: leaf_size_def m)
  then obtain w2 where "foldE (checkpoint_slot E t ep tb s) is w1 = Inr w2" "slots_done ep LA M off s (set is) w1 w2"
    using Cons.IH [of w1] Cons.prems d(5-7) drained_mapped [OF dr] by (auto simp: m)
  then show ?case using w1 slots_done_trans [OF w1(2)] by (auto simp: insert_is_Un [of i "set is"] simp del: Un_insert_left)
qed

subsection \<open>One round of the outer loop\<close>

lemma read_trylock_idle:
  assumes "lock_idle t M w"
  obtains b st where "bravo_read_trylock t M (rwlock (mmios w M)) (bravo w) = (True, b, st)"
    and "read_held t M (upd_mmio M (\<lambda>m. m\<lparr>rwlock := b\<rparr>) (w\<lparr>bravo := st\<rparr>))"
proof -
  have i: "visible_readers (bravo w) (bravo_hash t M) = None" "\<not> writer (underlying (rwlock (mmios w M)))"
    using assms by (simp_all add: lock_idle_def)
  show thesis
  proof (cases "rbias (rwlock (mmios w M))")
    case True
    show thesis using True i
        that [of "rwlock (mmios w M)" "(bravo w)\<lparr>visible_readers := (visible_readers (bravo w))(bravo_hash t M := Some M)\<rparr>"]
      by (simp add: bravo_read_trylock_def read_held_def bravo_read_unlock_def)
  next
    case False
    obtain u where u: "RWLOCK_READ_TRYLOCK (underlying (rwlock (mmios w M))) = Some u" using i(2) by (simp add: rwlock_defs)
    obtain b st where b: "rebias ((rwlock (mmios w M))\<lparr>underlying := u\<rparr>) (bravo w) = (b, st)" by fastforce
    have "visible_readers st = visible_readers (bravo w)" "underlying b = u"
      using b by (auto simp: rebias_def clock_gettime_def Let_def split: if_splits prod.splits)
    moreover have "0 < readers u" "\<not> writer u" using u i(2) by (auto simp: rwlock_defs)
    ultimately have "read_held t M (upd_mmio M (\<lambda>m. m\<lparr>rwlock := b\<rparr>) (w\<lparr>bravo := st\<rparr>))"
      using i by (simp add: read_held_def bravo_read_unlock_def RWLOCK_UNLOCK_def)
    then show thesis using that False u b by (simp add: bravo_read_trylock_def)
  qed
qed

text \<open>No leaf of the file still waits for its log size.\<close>

definition leaves_sized :: "world \<Rightarrow> ptr \<Rightarrow> bool" where
  "leaves_sized w M \<longleftrightarrow>
     (\<forall>x < mapped_len (mmios w M). find_log_table w (radixlog (mmios w M)) x \<noteq> None \<longrightarrow> leaf_size w M x < NR_LOG_SIZES)"

lemma drained_sized: "drained ep LA M w w' \<Longrightarrow> leaves_sized w' M = leaves_sized w M"
  by (simp add: leaves_sized_def drained_fields)

lemma relocked_drained:
  assumes r: "relocked M w w'" and inv: "file_inv LA w M" "unlocked_but None w M"
  shows "drained ep LA M w w'"
proof -
  note s = relocked_world [OF r]
  note eq = same_index_eqs [OF s(1)]
  have tb: "tables w' = tables w" using s(1) by (simp add: same_index_def Let_def)
  note rx = radix_cong [OF tb]
  show ?thesis using inv s(2) s(4) [of "rwlock (mmios w M)"] by (simp add: drained_def eq rx child_def tb)
qed

lemma checkpoint_chunk_drained:
  assumes E: "pmem_copies E" and rd: "ready LA t w M" and sz: "leaves_sized w M"
    and sm: "slots_mapped w M" and off: "2 ^ 21 dvd off" "off < mapped_len (mmios w M)"
  shows "\<exists>w'. checkpoint_chunk E t M ep off w = Inr (2 ^ 21, w') \<and> drained ep LA M w w' \<and> lock_idle t M w' \<and>
    (\<forall>x < mapped_len (mmios w M). x div 2 ^ 21 = off div 2 ^ 21 \<longrightarrow> fresh ep w' M x)"
proof -
  have inv: "file_inv LA w M" "unlocked_but None w M" "lock_idle t M w" using rd by (simp_all add: ready_def)
  obtain b st where lk: "bravo_read_trylock t M (rwlock (mmios w M)) (bravo w) = (True, b, st)"
    and h: "read_held t M (upd_mmio M (\<lambda>m. m\<lparr>rwlock := b\<rparr>) (w\<lparr>bravo := st\<rparr>))" by (rule read_trylock_idle [OF inv(3)])
  define w1 where "w1 = upd_mmio M (\<lambda>m. m\<lparr>rwlock := b\<rparr>) (w\<lparr>bravo := st\<rparr>)"
  have r1: "relocked M w w1" by (auto simp: relocked_def w1_def)
  have d1: "drained ep LA M w w1" by (rule relocked_drained [OF r1 inv(1,2)])
  note f = drained_fields [OF d1]
  have run: "checkpoint_chunk E t M ep off w =
     (case find_log_table w1 (radixlog (mmios w1 M)) off of
        None \<Rightarrow> bindE (mm_read_unlock t M w1) (\<lambda>w2. Inr (NR_ENTRIES LOG_4K * LOG_SIZE LOG_4K, w2))
      | Some tb \<Rightarrow> bindE (checkpoint_table E t ep tb w1) (\<lambda>w2. bindE (mm_read_unlock t M w2)
          (\<lambda>w3. Inr (NR_ENTRIES (tlog_size (tables w1 tb)) * LOG_SIZE (tlog_size (tables w1 tb)), w3))))"
    by (simp only: checkpoint_chunk_def lk w1_def Let_def prod.case bool.case)
  have lv: "leaves_ok w M" using inv(1) by (simp add: file_inv_def)
  have NR: "NR_ENTRIES LOG_4K * LOG_SIZE LOG_4K = 2 ^ 21" by (rule NR_ENTRIES_LOG_SIZE) (simp add: LOG_4K_def NR_LOG_SIZES_def)
  show ?thesis
  proof (cases "find_log_table w1 (radixlog (mmios w1 M)) off")
    case None
    obtain w2 where w2: "mm_read_unlock t M w1 = Inr w2" "relocked M w1 w2" "lock_idle t M w2"
      using mm_read_unlock_held [OF h] unfolding w1_def by blast
    have d: "drained ep LA M w w2" by (rule drained_trans [OF d1 relocked_drained [OF w2(2) f(5,6)]])
    have fw: "find_log_table w (radixlog (mmios w M)) off = None" using None f(2,7) by simp
    have "fresh ep w M x" if "x < mapped_len (mmios w M)" "x div 2 ^ 21 = off div 2 ^ 21" for x
      using same_leaf_chunk [OF lv that(1) off(2)] fw that(2) by (auto simp: fresh_def entry_at_def split: option.splits)
    then have "fresh ep w2 M x" if "x < mapped_len (mmios w M)" "x div 2 ^ 21 = off div 2 ^ 21" for x using drained_fresh [OF d] that by blast
    moreover have "checkpoint_chunk E t M ep off w = Inr (2 ^ 21, w2)"
      unfolding run using w2(1) None NR by simp
    ultimately show ?thesis using d w2(3) by blast
  next
    case (Some tb)
    define s where "s = tlog_size (tables w1 tb)"
    have "find_log_table w (radixlog (mmios w M)) off = Some tb" using Some f(2,7) by simp
    then have "leaf_size w M off < NR_LOG_SIZES" using sz off(2) unfolding leaves_sized_def by blast
    moreover have "leaf_size w M off = s" using fun_cong [OF f(4), of off] Some by (simp add: leaf_size_def s_def)
    ultimately have s: "s < NR_LOG_SIZES" by simp
    have all: "set [0..<NR_ENTRIES s] \<subseteq> {..<NR_ENTRIES s}" by auto
    obtain w2 where w2: "foldE (checkpoint_slot E t ep tb s) [0..<NR_ENTRIES s] w1 = Inr w2"
      "slots_done ep LA M off s (set [0..<NR_ENTRIES s]) w1 w2"
      using checkpoint_slots_done [OF E off(1) all s f(5,6) drained_mapped [OF d1 sm] _ Some s_def [symmetric], of t ep] off(2) f(1) by auto
    have d2: "drained ep LA M w1 w2" "mmios w2 = mmios w1" "bravo w2 = bravo w1" using w2(2) by (simp_all add: slots_done_def)
    have "read_held t M w2" using h read_held_cong [OF d2(3)] d2(2) unfolding w1_def by metis
    then obtain w3 where w3: "mm_read_unlock t M w2 = Inr w3" "relocked M w2 w3" "lock_idle t M w3" by (rule mm_read_unlock_held)
    have d3: "drained ep LA M w2 w3" by (rule relocked_drained [OF w3(2) drained_fields(5,6) [OF d2(1)]])
    have "fresh ep w2 M x" if "x < mapped_len (mmios w M)" "x div 2 ^ 21 = off div 2 ^ 21" for x
      using w2(2) that TABLE_INDEX_less [OF s] f(1) by (simp add: slots_done_def)
    then have "fresh ep w3 M x" if "x < mapped_len (mmios w M)" "x div 2 ^ 21 = off div 2 ^ 21" for x
      using drained_fresh [OF d3] that drained_fields(1) [OF d2(1)] f(1) by simp
    moreover have "checkpoint_chunk E t M ep off w = Inr (2 ^ 21, w3)"
      unfolding run using Some w2(1) w3(1) s NR_ENTRIES_LOG_SIZE [OF s] nr_entries_defined_iff [of s]
      by (simp add: checkpoint_table_def Let_def s_def [symmetric])
    ultimately show ?thesis using drained_trans [OF d1 drained_trans [OF d2(1) d3]] w3(3) by blast
  qed
qed

subsection \<open>The whole file\<close>

lemma drained_ready:
  "drained ep LA M w w' \<Longrightarrow> lock_idle t M w' \<Longrightarrow> ready LA t w' M"
  by (simp add: ready_def drained_fields)

lemma checkpoint_loop_drained:
  assumes "pmem_copies E"
  shows "ready LA t w M \<Longrightarrow> leaves_sized w M \<Longrightarrow> slots_mapped w M \<Longrightarrow> mapped_len (mmios w M) = N \<Longrightarrow> N \<le> (j + fuel) * 2 ^ 21 \<Longrightarrow>
    \<exists>w'. checkpoint_loop fuel E t M ep N (j * 2 ^ 21) w = Inr w' \<and> drained ep LA M w w' \<and> lock_idle t M w' \<and>
      (\<forall>x < mapped_len (mmios w M). j * 2 ^ 21 \<le> x \<longrightarrow> fresh ep w' M x)"
proof (induction fuel arbitrary: j w)
  case 0
  then show ?case using drained_refl by (auto simp: ready_def)
next
  case (Suc fuel)
  show ?case
  proof (cases "j * 2 ^ 21 < N")
    case False
    then show ?thesis using Suc.prems(1,4) drained_refl by (auto simp: ready_def)
  next
    case True
    have off: "j * 2 ^ 21 < mapped_len (mmios w M)" "2 ^ 21 dvd j * 2 ^ 21"
      using True Suc.prems(4) by simp_all
    obtain w1 where w1: "checkpoint_chunk E t M ep (j * 2 ^ 21) w = Inr (2 ^ 21, w1)" "drained ep LA M w w1" "lock_idle t M w1"
      and f1: "\<And>x. x < mapped_len (mmios w M) \<Longrightarrow> x div 2 ^ 21 = j * 2 ^ 21 div 2 ^ 21 \<Longrightarrow> fresh ep w1 M x"
      using checkpoint_chunk_drained [OF assms Suc.prems(1-3) off(2,1)] by blast
    note d = drained_fields [OF w1(2)]
    obtain w2 where w2: "checkpoint_loop fuel E t M ep N (Suc j * 2 ^ 21) w1 = Inr w2" "drained ep LA M w1 w2" "lock_idle t M w2"
      and f2: "\<And>x. x < mapped_len (mmios w M) \<Longrightarrow> Suc j * 2 ^ 21 \<le> x \<Longrightarrow> fresh ep w2 M x"
      using Suc.IH [OF drained_ready [OF w1(2,3)], of "Suc j"] Suc.prems(2-5) drained_sized [OF w1(2)] drained_mapped [OF w1(2)] d(1) by auto
    have "fresh ep w2 M x" if "x < mapped_len (mmios w M)" "j * 2 ^ 21 \<le> x" for x
    proof (cases "Suc j * 2 ^ 21 \<le> x")
      case False
      then have "x div 2 ^ 21 = j" using that(2) by (intro div_nat_eqI) simp_all
      then have "fresh ep w1 M x" using f1 [OF that(1)] by simp
      then show ?thesis using drained_fresh [OF w2(2)] that(1) d(1) by simp
    qed (use f2 that in simp)
    moreover have "checkpoint_loop (Suc fuel) E t M ep N (j * 2 ^ 21) w = Inr w2"
      using w1(1) w2(1) True by (simp add: add.commute)
    ultimately show ?thesis using w2(3) drained_trans [OF w1(2) w2(2)] by blast
  qed
qed

lemma checkpoint_mmio_drained:
  assumes E: "pmem_copies E" and rd: "ready LA t w M" and sz: "leaves_sized w M" and sm: "slots_mapped w M"
  shows "\<exists>w'. checkpoint_mmio E t M w = Inr w' \<and> drained (epoch (mmios w M)) LA M w w' \<and> ready LA t w' M \<and>
    (\<forall>x < mapped_len (mmios w M). fresh (epoch (mmios w M)) w' M x)"
proof -
  define N where "N = mapped_len (mmios w M)"
  have m: "checkpoint_mmio E t M w = checkpoint_loop (N div 2 ^ 21 + 1) E t M (epoch (mmios w M)) N (0 * 2 ^ 21) w"
    by (simp only: checkpoint_mmio_def Let_def N_def mapped_len_def mult_0)
  have "N \<le> (0 + (N div 2 ^ 21 + 1)) * 2 ^ 21"
    using dividend_less_div_times [of "2 ^ 21" N] by (simp add: algebra_simps)
  from checkpoint_loop_drained [OF E rd sz sm N_def [symmetric] this, of "epoch (mmios w M)"]
  obtain w' where w': "checkpoint_mmio E t M w = Inr w'" "drained (epoch (mmios w M)) LA M w w'" "lock_idle t M w'"
    and f: "\<forall>x < mapped_len (mmios w M). 0 * 2 ^ 21 \<le> x \<longrightarrow> fresh (epoch (mmios w M)) w' M x"
    by (elim exE conjE) (simp only: m)
  have "\<forall>x < mapped_len (mmios w M). fresh (epoch (mmios w M)) w' M x" using f by simp
  then show ?thesis using w' drained_ready by blast
qed

text \<open>
  C6: a round of the checkpoint thread over a file between two requests returns. Exactly the
  logs of older epochs are gone; the bytes of their blocks are in the file itself; the logs of
  the current epoch are still there; every byte of the file reads as before; and the file is
  ready for the next request. Hypotheses: every leaf has been
  given its log size, and no slot beyond the mapping is in use.
\<close>

theorem checkpoint_mmio_correct:
  assumes "pmem_copies E" and "ready LA t w M" and "leaves_sized w M" and "slots_mapped w M"
  shows "\<exists>w'. checkpoint_mmio E t M w = Inr w' \<and> ready LA t w' M \<and> leaves_sized w' M \<and> slots_mapped w' M \<and>
    (\<forall>x < mapped_len (mmios w M). content w' M x = content w M x \<and>
       entry_at w' M x = (case entry_at w M x of None \<Rightarrow> None
                          | Some e \<Rightarrow> if e_epoch (idxs w e) < epoch (mmios w M) then None else Some e) \<and>
       (entry_at w' M x = None \<longrightarrow> bytes (mem w') (start (mmios w M) + x) = content w M x))"
proof -
  obtain w' where w': "checkpoint_mmio E t M w = Inr w'" "ready LA t w' M" and d: "drained (epoch (mmios w M)) LA M w w'"
    and f: "\<And>x. x < mapped_len (mmios w M) \<Longrightarrow> fresh (epoch (mmios w M)) w' M x"
    using checkpoint_mmio_drained [OF assms] by blast
  have "content w' M x = content w M x \<and>
       entry_at w' M x = (case entry_at w M x of None \<Rightarrow> None
                          | Some e \<Rightarrow> if e_epoch (idxs w e) < epoch (mmios w M) then None else Some e)"
    if "x < mapped_len (mmios w M)" for x
    using d that f [OF that] unfolding drained_def by (auto simp: fresh_def split: option.splits)
  moreover have "content w' M x = bytes (mem w') (start (mmios w M) + x)" if "entry_at w' M x = None" for x
    using that drained_fields(3) [OF d] by (simp add: content_def)
  moreover have "leaves_sized w' M" "slots_mapped w' M" using drained_sized [OF d] drained_mapped [OF d] assms(3,4) by simp_all
  ultimately show ?thesis using w' by fastforce
qed

text \<open>The example file with a redo log of the epoch before: fifty bytes at offset 100.\<close>

definition ex_dirty :: world where
  "ex_dirty = upd_entry 70 (\<lambda>e. set_policy REDO (set_len 50 (set_offset 100 (e\<lparr>dst := 2 ^ 21\<rparr>)))) (ex_world REDO)"

lemma ex_dirty_sel [simp]:
  "e_epoch (idxs ex_dirty 70) = 0" "e_offset (idxs ex_dirty 70) = 100" "e_len (idxs ex_dirty 70) = 50"
  "e_policy (idxs ex_dirty 70) = REDO" "log (idxs ex_dirty 70) = 2 ^ 14" "log_size (idxs ex_dirty 70) = 0"
  "dst (idxs ex_dirty 70) = 2 ^ 21" "rwlockp (idxs ex_dirty 70) = RWLOCK_INIT"
  "mmios ex_dirty = mmios (ex_world REDO)" "mem ex_dirty = mem (ex_world REDO)" "tables ex_dirty = tables (ex_world REDO)"
  "entry_at ex_dirty = entry_at (ex_world REDO)" "leaf_size ex_dirty = leaf_size (ex_world REDO)"
  "bsize ex_dirty M x = 4096" "find_log_table ex_dirty = find_log_table (ex_world REDO)"
  by (simp_all add: ex_dirty_def bsize_def LOG_SIZE_eq)

lemma ex_dirty_ready: "ready ex_logs 5 ex_dirty 1"
proof -
  note r = ex_ready [of REDO, unfolded ready_def file_inv_def]
  have "map_ok ex_logs ex_dirty 1" using r by (simp add: map_ok_def Let_def)
  moreover have "leaves_ok ex_dirty 1" using r by (simp add: ex_dirty_def)
  moreover have "entries_ok ex_logs ex_dirty 1"
    using ex_block0 by (auto simp: entries_ok_def entry_fits_def entry_inv_def entry_ok_def Let_def boff_def bpart_def
        accessible_def disjoint_ranges_def LOG_SIZE_eq NR_LOG_SIZES_def ex_logs_def)
  moreover have "spares_ok ex_logs ex_dirty 1" by (simp add: spares_ok_def NR_NODE_FILL_def ex_dirty_def)
  ultimately show ?thesis using r by (simp add: ready_def file_inv_def unlocked_but_def lock_idle_def) (simp add: ex_dirty_def)
qed

theorem checkpoint_mmio_correct_witness:
  "\<exists>w'. checkpoint_mmio ex_env 5 1 ex_dirty = Inr w' \<and> entry_at ex_dirty 1 100 = Some 70 \<and> entry_at w' 1 100 = None \<and>
     bytes (mem ex_dirty) (2 ^ 21 + 100) = 100 \<and> bytes (mem w') (2 ^ 21 + 100) = 9"
proof -
  let ?N = "mapped_len (mmios ex_dirty 1)"
  have N: "100 < ?N" by simp
  have "leaves_sized ex_dirty 1" by (simp add: leaves_sized_def NR_LOG_SIZES_def)
  moreover have "slots_mapped ex_dirty 1" by (auto simp: slots_mapped_def child_def ex_table_def split: if_splits)
  ultimately have "leaves_sized ex_dirty 1" "slots_mapped ex_dirty 1" by blast+
  from checkpoint_mmio_correct [OF ex_env_copies ex_dirty_ready this] obtain w' where
    w': "checkpoint_mmio ex_env 5 1 ex_dirty = Inr w'" and e: "entry_at w' 1 100 = None"
    and b: "bytes (mem w') (start (mmios ex_dirty 1) + 100) = content ex_dirty 1 100"
    using N by fastforce
  have "content ex_dirty 1 100 = 9" by (simp add: content_def entry_view_def redo_view_def in_range_def ex_byte_def)
  then show ?thesis using w' e b by (simp add: ex_byte_def)
qed

subsection \<open>Commit and checkpoint\<close>

text \<open>No log is ahead of the file's epoch.\<close>

definition epochs_ok :: "world \<Rightarrow> ptr \<Rightarrow> bool" where
  "epochs_ok w M \<longleftrightarrow>
     (\<forall>x < mapped_len (mmios w M). \<forall>e. entry_at w M x = Some e \<longrightarrow> e_epoch (idxs w e) \<le> epoch (mmios w M))"

lemma tables_same_tree:
  assumes "tables w' = tables w" and "radixlog (mmios w' M) = radixlog (mmios w M)" and "mapped_len (mmios w' M) = mapped_len (mmios w M)"
  shows "entry_at w' M = entry_at w M" and "leaf_size w' M = leaf_size w M" and "leaves_sized w' M = leaves_sized w M"
    and "slots_mapped w' M = slots_mapped w M"
proof -
  note rx = radix_cong(1) [OF assms(1)]
  show "entry_at w' M = entry_at w M" and l: "leaf_size w' M = leaf_size w M" by (rule same_tree [OF assms(1,2)])+
  show "leaves_sized w' M = leaves_sized w M" by (simp add: leaves_sized_def rx assms l)
  show "slots_mapped w' M = slots_mapped w M" by (simp add: slots_mapped_def rx assms child_def)
qed

lemma commit_then_checkpoint_result:
  assumes "pmem_copies E" and "ready LA t w M" and "bravo_idle M (rwlock (mmios w M)) (bravo w)"
    and "visible_readers (bravo w) (bravo_hash u M) = None"
    and "leaves_sized w M" and "slots_mapped w M" and "epochs_ok w M" and "epoch (mmios w M) + 1 < 2 ^ 64"
  shows "\<exists>w1 w2. commit_mmio E t M w = Inr w1 \<and> checkpoint_mmio E u M w1 = Inr w2 \<and> ready LA u w2 M \<and>
    (\<forall>x < mapped_len (mmios w M). entry_at w2 M x = None \<and> content w2 M x = content w M x \<and>
       bytes (mem w2) (start (mmios w M) + x) = content w M x)"
proof -
  obtain w1 where c: "commit_mmio E t M w = Inr w1" and r: "ready LA t w1 M"
    and same: "content w1 M = content w M" "idxs w1 = idxs w" "mapped_len (mmios w1 M) = mapped_len (mmios w M)"
      "tables w1 = tables w" "radixlog (mmios w1 M) = radixlog (mmios w M)" "start (mmios w1 M) = start (mmios w M)"
      "visible_readers (bravo w1) = visible_readers (bravo w)"
    and ep: "epoch (mmios w1 M) = epoch (mmios w M) + 1"
    using commit_mmio_result [OF assms(2,3), of E] assms(8) by (auto simp: ul_def)
  note tr = tables_same_tree [OF same(4,5,3)]
  have "ready LA u w1 M" using r assms(4) same(7) by (simp add: ready_def lock_idle_def)
  then obtain w2 where k: "checkpoint_mmio E u M w1 = Inr w2" "ready LA u w2 M" and d: "drained (epoch (mmios w1 M)) LA M w1 w2"
    and f: "\<And>x. x < mapped_len (mmios w1 M) \<Longrightarrow> fresh (epoch (mmios w1 M)) w2 M x"
    using checkpoint_mmio_drained [OF assms(1), of LA u w1 M] assms(5,6) tr(3,4) by blast
  have "entry_at w2 M x = None \<and> content w2 M x = content w1 M x" if x: "x < mapped_len (mmios w M)" for x
  proof -
    have "\<not> fresh (epoch (mmios w1 M)) w1 M x" if "entry_at w1 M x = Some e" for e
      using assms(7) x that by (auto simp: epochs_ok_def tr(1) same(2) ep fresh_def)
    then show ?thesis using d f [of x] x unfolding drained_def same(3) by (cases "entry_at w1 M x") (auto simp: fresh_def)
  qed
  moreover have "bytes (mem w2) (start (mmios w M) + x) = content w2 M x" if "entry_at w2 M x = None" for x
    using that drained_fields(3) [OF d] same(6) by (simp add: content_def)
  ultimately show ?thesis using c k same(1) by auto
qed

text \<open>
  C8: A commit (\<^verbatim>\<open>fsync\<close>) by one thread and then a round of the checkpoint thread \<open>u\<close> both return,
  and put the contents of the whole file, as they were at the commit, into the file itself:
  no block has a log any more, and every byte of the mapping is the byte that reads returned.
  Hypotheses: the state that both operations start from, no log ahead of the file's epoch,
  an epoch that does not wrap, and a slot for the second thread in the table of readers.
\<close>

theorem commit_then_checkpoint:
  assumes "pmem_copies E" and "ready LA t w M" and "bravo_idle M (rwlock (mmios w M)) (bravo w)"
    and "visible_readers (bravo w) (bravo_hash u M) = None"
    and "leaves_sized w M" and "slots_mapped w M" and "epochs_ok w M" and "epoch (mmios w M) + 1 < 2 ^ 64"
  shows "\<exists>w1 w2. commit_mmio E t M w = Inr w1 \<and> checkpoint_mmio E u M w1 = Inr w2 \<and> ready LA u w2 M \<and>
    (\<forall>x < mapped_len (mmios w M). entry_at w2 M x = None \<and> content w2 M x = content w M x \<and>
       bytes (mem w2) (start (mmios w M) + x) = content w M x)"
  by (rule commit_then_checkpoint_result [OF assms])

theorem commit_then_checkpoint_witness:
  "\<exists>w1 w2. commit_mmio ex_env 5 1 ex_dirty = Inr w1 \<and> checkpoint_mmio ex_env 6 1 w1 = Inr w2 \<and>
     bytes (mem w2) (2 ^ 21 + 100) = 9 \<and> bytes (mem w2) (2 ^ 21 + 200) = 200"
proof -
  have b: "bravo ex_dirty = bravo (ex_world REDO)" by (simp add: ex_dirty_def)
  have i: "bravo_idle 1 (rwlock (mmios ex_dirty 1)) (bravo ex_dirty)" "visible_readers (bravo ex_dirty) (bravo_hash 6 1) = None"
    by (simp_all add: bravo_idle_def bravo_rwlock_init_def b)
  have l: "leaves_sized ex_dirty 1" "slots_mapped ex_dirty 1" "epochs_ok ex_dirty 1" "epoch (mmios ex_dirty 1) + 1 < 2 ^ 64"
    by (auto simp: leaves_sized_def NR_LOG_SIZES_def slots_mapped_def child_def ex_table_def epochs_ok_def split: if_splits)
  have "100 < mapped_len (mmios ex_dirty 1)" "200 < mapped_len (mmios ex_dirty 1)" by simp_all
  moreover have "content ex_dirty 1 100 = 9" by (simp add: content_def entry_view_def redo_view_def in_range_def ex_byte_def)
  moreover have "TABLE_INDEX 0 200 = 0" using index_block [of 0 200 0] by (simp add: NR_LOG_SIZES_def LOG_SIZE_eq TABLE_INDEX_def)
  then have "content ex_dirty 1 200 = 200"
    by (simp add: content_def entry_view_def redo_view_def in_range_def ex_byte_def boff_def)
  ultimately show ?thesis using commit_then_checkpoint [OF ex_env_copies ex_dirty_ready i l] by fastforce
qed

end
