(* ===== verification/CheckpointThread.thy ===== *)
theory CheckpointThread
  imports CheckpointSpec FileOps
begin

text \<open>
  The checkpoint thread on a file that has just been opened (\<^verbatim>\<open>get_new_mmio\<close> of
  src/src/allocator.c starts it before the first request): what its first round does depends
  on whether the tree of the file starts with a leaf.
\<close>

lemma checkpoint_chunk_unsized:
  assumes idle: "lock_idle t M w" and f: "find_log_table w (radixlog (mmios w M)) off = Some tb"
    and s: "tlog_size (tables w tb) = NR_LOG_SIZES"
  shows "checkpoint_chunk E t M ep off w = Inl (UB ''shift out of range'')"
proof -
  obtain b st where lk: "bravo_read_trylock t M (rwlock (mmios w M)) (bravo w) = (True, b, st)" by (rule read_trylock_idle [OF idle])
  let ?w = "upd_mmio M (\<lambda>m. m\<lparr>rwlock := b\<rparr>) (w\<lparr>bravo := st\<rparr>)"
  have t: "tables ?w = tables w" "radixlog (mmios ?w M) = radixlog (mmios w M)" by simp_all
  have "find_log_table ?w (radixlog (mmios ?w M)) off = Some tb" using f by (simp only: radix_cong(1) [OF t(1)] t(2))
  moreover have "checkpoint_table E t ep tb ?w = Inl (UB ''shift out of range'')"
    using s nr_entries_defined_iff [of NR_LOG_SIZES] by (simp add: checkpoint_table_def Let_def)
  ultimately show ?thesis by (simp only: checkpoint_chunk_def lk prod.case bool.case Let_def option.case bindE_Inl)
qed

lemma checkpoint_mmio_unsized:
  assumes "file_inv LA w M" and "lock_idle t M w" and "find_log_table w (radixlog (mmios w M)) 0 = Some tb"
    and "tlog_size (tables w tb) = NR_LOG_SIZES"
  shows "checkpoint_mmio E t M w = Inl (UB ''shift out of range'')"
proof -
  have "0 < end_addr (mmios w M) - start (mmios w M)" using assms(1) by (auto simp: file_inv_def map_ok_def Let_def)
  then show ?thesis using checkpoint_chunk_unsized [OF assms(2-4)] by (simp add: checkpoint_mmio_def Let_def)
qed

text \<open>A new file has a leaf only if its tree is one, and no log size has been chosen for it.\<close>

lemma get_new_mmio_leaves:
  assumes sp: "spare_tables w" and sz: "fsz \<le> 2 ^ 48" and r: "get_new_mmio E P t fd flags i fsz w k = Inr (M, w', k')"
  shows "find_log_table w' (radixlog (mmios w' M)) off \<noteq> None \<longleftrightarrow> mapped_len (mmios w' M) \<le> 2 ^ 21"
    and "find_log_table w' (radixlog (mmios w' M)) off = Some tb \<Longrightarrow> fresh_leaf (tables w' tb)"
proof -
  obtain pool len prot a mm k1 root w2 thread where ml: "map_length E fd fsz = Inr len"
    and ri: "init_radixlog t (radixlog (mmios w M)) len (w\<lparr>mmio_pool := pool, mem := mm\<rparr>) = Inr (root, w2)"
    and w': "w' = upd_mmio M (\<lambda>m. m\<lparr>radixlog := root, start := a, end_addr := a + len, fsize := int fsz, ino := i, checkpoint_thread := thread\<rparr>) w2"
    by (rule get_new_mmio_steps [OF r])
  have "spare_tables (w\<lparr>mmio_pool := pool, mem := mm\<rparr>)" using sp by (simp add: spare_tables_def)
  note rx = init_radixlog_result [OF this ri]
  have len: "0 < len" "len \<le> 2 ^ 48" by (rule map_length_pos [OF ml], rule map_length_le [OF ml sz])
  have m: "mapped_len (mmios w' M) = len" "radixlog (mmios w' M) = root" "find_log_table w' = find_log_table w2" "tables w' = tables w2"
    by (simp_all add: w' mapped_len_def)
  have "drop_bit 21 (len - 1) = 0 \<longleftrightarrow> len \<le> 2 ^ 21" using len(1) by (auto simp: drop_bit_eq_div div_eq_0_iff)
  moreover have "ul_sub len 1 = len - 1" using len by (intro ul_sub_ge) auto
  ultimately have "start_type w2 root = TABLE \<longleftrightarrow> len \<le> 2 ^ 21"
    unfolding rx(2) get_deepest_table_type_def by (auto simp: layout_simps)
  then show "find_log_table w' (radixlog (mmios w' M)) off \<noteq> None \<longleftrightarrow> mapped_len (mmios w' M) \<le> 2 ^ 21" using rx(4) by (simp only: m)
  show "find_log_table w' (radixlog (mmios w' M)) off = Some tb \<Longrightarrow> fresh_leaf (tables w' tb)" using rx(5) by (simp only: m)
qed

lemma opened_ready:
  assumes ok: "lib_ok LA L" and mp: "mmap_good LA P fd (mem (wld L)) k" and sz: "fsz \<le> 2 ^ 48"
    and r: "get_new_mmio E P t fd flags i fsz (wld L) k = Inr (M, w', k')"
  shows "ready LA u w' M"
proof -
  note n = get_new_mmio_opened [OF ok mp sz r]
  have "visible_readers (bravo w') = (\<lambda>_. None)" using n(6) by (simp add: lib_ok_def)
  then show ?thesis using n(1) by (simp add: just_opened_def ready_def lock_idle_def)
qed


subsection \<open>A small file\<close>

text \<open>The example process with one batch of four spare tables, a path down to a leaf.\<close>

definition four_objects :: pool where
  "four_objects =
     \<lparr>global = \<lparr>list_head = [\<lparr>node_addr = 3, node_ptr = 100\<rparr>, \<lparr>node_addr = 2, node_ptr = 200\<rparr>,
                             \<lparr>node_addr = 1, node_ptr = 300\<rparr>, \<lparr>node_addr = 0, node_ptr = 400\<rparr>],
                skip_head = [\<lparr>node_addr = 0, node_ptr = 400\<rparr>],
                list_cnt = 4, skip_cnt = 1, skip_unit = 4\<rparr>,
      provider = (\<lambda>_. None), collector = (\<lambda>_. None), next_node = 4\<rparr>"

lemma four_objects_inv: "pool_inv four_objects" "avail four_objects = {100, 200, 300, 400}"
proof -
  have o: "objs_at four_objects l = (if l = Glob then [100, 200, 300, 400] else [])" for l
    by (cases l) (simp_all add: four_objects_def objs_def)
  show "pool_inv four_objects" by (auto simp: pool_inv_def separated_def o) (auto simp: four_objects_def global_ok_def)
  show "avail four_objects = {100, 200, 300, 400}" by (auto simp: avail_def o)
qed

definition ex_small :: world where
  "ex_small = ex_spare\<lparr>table_pool := four_objects\<rparr>"

lemma ex_small_ok: "lib_ok ex_logs (ex_lib ex_small)"
proof -
  have "entries (tables ex_small p) = (\<lambda>_. None)" if "p \<in> avail four_objects" for p
    using that ex_world_sel(4) [of p UNDO] by (auto simp: ex_small_def ex_spare_def four_objects_inv(2))
  then have "spare_tables ex_small" by (simp add: spare_tables_def four_objects_inv(1)) (simp add: ex_small_def four_objects_inv(1))
  moreover have "log_space ex_logs ex_small" "spare_mmios ex_hash ex_small" "visible_readers (bravo ex_small) = (\<lambda>_. None)"
    using ex_lib_ok by (simp_all add: lib_ok_def ex_lib_def ex_small_def log_space_def spare_mmios_def)
  ultimately show ?thesis by (simp add: lib_ok_def ex_lib_def)
qed

lemma ex_init_small:
  assumes "table_pool w = four_objects"
  obtains root' w' where "init_radixlog t root 8192 w = Inr (root', w')"
proof -
  have "get_deepest_table_type 8191 = TABLE" by (simp add: get_deepest_table_type_def layout_simps drop_bit_eq_div)
  then show thesis using that assms
    by (simp add: init_radixlog_def Let_def ul_sub_ge init_radix_loop.simps alloc_log_table_def POP_PROVIDER_def
        refill_def fill_local_provider_def four_objects_def alloc_flist_def cut_splice_def less_eq_table_type_def set_table_entry_def)
qed

lemma ex_new_small:
  obtains M w1 k1 where "get_new_mmio ex_env ex_posix 5 3 O_RDWR 7 8192 ex_small k = Inr (M, w1, k1)"
    and "mapped_len (mmios w1 M) = 8192"
proof -
  have p: "O_RDWR AND O_ACCMODE = O_RDWR" "O_RDWR \<noteq> O_RDONLY" "O_RDWR \<noteq> O_WRONLY"
    by (simp_all add: O_RDWR_def O_ACCMODE_def O_RDONLY_def O_WRONLY_def)
  obtain M pool where pop: "POP_PROVIDER 5 (mmio_pool ex_small) = Inr (M, pool)"
    by (simp add: ex_small_def ex_spare_def POP_PROVIDER_def refill_def fill_local_provider_def two_objects_def alloc_flist_def cut_splice_def)
  let ?w = "ex_small\<lparr>mmio_pool := pool, mem := (mem ex_small)\<lparr>regions := (ex_top (mem ex_small), 8192) # regions (mem ex_small)\<rparr>\<rparr>"
  have "table_pool ?w = four_objects" by (simp add: ex_small_def)
  then obtain root' w' where "init_radixlog 5 (radixlog (mmios ex_small M)) 8192 ?w = Inr (root', w')"
    by (rule ex_init_small)
  then show thesis using that pop p
    by (simp add: get_new_mmio_def map_length_def get_prot_def Let_def create_checkpoint_thread_def ex_posix_def stub_posix_def mapped_len_def)
qed


end
