(* ===== verification/Durable.thy ===== *)
theory Durable
  imports CheckpointThread
begin

text \<open>
  From a write to the file on persistent memory: \<^verbatim>\<open>mmio_write\<close>, then \<^verbatim>\<open>commit_mmio\<close>, then a
  round of the checkpoint thread (src/src/mmio.c). The hypotheses of the checkpoint (all
  leaves sized, no slot beyond the mapping, no log ahead of the epoch) are kept by a write.
\<close>

subsection \<open>Leaves of the tree\<close>

text \<open>The leaf of an offset: its log size and its slots.\<close>

definition leaf_view :: "world \<Rightarrow> ptr \<Rightarrow> nat \<Rightarrow> (log_size_t \<times> (nat \<Rightarrow> ptr option)) option" where
  "leaf_view w M x = map_option (\<lambda>tb. (tlog_size (tables w tb), child w tb)) (find_log_table w (radixlog (mmios w M)) x)"

lemma leaves_sized_view:
  "leaves_sized w M \<longleftrightarrow> (\<forall>x < mapped_len (mmios w M). \<forall>s c. leaf_view w M x = Some (s, c) \<longrightarrow> s < NR_LOG_SIZES)"
  by (auto simp: leaves_sized_def leaf_view_def leaf_size_def)

lemma slots_mapped_view:
  "slots_mapped w M \<longleftrightarrow> (\<forall>x < mapped_len (mmios w M). \<forall>s c i. leaf_view w M x = Some (s, c) \<and> i < NR_ENTRIES s \<and> c i \<noteq> None \<longrightarrow>
     x - x mod 2 ^ 21 + i * LOG_SIZE s < mapped_len (mmios w M))"
  by (fastforce simp: slots_mapped_def leaf_view_def)

lemma leaf_view_size: "leaf_view w M x = Some (s, c) \<Longrightarrow> find_log_table w (radixlog (mmios w M)) x \<noteq> None \<and> leaf_size w M x = s"
  by (auto simp: leaf_view_def leaf_size_def)

lemma get_log_table_view:
  assumes ok: "leaves_ok w M" and r: "get_log_table t (radixlog (mmios w M)) off w = Inr (tb, root, w1)"
  defines "w2 \<equiv> upd_mmio M (\<lambda>m. m\<lparr>radixlog := root\<rparr>) w1"
  shows "leaf_view w2 M x = leaf_view w M x \<or>
    find_log_table w2 root x = Some tb \<and> leaf_view w2 M x = Some (NR_LOG_SIZES, \<lambda>_. None)"
proof -
  let ?r = "radixlog (mmios w M)"
  have ri: "radix_inv w ?r" using ok by (simp add: leaves_ok_def Let_def)
  note g = get_log_table_result [OF ri r]
  have f: "find_log_table w1 root x = (if same_leaf w ?r off x then Some tb else find_log_table w ?r x)"
    and old: "\<And>x y. find_log_table w ?r x = Some y \<Longrightarrow> tables w1 y = tables w y"
    and hit: "\<And>y. find_log_table w ?r off = Some y \<Longrightarrow> y = tb" and new: "find_log_table w ?r off = None \<Longrightarrow> fresh_leaf (tables w1 tb)"
    using g(2) by (simp_all add: found_table_def)
  have r2: "radixlog (mmios w2 M) = root" "find_log_table w2 = find_log_table w1" "tables w2 = tables w1" by (simp_all add: w2_def)
  have same: "find_log_table w ?r x = find_log_table w ?r off" if "same_leaf w ?r off x"
    using that find_log_table_cong [of w ?r off x] by (simp add: same_leaf_def)
  consider "find_log_table w1 root x = find_log_table w ?r x" | "find_log_table w1 root x = Some tb" "fresh_leaf (tables w1 tb)"
    using f same hit new by (cases "same_leaf w ?r off x"; cases "find_log_table w ?r off") auto
  then show ?thesis
  proof cases
    case 1
    then show ?thesis using old [of x] by (cases "find_log_table w ?r x") (auto simp: leaf_view_def r2 child_def fun_eq_iff)
  next
    case 2
    then show ?thesis by (auto simp: leaf_view_def r2 child_def fresh_leaf_def fun_eq_iff)
  qed
qed

lemma get_log_size_view:
  assumes "get_log_size tb off n w = (s, w')"
  shows "leaf_view w' M x = (if find_log_table w (radixlog (mmios w M)) x = Some tb then Some (s, child w tb) else leaf_view w M x)"
proof (cases "tlog_size (tables w tb) = NR_LOG_SIZES")
  case True
  then have w': "w' = upd_table tb (\<lambda>x. x\<lparr>tlog_size := s\<rparr>) w" using assms by (auto simp: get_log_size_def Let_def)
  have c: "child w' = child w" by (auto simp: w' child_def fun_eq_iff)
  have m: "mmios w' = mmios w" "tlog_size (tables w' y) = (if y = tb then s else tlog_size (tables w y))" for y by (simp_all add: w')
  show ?thesis using radix_upd_size(1) [of tb s w, folded w'] by (cases "find_log_table w (radixlog (mmios w M)) x") (simp_all add: leaf_view_def m c)
next
  case False
  then show ?thesis using assms by (auto simp: get_log_size_def leaf_view_def)
qed

text \<open>What a checkpoint needs, besides the invariant, to empty all logs of older epochs.\<close>

definition checkpointable :: "world \<Rightarrow> ptr \<Rightarrow> bool" where
  "checkpointable w M \<longleftrightarrow> leaves_sized w M \<and> slots_mapped w M \<and> epochs_ok w M"

text \<open>
  The same with the leaf of \<open>off\<close> possibly still unsized, as it is in the tree of a new file
  until the first request.
\<close>

definition checkpointable_but :: "world \<Rightarrow> ptr \<Rightarrow> nat \<Rightarrow> bool" where
  "checkpointable_but w M off \<longleftrightarrow>
     (\<forall>x < mapped_len (mmios w M). x div 2 ^ 21 \<noteq> off div 2 ^ 21 \<and> find_log_table w (radixlog (mmios w M)) x \<noteq> None \<longrightarrow>
        leaf_size w M x < NR_LOG_SIZES) \<and> slots_mapped w M \<and> epochs_ok w M"

lemma checkpointable_but: "checkpointable w M \<Longrightarrow> checkpointable_but w M off"
  by (simp add: checkpointable_def checkpointable_but_def leaves_sized_def)

lemma entry_at_view:
  "entry_at w M x = (case leaf_view w M x of None \<Rightarrow> None | Some (s, c) \<Rightarrow> if s < NR_LOG_SIZES then c (TABLE_INDEX s x) else None)"
  by (simp add: entry_at_def leaf_view_def split: option.split)

lemma checkpointable_view:
  assumes "\<And>x. leaf_view w' M x = leaf_view w M x" and "mapped_len (mmios w' M) = mapped_len (mmios w M)"
    and "\<And>q. e_epoch (idxs w' q) = e_epoch (idxs w q) \<or> e_epoch (idxs w' q) \<le> epoch (mmios w M)"
    and "epoch (mmios w' M) = epoch (mmios w M)" and "checkpointable w M"
  shows "checkpointable w' M"
proof -
  have "e_epoch (idxs w' e) \<le> epoch (mmios w' M)" if "e_epoch (idxs w e) \<le> epoch (mmios w M)" for e
    using assms(3) [of e] that assms(4) by auto
  moreover have "entry_at w' M = entry_at w M" by (intro ext) (simp add: entry_at_view assms(1))
  ultimately have "epochs_ok w' M" using assms(5) by (auto simp: epochs_ok_def checkpointable_def assms(2))
  moreover have "leaves_sized w' M = leaves_sized w M" "slots_mapped w' M = slots_mapped w M"
    unfolding leaves_sized_view slots_mapped_view assms(1,2) by (rule refl)+
  ultimately show ?thesis using assms(5) by (simp add: checkpointable_def)
qed

text \<open>The slot of an offset within the mapping starts within the mapping.\<close>

lemma slot_start_le:
  assumes "s < NR_LOG_SIZES" and "x div 2 ^ 21 = off div 2 ^ 21"
  shows "x - x mod 2 ^ 21 + TABLE_INDEX s off * LOG_SIZE s \<le> off"
proof -
  have "TABLE_INDEX s off * LOG_SIZE s \<le> off mod 2 ^ 21" by (simp only: TABLE_INDEX_eq [OF assms(1)] div_times_less_eq_dividend)
  moreover have "x - x mod 2 ^ 21 = off - off mod 2 ^ 21" by (simp only: minus_mod_eq_div_mult assms(2))
  moreover have "off mod 2 ^ 21 \<le> off" by simp
  ultimately show ?thesis by linarith
qed

lemma get_log_entry_checkpointable:
  assumes ok: "leaves_ok w M" and sp: "spares_ok LA w M" and f: "find_log_table w (radixlog (mmios w M)) off = Some tb"
    and s: "leaf_size w M off = s" "s < NR_LOG_SIZES" and off: "off < mapped_len (mmios w M)"
    and r: "get_log_entry t (epoch (mmios w M)) tb (TABLE_INDEX s off) s w = Inr (entry, w')" and c: "checkpointable w M"
  shows "checkpointable w' M"
proof (cases "child w tb (TABLE_INDEX s off)")
  case None
  let ?r = "radixlog (mmios w M)" and ?i = "TABLE_INDEX s off" and ?N = "mapped_len (mmios w M)"
  have p: "pool_inv (idx_pool w)" "pool_inv (log_pool w s)" using sp s by (auto simp: spares_ok_def)
  obtain data ip lp where w': "w' = set_table_entry tb ?i (Some entry) (upd_entry entry (new_entry (epoch (mmios w M)) data)
          (w\<lparr>idx_pool := ip, log_pool := (log_pool w)(s := lp)\<rparr>))"
    by (rule get_log_entry_new [OF None r p])
  have ri: "radix_inv w ?r" using ok by (simp add: leaves_ok_def Let_def)
  have t: "tables w' = tables (set_table_entry tb ?i (Some entry) w)" "mmios w' = mmios w" by (simp_all add: w' set_table_entry_def)
  have fd: "find_log_table w' ?r x = find_log_table w ?r x" for x using radix_set_slot(2) [OF ri f] radix_cong(1) [OF t(1)] by simp
  have tb: "tlog_size (tables w tb) = s" using f s(1) by (simp add: leaf_size_def)
  have ch: "tlog_size (tables w' y) = tlog_size (tables w y)" "child w' y = (if y = tb then (child w tb)(?i := Some entry) else child w y)" for y
    by (auto simp: t child_def set_table_entry_def fun_eq_iff)
  have v: "leaf_view w' M x = (if find_log_table w ?r x = Some tb then Some (s, (child w tb)(?i := Some entry)) else leaf_view w M x)"
    and v0: "find_log_table w ?r x = Some tb \<Longrightarrow> leaf_view w M x = Some (s, child w tb)" for x
    by (cases "find_log_table w ?r x"; auto simp: leaf_view_def t(2) fd ch tb)+
  have "leaves_sized w' M" using c s(2) by (auto simp: checkpointable_def leaves_sized_view v t(2) split: if_splits)
  moreover have "x - x mod 2 ^ 21 + ?i * LOG_SIZE s < ?N" if "x < ?N" "find_log_table w ?r x = Some tb" for x
  proof -
    have "x div 2 ^ 21 = off div 2 ^ 21" using same_leaf_chunk [OF ok off that(1) f] that(2) by simp
    from slot_start_le [OF s(2) this] show ?thesis using off by linarith
  qed
  then have "slots_mapped w' M" using c v0 by (auto simp: checkpointable_def slots_mapped_view v t(2) split: if_splits)
  moreover have "idxs w' = (idxs w)(entry := new_entry (epoch (mmios w M)) data (idxs w entry))" by (simp add: w' set_table_entry_def)
  moreover have "e_epoch (new_entry ep data e) \<le> ep" for ep e by (simp add: new_entry_def)
  moreover have "entry_at w' M x = Some e \<Longrightarrow> e = entry \<or> entry_at w M x = Some e" for x e
    using v0 [of x] by (auto simp: entry_at_view v split: if_splits)
  ultimately show ?thesis using c unfolding checkpointable_def epochs_ok_def t(2) by (metis fun_upd_apply)
next
  case (Some e)
  then show ?thesis using r c by (simp add: get_log_entry_def)
qed

lemma find_size_checkpointable:
  assumes ok: "leaves_ok w M" and g: "get_log_table t (radixlog (mmios w M)) off w = Inr (tb, root, w1)"
  defines "w2 \<equiv> upd_mmio M (\<lambda>m. m\<lparr>radixlog := root\<rparr>) w1"
  assumes z: "get_log_size tb off n w2 = (s, w3)" and c: "checkpointable_but w M off" and off: "off < mapped_len (mmios w M)"
  shows "checkpointable w3 M"
proof -
  note gt = get_log_table_file [OF ok g, folded w2_def]
  note gs = get_log_size_file [OF gt(1,4) z]
  have r2: "radixlog (mmios w2 M) = root" by (simp add: w2_def)
  let ?in = "\<lambda>x. find_log_table w2 root x = Some tb"
  note v2 = get_log_table_view [OF ok g, folded w2_def] and v3 = get_log_size_view [OF z, of M, unfolded r2]
  have m3: "mapped_len (mmios w3 M) = mapped_len (mmios w M)" "epoch (mmios w3 M) = epoch (mmios w M)" "idxs w3 = idxs w"
    using gt(5) gs(7) by (auto simp: only_tree_def mapped_len_def)
  have s: "s < NR_LOG_SIZES" by (rule gs(4))
  have leaf: "leaf_view w3 M x = leaf_view w M x \<or> leaf_view w3 M x = Some (s, \<lambda>_. None)" for x
  proof (cases "?in x")
    case True
    then have l2: "leaf_view w2 M x = Some (tlog_size (tables w2 tb), child w2 tb)" by (simp add: leaf_view_def r2)
    show ?thesis
    proof (cases "tlog_size (tables w2 tb) = NR_LOG_SIZES")
      case unsized: True
      then have "child w2 tb = (\<lambda>_. None)" using gt(1) True by (auto simp: leaves_ok_def Let_def r2 child_def)
      then show ?thesis using v3 [of x] True by simp
    next
      case False
      then have "s = tlog_size (tables w2 tb)" using z by (auto simp: get_log_size_def)
      then show ?thesis using v3 [of x] v2 [of x] True l2 False by auto
    qed
  next
    case False
    then show ?thesis using v2 [of x] v3 [of x] by auto
  qed
  have "z < NR_LOG_SIZES" if x: "x < mapped_len (mmios w M)" and l: "leaf_view w3 M x = Some (z, ch)" for x z ch
  proof (cases "x div 2 ^ 21 = off div 2 ^ 21")
    case True
    have "mapped_len (mmios w2 M) = mapped_len (mmios w M)" using gt(5) by (auto simp: only_tree_def mapped_len_def)
    then have "?in x" using same_leaf_chunk [OF gt(1) _ _ gt(4), of x] True x off r2 by simp
    then show ?thesis using v3 [of x] l s by simp
  next
    case False
    consider "leaf_view w M x = Some (z, ch)" | "z = s" using leaf [of x] l by auto
    then show ?thesis
    proof cases
      case 1
      then show ?thesis using c False x leaf_view_size [OF 1] unfolding checkpointable_but_def by metis
    qed (simp add: s)
  qed
  then have "leaves_sized w3 M" unfolding leaves_sized_view m3 by blast
  moreover have "slots_mapped w3 M" using c leaf unfolding checkpointable_but_def slots_mapped_view m3 by (metis option.inject prod.inject)
  moreover have "entry_at w3 M = entry_at w M" using gs(2) gt(2) by simp
  ultimately show ?thesis using c by (simp add: checkpointable_def checkpointable_but_def epochs_ok_def m3)
qed

subsection \<open>Steps that keep the tree\<close>

text \<open>Tree, lock and mapping of the file are kept, and no entry gets ahead of the epoch.\<close>

definition keeps :: "ptr \<Rightarrow> world \<Rightarrow> world \<Rightarrow> bool" where
  "keeps M w w' \<longleftrightarrow>
     (let m = mmios w M; m' = mmios w' M in
      tables w' = tables w \<and> bravo w' = bravo w \<and> rwlock m' = rwlock m \<and> radixlog m' = radixlog m \<and> start m' = start m \<and>
      end_addr m' = end_addr m \<and> epoch m' = epoch m \<and>
      (\<forall>q. e_epoch (idxs w' q) = e_epoch (idxs w q) \<or> e_epoch (idxs w' q) \<le> epoch m))"

lemma keeps_refl: "keeps M w w"
  by (simp add: keeps_def)

lemma keeps_trans: "keeps M w w1 \<Longrightarrow> keeps M w1 w2 \<Longrightarrow> keeps M w w2"
  unfolding keeps_def Let_def by metis

lemma keeps_checkpointable:
  assumes k: "keeps M w w'" and c: "checkpointable w M"
  shows "checkpointable w' M"
proof (rule checkpointable_view [OF _ _ _ _ c])
  have "tables w' = tables w" "radixlog (mmios w' M) = radixlog (mmios w M)" using k by (simp_all add: keeps_def Let_def)
  moreover have "child w' = child w" using calculation by (simp add: child_def fun_eq_iff)
  ultimately show "leaf_view w' M x = leaf_view w M x" for x using radix_cong(1) [of w' w] by (simp add: leaf_view_def)
qed (use k in \<open>auto simp: keeps_def Let_def mapped_len_def\<close>)

lemma keeps_prims:
  "NTSTORE E d s n w = Inr w' \<Longrightarrow> keeps M w w'" "keeps M w (FLUSH e w)" "keeps M w (FENCE w)"
  "(\<And>x. e_epoch (f x) = e_epoch x) \<Longrightarrow> keeps M w (upd_entry e f w)"
  by (auto simp: keeps_def Let_def NTSTORE_def FLUSH_def FENCE_def split: if_splits)

lemma LOCK_ENTRIES_checkpointable:
  assumes inv: "file_inv LA w M" and one: "one_block w M off n" and c: "checkpointable_but w M off"
    and r: "LOCK_ENTRIES k t M (int n) off [] w = Inr (head, w')"
  shows "checkpointable w' M"
proof -
  have lv: "leaves_ok w M" using inv by (simp add: file_inv_def)
  have n: "0 < n" "off < mapped_len (mmios w M)" using one by (auto simp: one_block_def)
  obtain x where g0: "get_log_table t (radixlog (mmios w M)) off w = Inr x"
    using r n(1) by (subst (asm) LOCK_ENTRIES.simps) (auto elim!: bindE_InrE)
  obtain tb root w1 where g: "get_log_table t (radixlog (mmios w M)) off w = Inr (tb, root, w1)" using g0 by (cases x) simp
  define w2 where "w2 = upd_mmio M (\<lambda>m. m\<lparr>radixlog := root\<rparr>) w1"
  obtain s w3 where z: "get_log_size tb off n w2 = (s, w3)" by (cases "get_log_size tb off n w2")
  note gt = get_log_table_file [OF lv g, folded w2_def]
  note gs = get_log_size_file [OF gt(1,4) z]
  have "s = target_size w M off n" using get_log_size_target [OF gt(4) z] by (simp add: target_size_def gt(3))
  then have n3: "off mod LOG_SIZE s + n \<le> LOG_SIZE s" using one by (simp add: one_block_def)
  obtain entry w4 where sp: "lock_spin 1 k t (epoch (mmios w3 M)) tb (TABLE_INDEX s off) s w3 = Inr (entry, w4)"
    and w': "w' = upd_entry entry (\<lambda>e. e\<lparr>log_size := s\<rparr>) w4"
    using r LOCK_ENTRIES_one_unfold [OF g z [unfolded w2_def] n(1) n3, of k] by (auto elim!: bindE_InrE)
  obtain w5 l where e: "get_log_entry t (epoch (mmios w3 M)) tb (TABLE_INDEX s off) s w3 = Inr (entry, w5)"
    and w4: "w4 = upd_entry entry (\<lambda>e. e\<lparr>rwlockp := l\<rparr>) w5"
    using sp unfolding lock_spin_once by (auto elim!: bindE_InrE split: option.splits)
  have t: "only_tree M w w3" using gt(5) gs(7) by (auto simp: only_tree_def)
  have a: "agree M w w3"
  proof (rule agree_tree [OF t])
    show "entry_at w3 M = entry_at w M" using gt(2) gs(2) by simp
    show "leaf_size w3 M x = leaf_size w M x \<or> entry_at w M x = None" for x using gs(5) [of x] gt(2,3) by auto
  qed
  have "file_inv LA w3 M" by (rule file_inv_agree [OF inv a gs(1)])
  then have sp3: "spares_ok LA w3 M" by (simp add: file_inv_def)
  have "checkpointable w3 M" by (rule find_size_checkpointable [OF lv g z [unfolded w2_def] c n(2)])
  then have "checkpointable w5 M"
    using get_log_entry_checkpointable [OF gs(1) sp3 gs(6,3,4) _ e] n(2) agree_fields [OF a] by simp
  moreover have "keeps M w5 w'"
    unfolding w' w4 by (intro keeps_trans [OF keeps_prims(4) keeps_prims(4)]) (simp_all add: e_epoch_def)
  ultimately show ?thesis by (rule keeps_checkpointable [rotated])
qed

subsection \<open>The copies of a write\<close>

lemma keeps_merge_log: "merge_log E entry d lo n w = Inr w' \<Longrightarrow> keeps M w w'"
  unfolding merge_log_def Let_def
  by (auto elim!: bindE_InrE intro: keeps_trans [OF keeps_prims(1) keeps_prims(4)] keeps_prims(4) keeps_refl split: if_splits)

lemma keeps_copy_log: "copy_log E entry w = Inr w' \<Longrightarrow> keeps M w w'"
  unfolding copy_log_def Let_def by (auto elim!: bindE_InrE intro: keeps_trans [OF keeps_prims(1) keeps_prims(3)])

lemma keeps_bind:
  assumes "bindE r f = Inr y" and "\<And>w1. r = Inr w1 \<Longrightarrow> keeps M w w1" and "\<And>w1. f w1 = Inr y \<Longrightarrow> keeps M w1 w'"
  shows "keeps M w w'"
  using assms keeps_trans by (fastforce elim!: bindE_InrE)

lemma keeps_checkpoint_entry:
  assumes "checkpoint_entry E M entry w = Inr w'"
  shows "keeps M w w'"
proof (rule keeps_bind [OF assms [unfolded checkpoint_entry_def]])
  let ?f = "\<lambda>w e. set_offset 0 (set_len 0 (set_policy (policy (mmios w M)) (set_epoch (epoch (mmios w M)) e)))"
  fix w1 assume "(let m = mmios w1 M in Inr (FENCE (FLUSH entry
            (upd_entry entry (\<lambda>e. set_offset 0 (set_len 0 (set_policy (policy m) (set_epoch (epoch m) e)))) w1)))) = Inr w'"
  then have w': "w' = FENCE (FLUSH entry (upd_entry entry (?f w1) w1))" by (simp add: Let_def)
  have "keeps M w1 (upd_entry entry (?f w1) w1)" by (simp add: keeps_def Let_def)
  then show "keeps M w1 w'" unfolding w' by (intro keeps_trans [OF keeps_trans [OF _ keeps_prims(2)] keeps_prims(3)])
qed (auto intro: keeps_copy_log keeps_refl split: if_splits)

lemma keeps_log_block:
  assumes "log_block E M entry off d src n w = Inr (k, w')"
  shows "keeps M w w'"
proof (rule keeps_bind [OF assms [unfolded log_block_def Let_def]], goal_cases)
  case (1 w1)
  then show ?case by (auto intro: keeps_prims(1) split: policy.splits)
next
  case (2 w1)
  then show ?case
    by (rule keeps_bind) (auto intro: keeps_merge_log keeps_prims(2,4) split: if_splits)
qed

lemma keeps_write_loop: "write_loop E M es off d src n ret w = Inr (r, w') \<Longrightarrow> keeps M w w'"
proof (induction es arbitrary: off d src n ret w)
  case Nil
  then show ?case by (simp add: keeps_refl)
next
  case (Cons e es)
  obtain k w1 where w1: "write_entry E M e off d src n w = Inr (k, w1)"
    and r: "write_loop E M es (off + k) (d + k) (src + k) k (ret + k) w1 = Inr (r, w')"
    using Cons.prems by (auto elim!: bindE_InrE)
  have "keeps M w w1"
    using w1 unfolding write_entry_def
    by (auto elim!: bindE_InrE intro: keeps_log_block keeps_trans [OF keeps_checkpoint_entry keeps_log_block] split: if_splits)
  then show ?case using Cons.IH [OF r] by (rule keeps_trans)
qed

lemma keeps_UNLOCK_ENTRIES: "UNLOCK_ENTRIES es w = Inr w' \<Longrightarrow> keeps M w w'"
proof (induction es arbitrary: w)
  case Nil
  then show ?case by (simp add: UNLOCK_ENTRIES_def keeps_refl)
next
  case (Cons e es)
  then obtain l where "UNLOCK_ENTRIES es (upd_entry e (\<lambda>x. x\<lparr>rwlockp := l\<rparr>) w) = Inr w'"
    by (auto simp: UNLOCK_ENTRIES_def elim!: bindE_InrE)
  then have "keeps M (upd_entry e (\<lambda>x. x\<lparr>rwlockp := l\<rparr>) w) w'" by (rule Cons.IH)
  then show ?case by (rule keeps_trans [rotated]) (simp add: keeps_prims(4) e_epoch_def)
qed

subsection \<open>The whole write\<close>

lemma keeps_upd_mmio:
  "(\<And>m. rwlock (f m) = rwlock m \<and> radixlog (f m) = radixlog m \<and> start (f m) = start m \<and> end_addr (f m) = end_addr m \<and> epoch (f m) = epoch m)
    \<Longrightarrow> keeps M w (upd_mmio M f w)"
  by (simp add: keeps_def Let_def)

lemma mmio_write_parts:
  assumes r: "mmio_write E t M fd off buf n w = Inr (ret, w')" and w1: "mm_read_lock t M w = Inr w1"
    and ne: "\<not> check_expend (mmios w1 M) off n"
  obtains head w2 w3 where "LOCK_ENTRIES WR t M (c_int (int n)) off [] w1 = Inr (head, w2)" and "keeps M w2 w3"
    and "mm_read_unlock t M w3 = Inr w'"
proof -
  let ?cnt = "\<lambda>w. FENCE (upd_mmio M (\<lambda>m. m\<lparr>write_cnt := increase_counter (write_cnt m)\<rparr>) w)"
  let ?sz = "\<lambda>ret. upd_mmio M (\<lambda>m. if fsize m < int off + int ret then m\<lparr>fsize := int off + int ret\<rparr> else m)"
  obtain head w2 r0 wa wb wc where lk: "LOCK_ENTRIES WR t M (c_int (int n)) off [] w1 = Inr (head, w2)"
    and wa: "write_loop E M head off (start (mmios w2 M) + off) buf (nat (c_int (int n))) 0 w2 = Inr (r0, wa)"
    and wb: "(if policy (mmios (?cnt wa) M) = UNDO
        then bindE (NTSTORE E (start (mmios (?cnt wa) M) + off) buf n (?cnt wa)) (\<lambda>w. Inr (FENCE w)) else Inr (?cnt wa)) = Inr wb"
    and wc: "UNLOCK_ENTRIES head (?sz r0 wb) = Inr wc" and u: "mm_read_unlock t M wc = Inr w'"
    using r w1 ne unfolding mmio_write_def Let_def by (auto elim!: bindE_InrE simp del: FENCE_def)
  have "keeps M wa (?cnt wa)" by (rule keeps_trans [OF keeps_upd_mmio keeps_prims(3)]) simp
  moreover have "keeps M (?cnt wa) wb"
    using wb by (auto elim!: bindE_InrE intro: keeps_refl keeps_trans [OF keeps_prims(1) keeps_prims(3)] split: if_splits)
  moreover have "keeps M wb (?sz r0 wb)" by (rule keeps_upd_mmio) simp
  ultimately have "keeps M w2 wc"
    using keeps_write_loop [OF wa] keeps_UNLOCK_ENTRIES [OF wc] keeps_trans by meson
  then show thesis using that lk u by blast
qed

lemma relocked_checkpointable:
  assumes "relocked M w w'"
  shows "checkpointable w' M = checkpointable w M" and "checkpointable_but w' M off = checkpointable_but w M off"
proof -
  note s = relocked_world(1) [OF assms] and e = same_index_eqs [OF relocked_world(1) [OF assms]]
  have "leaves_sized w' M = leaves_sized w M" "slots_mapped w' M = slots_mapped w M"
    by (rule tables_same_tree; use s in \<open>simp add: same_index_def Let_def mapped_len_def\<close>)+
  moreover have "epochs_ok w' M = epochs_ok w M" using relocked_world(9) [OF assms] by (simp add: epochs_ok_def e)
  moreover have "find_log_table w' (radixlog (mmios w' M)) = find_log_table w (radixlog (mmios w M))"
    using s radix_cong(1) [of w' w] by (simp add: same_index_def Let_def)
  ultimately show "checkpointable w' M = checkpointable w M" "checkpointable_but w' M off = checkpointable_but w M off"
    by (simp_all add: checkpointable_def checkpointable_but_def e)
qed

lemma mmio_write_checkpointable:
  assumes rdy: "ready LA t w M" and one: "one_block w M off n" and small: "n < 2 ^ 31" and c: "checkpointable_but w M off"
    and r: "mmio_write E t M fd off buf n w = Inr (ret, w')"
  shows "checkpointable w' M" and "underlying (rwlock (mmios w' M)) = underlying (rwlock (mmios w M))"
    and "visible_readers (bravo w') = visible_readers (bravo w)" and "epoch (mmios w' M) = epoch (mmios w M)"
proof -
  have inv: "file_inv LA w M" "unlocked_but None w M" and idle: "lock_idle t M w" using rdy by (simp_all add: ready_def)
  obtain w1 where w1: "mm_read_lock t M w = Inr w1" and ne: "\<not> check_expend (mmios w1 M) off n" by (rule request_begin [OF rdy one small])
  obtain b1 st1 where l1: "bravo_read_lock t M (rwlock (mmios w M)) (bravo w) = Inr (b1, st1)" and r1: "relocked M w w1"
    and b1: "rwlock (mmios w1 M) = b1" "bravo w1 = st1" using w1 unfolding mm_read_lock_def by (rule mm_lock_relocked)
  note s1 = relocked_world [OF r1] and q1 = same_index_eqs [OF relocked_world(1) [OF r1]]
  obtain head w2 w3 where lk: "LOCK_ENTRIES WR t M (c_int (int n)) off [] w1 = Inr (head, w2)" and k: "keeps M w2 w3"
    and u: "mm_read_unlock t M w3 = Inr w'" by (rule mmio_write_parts [OF r w1 ne])
  have ci: "c_int (int n) = int n" using small by (intro c_int_small) simp_all
  have inv1: "file_inv LA w1 M" "unlocked_but None w1 M" "one_block w1 M off n" using inv one by (simp_all add: q1)
  have lt: "off + n < 2 ^ 64" using mapped_len_le [OF inv(1)] one by (simp add: one_block_def)
  obtain e l where lb: "locked_block LA M off e l w1 w2" using LOCK_ENTRIES_one_block [OF inv1 lt, of WR t] lk ci by auto
  have "checkpointable w2 M" by (rule LOCK_ENTRIES_checkpointable [OF inv1(1,3) _ lk [unfolded ci]]) (simp add: relocked_checkpointable(2) [OF r1] c)
  then have c3: "checkpointable w3 M" by (rule keeps_checkpointable [OF k])
  obtain b st where u3: "bravo_read_unlock t M (rwlock (mmios w3 M)) (bravo w3) = Inr (b, st)" and r3: "relocked M w3 w'"
    and b: "rwlock (mmios w' M) = b" "bravo w' = st" using u unfolding mm_read_unlock_def by (rule mm_lock_relocked)
  show "checkpointable w' M" using c3 relocked_checkpointable(1) [OF r3] by simp
  have "rwlock (mmios w3 M) = b1" "bravo w3 = st1" "epoch (mmios w3 M) = epoch (mmios w M)"
    using k lb b1 s1(9) by (auto simp: keeps_def Let_def locked_block_def)
  then show "underlying (rwlock (mmios w' M)) = underlying (rwlock (mmios w M))" "visible_readers (bravo w') = visible_readers (bravo w)"
    "epoch (mmios w' M) = epoch (mmios w M)"
    using bravo_read_roundtrip_result [OF _ _ l1] idle u3 b relocked_world(9) [OF r3] by (auto simp: lock_idle_def rwlock_ok_def)
qed

text \<open>A file that has just been opened is in such a state, whatever its size.\<close>

lemma new_file_checkpointable:
  assumes ok: "lib_ok LA L" and mp: "mmap_good LA P fd (mem (wld L)) k" and sz: "fsz \<le> 2 ^ 48"
    and r: "get_new_mmio E P t fd flags i fsz (wld L) k = Inr (M, w, k')" and off: "off < mapped_len (mmios w M)"
  shows "ready LA u w M" and "checkpointable_but w M off" and "bravo_idle M (rwlock (mmios w M)) (bravo w)"
    and "visible_readers (bravo w) = (\<lambda>_. None)"
proof -
  have sp: "spare_tables (wld L)" "log_space LA (wld L)" "visible_readers (bravo (wld L)) = (\<lambda>_. None)" "spare_mmios (fhash L) (wld L)"
    using ok by (simp_all add: lib_ok_def)
  note lv = get_new_mmio_leaves [OF sp(1) sz r] and n = get_new_mmio_result [OF sp(1,2) mp sz r]
  show "ready LA u w M" by (rule opened_ready [OF ok mp sz r])
  have v: "leaf_view w M x = Some (s, c) \<Longrightarrow> mapped_len (mmios w M) \<le> 2 ^ 21 \<and> c = (\<lambda>_. None)" for x s c
    using lv(1) [of x] lv(2) [of x] by (auto simp: leaf_view_def fresh_leaf_def child_def fun_eq_iff)
  have "x div 2 ^ 21 = off div 2 ^ 21" if "x < mapped_len (mmios w M)" "mapped_len (mmios w M) \<le> 2 ^ 21" for x
    using that off by simp
  then have "\<forall>x < mapped_len (mmios w M). x div 2 ^ 21 \<noteq> off div 2 ^ 21 \<and> find_log_table w (radixlog (mmios w M)) x \<noteq> None \<longrightarrow>
      leaf_size w M x < NR_LOG_SIZES" using lv(1) by blast
  moreover have "slots_mapped w M" using v unfolding slots_mapped_view by fastforce
  moreover have "entry_at w M x = None" for x
    using v [of x] by (cases "leaf_view w M x") (auto simp: entry_at_view)
  ultimately show "checkpointable_but w M off" by (simp add: checkpointable_but_def epochs_ok_def)
  show vr: "visible_readers (bravo w) = (\<lambda>_. None)" using n(9) sp(3) by simp
  have "POP_PROVIDER t (mmio_pool (wld L)) = Inr (M, mmio_pool w)" by (rule get_new_mmio_spares(3) [OF sp(1,2) mp sz r])
  then have "M \<in> avail (mmio_pool (wld L))" using POP_PROVIDER_result(2) sp(4) by (auto simp: spare_mmios_def)
  then show "bravo_idle M (rwlock (mmios w M)) (bravo w)"
    using sp(4) n(7) vr by (simp add: spare_mmios_def bravo_idle_def bravo_rwlock_init_def)
qed

text \<open>
  C7: Durability of a write. Let a write within one block return; then a commit (\<^verbatim>\<open>fsync\<close>) by
  the same thread and a round of the checkpoint thread \<open>u\<close> both return, no block of the file
  has a log any more, and the bytes of the mapped file itself are the former contents with
  the buffer written at the offset. A write also keeps what the theorem asks of the state, so
  it applies to the next write as well. Hypotheses: the state before the write is ready, every
  leaf but that of the request has its log size (a new file is in this state, by
  \<open>new_file_checkpointable\<close>), no slot beyond the mapping is in use, no log is ahead of the epoch, no
  thread holds the file's lock, a free slot for the checkpoint thread in the table of
  readers, and an epoch that does not wrap.
\<close>

theorem write_commit_checkpoint:
  assumes "pmem_copies E" and "ready LA t w M" and "checkpointable_but w M off" and "one_block w M off n" and "n < 2 ^ 31"
    and "user_buffer LA w M buf n" and "bravo_idle M (rwlock (mmios w M)) (bravo w)"
    and "visible_readers (bravo w) (bravo_hash u M) = None" and "epoch (mmios w M) + 1 < 2 ^ 64"
    and "mmio_write E t M fd off buf n w = Inr (ret, w1)"
  shows "ret = n \<and> checkpointable w1 M \<and> bravo_idle M (rwlock (mmios w1 M)) (bravo w1) \<and>
    (\<exists>w2 w3. commit_mmio E t M w1 = Inr w2 \<and> checkpoint_mmio E u M w2 = Inr w3 \<and> ready LA u w3 M \<and>
      (\<forall>x < mapped_len (mmios w M). entry_at w3 M x = None \<and>
         bytes (mem w3) (start (mmios w M) + x) = overlay (content w M) off n (\<lambda>j. bytes (mem w) (buf + j)) x))"
proof -
  note k = mmio_write_checkpointable [OF assms(2,4,5,3,10)]
  have f: "ret = n" "ready LA t w1 M" "start (mmios w1 M) = start (mmios w M)" "mapped_len (mmios w1 M) = mapped_len (mmios w M)"
    "\<forall>x < mapped_len (mmios w M). content w1 M x = overlay (content w M) off n (\<lambda>j. bytes (mem w) (buf + j)) x"
    using mmio_write_one_block_result [OF assms(1,2,4,5,6), of fd] assms(10) by simp_all
  have i: "bravo_idle M (rwlock (mmios w1 M)) (bravo w1)" "visible_readers (bravo w1) (bravo_hash u M) = None"
    using assms(7,8) k(2,3) by (simp_all add: bravo_idle_def)
  have c: "leaves_sized w1 M" "slots_mapped w1 M" "epochs_ok w1 M" "epoch (mmios w1 M) + 1 < 2 ^ 64"
    using k(1,4) assms(9) by (simp_all add: checkpointable_def)
  obtain w2 w3 where "commit_mmio E t M w1 = Inr w2" "checkpoint_mmio E u M w2 = Inr w3" "ready LA u w3 M"
    "\<forall>x < mapped_len (mmios w1 M). entry_at w3 M x = None \<and> content w3 M x = content w1 M x \<and>
       bytes (mem w3) (start (mmios w1 M) + x) = content w1 M x"
    using commit_then_checkpoint_result [OF assms(1) f(2) i c] by blast
  then show ?thesis using f i(1) k(1) by auto
qed

theorem write_commit_checkpoint_witness:
  "\<exists>w1 w2 w3. mmio_write ex_env 5 1 3 100 (2 ^ 15) 50 (ex_world REDO) = Inr (50, w1) \<and> commit_mmio ex_env 5 1 w1 = Inr w2 \<and>
     checkpoint_mmio ex_env 6 1 w2 = Inr w3 \<and> bytes (mem (ex_world REDO)) (2 ^ 21 + 120) = 120 \<and> bytes (mem w3) (2 ^ 21 + 120) = 7"
proof -
  let ?w = "ex_world REDO"
  have c: "checkpointable ?w 1"
    by (auto simp: checkpointable_def leaves_sized_def NR_LOG_SIZES_def slots_mapped_def child_def ex_table_def epochs_ok_def split: if_splits)
  have i: "bravo_idle 1 (rwlock (mmios ?w 1)) (bravo ?w)" "visible_readers (bravo ?w) (bravo_hash 6 1) = None" "epoch (mmios ?w 1) + 1 < 2 ^ 64"
    by (simp_all add: bravo_idle_def bravo_rwlock_init_def)
  obtain w1 where w1: "mmio_write ex_env 5 1 3 100 (2 ^ 15) 50 ?w = Inr (50, w1)" using ex_write_runs [of REDO] by blast
  have "(50::nat) < 2 ^ 31" "120 < mapped_len (mmios ?w 1)" by simp_all
  with write_commit_checkpoint [OF ex_env_copies ex_ready checkpointable_but [OF c] ex_request(1) _ ex_request(2) i w1]
  obtain w2 w3 where "commit_mmio ex_env 5 1 w1 = Inr w2" "checkpoint_mmio ex_env 6 1 w2 = Inr w3"
    "bytes (mem w3) (start (mmios ?w 1) + 120) = overlay (content ?w 1) 100 50 (\<lambda>j. bytes (mem ?w) (2 ^ 15 + j)) 120" by blast
  then show ?thesis using w1 by (simp add: overlay_def ex_byte_def)
qed

end
