(* ===== verification/MultiBlock.thy ===== *)
theory MultiBlock
  imports Commit
begin

text \<open>
  Requests over two blocks (\<^verbatim>\<open>mmio_write\<close> and \<^verbatim>\<open>LOCK_ENTRIES\<close> of src/src/mmio.c). The entries of a
  request are pushed to a list as they are locked, so the loops that follow meet the last
  block first, while offset and addresses advance from the first.
\<close>

subsection \<open>Locking an entry that is there\<close>

text \<open>Only the lock of one entry and the search cache of the tree have changed.\<close>

definition locked_old :: "ptr \<Rightarrow> ptr \<Rightarrow> rwlock \<Rightarrow> world \<Rightarrow> world \<Rightarrow> bool" where
  "locked_old M e l w w' \<longleftrightarrow>
     leaves_ok w' M \<and> agree M w w' \<and> leaf_size w' M = leaf_size w M \<and> mem w' = mem w \<and> ptrace w' = ptrace w \<and> bravo w' = bravo w \<and>
     idxs w' = (idxs w)(e := (idxs w e)\<lparr>rwlockp := l\<rparr>) \<and> (\<exists>r. mmios w' = (mmios w)(M := (mmios w M)\<lparr>radixlog := r\<rparr>))"

lemma LOCK_ENTRIES_old:
  assumes lv: "leaves_ok w M" and at: "entry_at w M off = Some e" and ls: "log_size (idxs w e) = leaf_size w M off"
    and l: "trylock k (rwlockp (idxs w e)) = Some l" and n: "0 < n" and hd: "e \<notin> set head"
  obtains w' where "LOCK_ENTRIES k t M n off head w =
      LOCK_ENTRIES k t M (n - int (bsize w M off - off mod bsize w M off)) (ul (off + (bsize w M off - off mod bsize w M off))) (e # head) w'"
    and "locked_old M e l w w'"
proof (cases "get_log_table t (radixlog (mmios w M)) off w")
  case (Inl err)
  have "radix_inv w (radixlog (mmios w M))" using lv by (simp add: leaves_ok_def Let_def)
  then have "entry_at w M off = None" using get_log_table_absent [OF _ Inl] by (simp add: entry_at_def)
  then show thesis using at by simp
next
  case (Inr x)
  obtain tb root w1 where x: "x = (tb, root, w1)" by (cases x)
  define w2 where "w2 = upd_mmio M (\<lambda>m. m\<lparr>radixlog := root\<rparr>) w1"
  note g = get_log_table_file [OF lv Inr [unfolded x], folded w2_def]
  define s where "s = leaf_size w M off"
  have tb: "tlog_size (tables w2 tb) = s" using fun_cong [OF g(3), of off] g(4) by (simp add: leaf_size_def s_def)
  have "entry_at w2 M off = Some e" using at g(2) by simp
  then have s: "s < NR_LOG_SIZES" and c: "child w2 tb (TABLE_INDEX s off) = Some e"
    using g(4) tb by (auto simp: entry_at_def split: if_splits)
  have z: "get_log_size tb off (nat n) w2 = (s, w2)" using tb s by (simp add: get_log_size_def)
  have i2: "idxs w2 = idxs w" using g(5) by (simp add: only_tree_def)
  have sp: "lock_spin 1 k t ep tb (TABLE_INDEX s off) s w2 = Inr (e, upd_entry e (\<lambda>e. e\<lparr>rwlockp := l\<rparr>) w2)" for ep
    using c l i2 by (simp add: lock_spin_once get_log_entry_def del: One_nat_def)
  define w' where "w' = upd_entry e (\<lambda>e. e\<lparr>log_size := s\<rparr>) (upd_entry e (\<lambda>e. e\<lparr>rwlockp := l\<rparr>) w2)"
  have w': "w' = upd_entry e (\<lambda>e. e\<lparr>rwlockp := l\<rparr>) w2"
    using ls i2 by (simp add: w'_def upd_entry_def s_def idx_entry_lock_size(2))
  have a: "agree M w w2" by (rule agree_tree [OF g(5,2)]) (simp add: g(3))
  have "agree M w w'" unfolding w' by (rule agree_trans [OF a agree_lock])
  then have "locked_old M e l w w'" using g(1,3,5) by (simp add: locked_old_def w' only_tree_def)
  moreover have b: "LOG_SIZE s - (off AND (LOG_SIZE s - 1)) = bsize w M off - off mod bsize w M off"
    using LOG_OFFSET_mod [of off s] by (simp add: bsize_def s_def LOG_OFFSET_def)
  have "LOCK_ENTRIES k t M n off head w =
      LOCK_ENTRIES k t M (n - int (bsize w M off - off mod bsize w M off)) (ul (off + (bsize w M off - off mod bsize w M off))) (e # head) w'"
    using n hd by (subst LOCK_ENTRIES.simps)
      (simp only: Inr x if_True bindE_Inr prod.case Let_def w2_def [symmetric] z sp if_False w'_def [symmetric] b)
  ultimately show thesis using that by blast
qed

lemma locked_old_fields:
  assumes "locked_old M e l w w'"
  shows "entry_at w' M = entry_at w M" "leaf_size w' M = leaf_size w M" "bsize w' M = bsize w M" "leaves_ok w' M"
    "mem w' = mem w" "bravo w' = bravo w" "idxs w' = (idxs w)(e := (idxs w e)\<lparr>rwlockp := l\<rparr>)"
    "file_inv LA w M \<Longrightarrow> file_inv LA w' M"
proof -
  have a: "agree M w w'" and lv: "leaves_ok w' M" using assms by (simp_all add: locked_old_def)
  show "entry_at w' M = entry_at w M" using a by (simp add: agree_def Let_def)
  show "leaf_size w' M = leaf_size w M" "leaves_ok w' M" "mem w' = mem w" "bravo w' = bravo w"
    "idxs w' = (idxs w)(e := (idxs w e)\<lparr>rwlockp := l\<rparr>)" using assms by (simp_all add: locked_old_def)
  then show "bsize w' M = bsize w M" by (intro ext) (simp add: bsize_def)
  show "file_inv LA w' M" if "file_inv LA w M" by (rule file_inv_agree [OF that a lv])
qed

subsection \<open>Writing a whole log\<close>

lemma log_block_full:
  fixes d :: addr
  assumes E: "pmem_copies E" and p: "policy (mmios w M) = REDO" and s: "log_size (idxs w e) < NR_LOG_SIZES"
    and off: "LOG_SIZE (log_size (idxs w e)) dvd off" and n: "LOG_SIZE (log_size (idxs w e)) \<le> n"
    and acc: "accessible (mem w) (log (idxs w e)) (LOG_SIZE (log_size (idxs w e)))" "accessible (mem w) src (LOG_SIZE (log_size (idxs w e)))"
  defines "S \<equiv> LOG_SIZE (log_size (idxs w e))"
  defines "w' \<equiv> FLUSH e (upd_entry e (\<lambda>x. (set_policy REDO (set_len S (set_offset 0 x)))\<lparr>dst := d AND LOG_MASK (log_size x)\<rparr>)
      (stored (log (idxs w e)) src S w))"
  shows "log_block E M e off d src n w = Inr (S, w')"
proof -
  have "off AND (S - 1) = 0" using off LOG_OFFSET_mod [of off "log_size (idxs w e)"] by (simp add: LOG_OFFSET_def S_def)
  moreover have "S < n \<or> n = S" "accessible (mem w) (log (idxs w e)) S" "accessible (mem w) src S" using n acc by (auto simp: S_def)
  ultimately show ?thesis
    using p by (auto simp: log_block_def Let_def S_def [symmetric] NTSTORE_Inr [OF E] stored_def w'_def upd_entry_def)
qed

text \<open>The entry holds a whole log of the bytes \<open>f\<close>, for the block at \<open>d\<close>.\<close>

definition full_log :: "world \<Rightarrow> ptr \<Rightarrow> addr \<Rightarrow> (nat \<Rightarrow> byte) \<Rightarrow> bool" where
  "full_log w e d f \<longleftrightarrow>
     (let x = idxs w e in e_policy x = REDO \<and> e_offset x = 0 \<and> e_len x = LOG_SIZE (log_size x) \<and> dst x = d \<and>
      (\<forall>i < LOG_SIZE (log_size x). bytes (mem w) (log x + i) = f i))"

lemma full_log_view: "full_log w e d f \<Longrightarrow> i < LOG_SIZE (log_size (idxs w e)) \<Longrightarrow> entry_view w e blk i = f i"
  by (simp add: full_log_def Let_def entry_view_def redo_view_def in_range_def)

lemma write_entry_full:
  assumes E: "pmem_copies E" and inv: "entry_inv w M e blk K" and p: "policy (mmios w M) = REDO"
    and S: "LOG_SIZE (log_size (idxs w e)) = S" and off: "S dvd off" and n: "S \<le> n" and d: "S dvd d" "d < 2 ^ 64"
    and src: "accessible (mem w) src S" "disjoint_ranges src S blk K" "disjoint_ranges src S (log (idxs w e)) S"
  shows "\<exists>w'. write_entry E M e off d src n w = Inr (S, w') \<and> touches_only e blk K w w' \<and> full_log w' e d (\<lambda>i. bytes (mem w) (src + i))"
proof -
  let ?old = "e_epoch (idxs w e) < epoch (mmios w M)"
  obtain w1 where w1: "(if ?old then checkpoint_entry E M e w else Inr w) = Inr w1" and t1: "touches_only e blk K w w1"
    and inv1: "entry_inv w1 M e blk K" and s1: "log (idxs w1 e) = log (idxs w e)" "log_size (idxs w1 e) = log_size (idxs w e)"
    and out: "\<And>a. a < blk \<or> blk + K \<le> a \<Longrightarrow> bytes (mem w1) a = bytes (mem w) a"
  proof (cases ?old)
    case True
    obtain w1 where "checkpoint_entry E M e w = Inr w1" "checkpointed w M e blk K w1" using checkpoint_entry_checkpointed [OF E inv] by blast
    then show thesis using that True checkpointed_inv [OF inv, of w1] by simp
  next
    case False
    then show thesis using that [of w] inv touches_only_refl by simp
  qed
  have m1: "mmios w1 = mmios w" "regions (mem w1) = regions (mem w)" using touches_onlyD [OF t1] by (simp_all add: only_entry_def)
  have ok1: "log_size (idxs w1 e) < NR_LOG_SIZES" "accessible (mem w1) (log (idxs w1 e)) S"
    using inv1 S s1 by (simp_all add: entry_inv_def entry_ok_def Let_def)
  have a1: "accessible (mem w1) src S" using src(1) m1(2) by (simp add: accessible_def)
  let ?w' = "FLUSH e (upd_entry e (\<lambda>x. (set_policy REDO (set_len S (set_offset 0 x)))\<lparr>dst := d AND LOG_MASK (log_size x)\<rparr>)
      (stored (log (idxs w1 e)) src S w1))"
  have run: "write_entry E M e off d src n w = Inr (S, ?w')"
    using w1 log_block_full [OF E, of w1 M e off n src d] p m1 s1 S off n ok1 a1 by (simp add: write_entry_def)
  have S22: "S < 2 ^ 22" using LOG_SIZE_le [OF ok1(1)] s1 S by simp
  have mask: "d AND LOG_MASK (log_size (idxs w e)) = d" using and_LOG_MASK [OF d(2) ok1(1)] d(1) s1 S by simp
  have sb: "bytes (mem w1) (src + i) = bytes (mem w) (src + i)" if "i < S" for i
    by (rule out) (use src(2) that in \<open>auto simp: disjoint_ranges_def\<close>)
  have "full_log ?w' e d (\<lambda>i. bytes (mem w) (src + i))"
    using S22 s1 S mask sb by (simp add: full_log_def Let_def stored_def mcpy_def)
  moreover have "touches_only e blk K w1 ?w'"
    using s1 S by (auto simp: touches_only_def only_entry_def Let_def stored_def mcpy_def)
  ultimately show ?thesis using run touches_only_trans [OF t1] by blast
qed

subsection \<open>Two whole blocks\<close>

text \<open>Two neighbouring blocks of the same size, both mapped and with an entry.\<close>

definition two_blocks :: "world \<Rightarrow> ptr \<Rightarrow> nat \<Rightarrow> ptr \<Rightarrow> ptr \<Rightarrow> bool" where
  "two_blocks w M off e1 e2 \<longleftrightarrow>
     (let S = bsize w M off in
      S dvd off \<and> off + 2 * S \<le> mapped_len (mmios w M) \<and> leaf_size w M (off + S) = leaf_size w M off \<and>
      entry_at w M off = Some e1 \<and> entry_at w M (off + S) = Some e2)"

lemma two_blocksD:
  assumes tb: "two_blocks w M off e1 e2" and inv: "file_inv LA w M"
  defines "S \<equiv> bsize w M off"
  shows "0 < S" "S \<le> 2 ^ 21" "S dvd off" "off + 2 * S \<le> mapped_len (mmios w M)" "entry_at w M off = Some e1" "entry_at w M (off + S) = Some e2"
    "bsize w M (off + S) = S" "LOG_SIZE (log_size (idxs w e1)) = S" "LOG_SIZE (log_size (idxs w e2)) = S" "e1 \<noteq> e2"
    "entry_inv w M e1 (start (mmios w M) + off) S" "entry_inv w M e2 (start (mmios w M) + off + S) S"
    "disjoint_ranges (log (idxs w e1)) S (log (idxs w e2)) S" "S dvd start (mmios w M)" "start (mmios w M) + off + 2 * S \<le> 2 ^ 64"
    "{log (idxs w e1)..<log (idxs w e1) + S} \<subseteq> LA" "{log (idxs w e2)..<log (idxs w e2) + S} \<subseteq> LA"
proof -
  let ?x = "off + S"
  show d: "S dvd off" and N: "off + 2 * S \<le> mapped_len (mmios w M)" and a1: "entry_at w M off = Some e1" and a2: "entry_at w M ?x = Some e2"
    using tb by (simp_all add: two_blocks_def Let_def S_def)
  show pos: "0 < S" by (simp add: S_def bsize_def)
  have o1: "off < mapped_len (mmios w M)" and o2: "?x < mapped_len (mmios w M)" using N pos by linarith+
  note b1 = block_entry [OF inv o1 a1] and b2 = block_entry [OF inv o2 a2]
  show sz: "bsize w M ?x = S" using tb by (simp add: two_blocks_def Let_def S_def bsize_def)
  show "S \<le> 2 ^ 21" using LOG_SIZE_le [OF b1(1)] by (simp add: S_def bsize_def)
  show "LOG_SIZE (log_size (idxs w e1)) = S" using b1(3) by (simp add: S_def bsize_def)
  show "LOG_SIZE (log_size (idxs w e2)) = S" using b2(3) sz by (simp add: bsize_def)
  have "boff w M off = off" "boff w M ?x = ?x" using d sz by (simp_all add: boff_def S_def [symmetric])
  moreover have "bpart w M off = S" "bpart w M ?x = S" using calculation N sz by (simp_all add: bpart_def S_def [symmetric])
  ultimately show "entry_inv w M e1 (start (mmios w M) + off) S" "entry_inv w M e2 (start (mmios w M) + off + S) S"
    using b1(4) b2(4) by (simp_all add: add.assoc)
  have "?x div S = off div S + 1" by (rule div_add_self2) (use pos in simp)
  then have "?x div S \<noteq> off div S" by simp
  then show ne: "e1 \<noteq> e2" using same_block_entry(1) [OF inv o1 a1 o2] a2 by (auto simp: S_def)
  have "logs_disjoint w e1 e2" using inv o1 o2 a1 a2 ne unfolding file_inv_def entries_ok_def by metis
  then show "disjoint_ranges (log (idxs w e1)) S (log (idxs w e2)) S" using b1(3) b2(3) sz by (simp add: logs_disjoint_def S_def bsize_def)
  have mo: "2 ^ 21 dvd start (mmios w M)" "end_addr (mmios w M) \<le> 2 ^ 64" "start (mmios w M) < end_addr (mmios w M)"
    using inv by (simp_all add: file_inv_def map_ok_def Let_def)
  show "S dvd start (mmios w M)" using LOG_SIZE_dvd [OF b1(1)] mo(1) dvd_trans by (auto simp: S_def bsize_def)
  show "start (mmios w M) + off + 2 * S \<le> 2 ^ 64" using N mo(2,3) by (simp add: mapped_len_def)
  show "{log (idxs w e1)..<log (idxs w e1) + S} \<subseteq> LA" "{log (idxs w e2)..<log (idxs w e2) + S} \<subseteq> LA"
    using b1(2) b2(2) sz by (simp_all add: entry_fits_def S_def)
qed

lemma full_log_frame:
  assumes f: "full_log w e d f" and t: "touches_only e' blk K w w'" and ne: "e \<noteq> e'"
    and dj: "disjoint_ranges (log (idxs w e)) (LOG_SIZE (log_size (idxs w e))) (log (idxs w e')) (LOG_SIZE (log_size (idxs w e')))"
      "disjoint_ranges (log (idxs w e)) (LOG_SIZE (log_size (idxs w e))) blk K"
  shows "full_log w' e d f"
proof -
  have i: "idxs w' e = idxs w e" using t ne by (simp add: touches_only_def only_entry_def Let_def)
  have "bytes (mem w') (log (idxs w e) + i) = bytes (mem w) (log (idxs w e) + i)" if "i < LOG_SIZE (log_size (idxs w e))" for i
    using t dj that by (auto simp: touches_only_def Let_def disjoint_ranges_def)
  then show ?thesis using f by (simp add: full_log_def Let_def i)
qed

lemma write_loop_two:
  assumes E: "pmem_copies E" and inv: "file_inv LA w M" and p: "policy (mmios w M) = REDO" and tb: "two_blocks w M off e1 e2"
    and S: "bsize w M off = S" and buf: "user_buffer LA w M buf (2 * S)"
  obtains w1 w2 where "write_loop E M [e2, e1] off (start (mmios w M) + off) buf (2 * S) 0 w = Inr (2 * S, w2)"
    and "touches_only e2 (start (mmios w M) + off + S) S w w1" and "touches_only e1 (start (mmios w M) + off) S w1 w2"
    and "full_log w2 e1 (start (mmios w M) + off + S) (\<lambda>i. bytes (mem w) (buf + S + i))"
    and "full_log w2 e2 (start (mmios w M) + off) (\<lambda>i. bytes (mem w) (buf + i))"
proof -
  let ?st = "start (mmios w M)" and ?m = "mmios w M"
  note t = two_blocksD [OF tb inv, unfolded S]
  have map: "{?st..<end_addr ?m} \<inter> LA = {}" "?st < end_addr ?m" using inv by (simp_all add: file_inv_def map_ok_def Let_def)
  have ub: "accessible (mem w) buf (2 * S)" "{buf..<buf + 2 * S} \<inter> LA = {}" "disjoint_ranges buf (2 * S) ?st (mapped_len ?m)"
    using buf by (simp_all add: user_buffer_def)
  have acc: "accessible (mem w) buf S" "accessible (mem w) (buf + S) S" using ub(1) by (auto intro: accessible_sub)
  have logd: "disjoint_ranges b S (log (idxs w e)) S" if "{log (idxs w e)..<log (idxs w e) + S} \<subseteq> LA" "{b..<b + S} \<subseteq> {buf..<buf + 2 * S}" for b e
  proof -
    have "{b..<b + S} \<inter> LA = {}" using that(2) ub(2) by blast
    then show ?thesis unfolding disjoint_ranges_sym [of b] using t(1) by (intro LA_disjoint [OF that(1)])
  qed
  have h: "{buf..<buf + S} \<subseteq> {buf..<buf + 2 * S}" "{buf + S..<buf + S + S} \<subseteq> {buf..<buf + 2 * S}" by auto
  have fd: "disjoint_ranges b S (?st + o') S" if "{b..<b + S} \<subseteq> {buf..<buf + 2 * S}" "o' + S \<le> mapped_len ?m" for b o'
    using ub(3) that t(1) by (auto simp: disjoint_ranges_def)
  have r1: "\<exists>w1. write_entry E M e2 off (?st + off) buf (2 * S) w = Inr (S, w1) \<and> touches_only e2 (?st + off + S) S w w1 \<and>
      full_log w1 e2 (?st + off) (\<lambda>i. bytes (mem w) (buf + i))"
    by (rule write_entry_full [OF E t(12) p t(9) t(3)]) (use t acc logd [OF t(17) h(1)] fd [OF h(1), of "off + S"] in \<open>simp_all add: add.assoc\<close>)
  then obtain w1 where w1: "write_entry E M e2 off (?st + off) buf (2 * S) w = Inr (S, w1)" "touches_only e2 (?st + off + S) S w w1"
    "full_log w1 e2 (?st + off) (\<lambda>i. bytes (mem w) (buf + i))" by blast
  have o1: "regions (mem w1) = regions (mem w)" "mmios w1 = mmios w" "idxs w1 e1 = idxs w e1"
    using w1(2) t(10) by (simp_all add: touches_only_def only_entry_def Let_def)
  have i1: "entry_inv w1 M e1 (?st + off) S" using t(11) o1 by (simp add: entry_inv_def entry_ok_def Let_def accessible_def)
  have b1: "bytes (mem w1) (buf + S + i) = bytes (mem w) (buf + S + i)" if "i < S" for i
    using w1(2) that t(9) logd [OF t(17) h(2)] fd [OF h(2), of "off + S"] t(4)
    by (auto simp: touches_only_def Let_def disjoint_ranges_def add.assoc)
  have "\<exists>w2. write_entry E M e1 (off + S) (?st + off + S) (buf + S) S w1 = Inr (S, w2) \<and> touches_only e1 (?st + off) S w1 w2 \<and>
      full_log w2 e1 (?st + off + S) (\<lambda>i. bytes (mem w1) (buf + S + i))"
    by (rule write_entry_full [OF E i1])
      (use t acc logd [OF t(16) h(2)] fd [OF h(2), of off] o1 p in \<open>simp_all add: accessible_def\<close>)
  then obtain w2 where w2: "write_entry E M e1 (off + S) (?st + off + S) (buf + S) S w1 = Inr (S, w2)" "touches_only e1 (?st + off) S w1 w2"
    "full_log w2 e1 (?st + off + S) (\<lambda>i. bytes (mem w1) (buf + S + i))" by blast
  have "full_log w2 e1 (?st + off + S) (\<lambda>i. bytes (mem w) (buf + S + i))"
    using w2(3) b1 touches_only_world(12) [OF w2(2), of e1] o1(3) t(8) by (simp add: full_log_def Let_def)
  moreover have s2: "log (idxs w1 e2) = log (idxs w e2)" "log_size (idxs w1 e2) = log_size (idxs w e2)"
    using touches_only_world(11,12) [OF w1(2), of e2] by simp_all
  have "{?st + off..<?st + off + S} \<subseteq> {?st..<end_addr ?m}" using t(4) map(2) by (auto simp: mapped_len_def)
  then have "{?st + off..<?st + off + S} \<inter> LA = {}" using map(1) by blast
  then have "disjoint_ranges (log (idxs w e2)) S (?st + off) S" using t(1) by (intro LA_disjoint [OF t(17)])
  then have "full_log w2 e2 (?st + off) (\<lambda>i. bytes (mem w) (buf + i))"
    using full_log_frame [OF w1(3) w2(2)] t(8,9,10,13) s2 o1(3) disjoint_ranges_sym by metis
  moreover have "write_loop E M [e2, e1] off (?st + off) buf (2 * S) 0 w = Inr (2 * S, w2)" using w1(1) w2(1) by simp
  ultimately show thesis using that w1(2) w2(2) by blast
qed

subsection \<open>The whole requests\<close>

lemma UNLOCK_ENTRIES_Cons:
  assumes "trylock k RWLOCK_INIT = Some (rwlockp (idxs w e))"
  shows "UNLOCK_ENTRIES (e # es) w = UNLOCK_ENTRIES es (upd_entry e (\<lambda>x. x\<lparr>rwlockp := RWLOCK_INIT\<rparr>) w)"
  using unlock_acquired [OF assms] by (simp add: UNLOCK_ENTRIES_def)

lemma UNLOCK_ENTRIES_Nil: "UNLOCK_ENTRIES [] w = Inr w"
  by (simp add: UNLOCK_ENTRIES_def)

lemma LOCK_ENTRIES_two:
  assumes inv: "file_inv LA w M" and u: "unlocked_but None w M" and tb: "two_blocks w M off e1 e2" and S: "bsize w M off = S"
    and l: "trylock k RWLOCK_INIT = Some l"
  obtains w1 w2 where "LOCK_ENTRIES k t M (int (2 * S)) off [] w = Inr ([e2, e1], w2)"
    and "locked_old M e1 l w w1" and "locked_old M e2 l w1 w2"
proof -
  note t = two_blocksD [OF tb inv, unfolded S]
  have o: "off < mapped_len (mmios w M)" "off + S < mapped_len (mmios w M)" using t(1,4) by linarith+
  have free: "rwlockp (idxs w e1) = RWLOCK_INIT" "rwlockp (idxs w e2) = RWLOCK_INIT" using u t(5,6) o unfolding unlocked_but_def by blast+
  note sz = block_entry(3) [OF inv o(1) t(5)] block_entry(3) [OF inv o(2) t(6)]
  have lv: "leaves_ok w M" using inv by (simp add: file_inv_def)
  have z: "off mod S = 0" using t(3) by simp
  obtain w1 where w1: "LOCK_ENTRIES k t M (int (2 * S)) off [] w = LOCK_ENTRIES k t M (int (2 * S) - int (S - off mod S)) (ul (off + (S - off mod S))) [e1] w1"
    "locked_old M e1 l w w1"
    by (rule LOCK_ENTRIES_old [OF lv t(5) sz(1), of k l "int (2 * S)" "[]" t]) (use l free t(1) in \<open>simp_all add: S\<close>)
  note f = locked_old_fields [OF w1(2)]
  have nx: "int (2 * S) - int (S - off mod S) = int S" "ul (off + (S - off mod S)) = off + S"
    using z mapped_len_le [OF inv] o by simp_all
  obtain w2 where w2: "LOCK_ENTRIES k t M (int S) (off + S) [e1] w1 = LOCK_ENTRIES k t M (int S - int (S - (off + S) mod S)) (ul (off + S + (S - (off + S) mod S))) [e2, e1] w2"
    "locked_old M e2 l w1 w2"
    by (rule LOCK_ENTRIES_old [OF f(4), of "off + S" e2 k l "int S" "[e1]" t]) (use t free sz l in \<open>simp_all add: f(1,2,3,7)\<close>)
  have "LOCK_ENTRIES k t M (int (2 * S)) off [] w = Inr ([e2, e1], w2)"
    unfolding w1(1) nx w2(1) by (rule LOCK_ENTRIES_done) (use t(3) in simp)
  then show thesis using that w1(2) w2(2) by blast
qed

lemma two_blocks_cong:
  "entry_at w' M = entry_at w M \<Longrightarrow> leaf_size w' M = leaf_size w M \<Longrightarrow> mapped_len (mmios w' M) = mapped_len (mmios w M) \<Longrightarrow>
    two_blocks w' M off e1 e2 = two_blocks w M off e1 e2"
  by (simp add: two_blocks_def bsize_def Let_def)

text \<open>
  The state between two requests, as far as a request for blocks that have an entry needs it:
  the tree is in order and nothing is locked. The entries may hold logs of other blocks.
\<close>

definition calm :: "tid \<Rightarrow> world \<Rightarrow> ptr \<Rightarrow> bool" where
  "calm t w M \<longleftrightarrow> leaves_ok w M \<and> lock_idle t M w \<and> unlocked_but None w M"

lemma write_two_begin:
  assumes rdy: "ready LA t w M" and tb: "two_blocks w M off e1 e2" and S: "bsize w M off = S"
  obtains w1 w2 l b r where "mm_read_lock t M w = Inr w1" and "\<not> check_expend (mmios w1 M) off (2 * S)"
    and "LOCK_ENTRIES WR t M (int (2 * S)) off [] w1 = Inr ([e2, e1], w2)"
    and "trylock WR RWLOCK_INIT = Some l" and "file_inv LA w2 M" and "entry_at w2 M = entry_at w M" and "leaf_size w2 M = leaf_size w M"
    and "mem w2 = mem w" and "read_held t M w2" and "mmios w2 M = (mmios w M)\<lparr>rwlock := b, radixlog := r\<rparr>"
    and "idxs w2 = (idxs w)(e1 := (idxs w e1)\<lparr>rwlockp := l\<rparr>, e2 := (idxs w e2)\<lparr>rwlockp := l\<rparr>)"
proof -
  have inv: "file_inv LA w M" and u: "unlocked_but None w M" and idle: "lock_idle t M w" using rdy by (simp_all add: ready_def)
  note tD = two_blocksD [OF tb inv, unfolded S]
  obtain w1 where w1: "mm_read_lock t M w = Inr w1" "relocked M w w1" "read_held t M w1" by (rule mm_read_lock_idle [OF idle])
  note s1 = relocked_world [OF w1(2)] and q1 = same_index_eqs [OF relocked_world(1) [OF w1(2)]]
  have inv1: "file_inv LA w1 M" "unlocked_but None w1 M" using inv u by (simp_all add: q1)
  have ne: "\<not> check_expend (mmios w1 M) off (2 * S)" using no_expend [OF inv1(1)] tD(4) by (simp add: q1)
  obtain l where l: "trylock WR RWLOCK_INIT = Some l" using trylock_init by blast
  have tb1: "two_blocks w1 M off e1 e2" "bsize w1 M off = S" using two_blocks_cong [OF q1(1,2,4)] tb S by (simp_all add: q1)
  obtain wa w2 where lk: "LOCK_ENTRIES WR t M (int (2 * S)) off [] w1 = Inr ([e2, e1], w2)" "locked_old M e1 l w1 wa" "locked_old M e2 l wa w2"
    by (rule LOCK_ENTRIES_two [OF inv1 tb1 l])
  note fa = locked_old_fields [OF lk(2)] and f2 = locked_old_fields [OF lk(3)]
  obtain r where m2: "mmios w2 M = (mmios w1 M)\<lparr>radixlog := r\<rparr>" using lk(2,3) by (auto simp: locked_old_def)
  obtain b where m1: "mmios w1 M = (mmios w M)\<lparr>rwlock := b\<rparr>" using w1(2) by (auto simp: relocked_def)
  show thesis
  proof (rule that [OF w1(1) ne lk(1) l])
    show "file_inv LA w2 M" using fa(8) f2(8) inv1(1) by blast
    show "read_held t M w2" using w1(3) read_held_cong [of w2 w1 M t] fa(6) f2(6) by (simp add: m2)
    show "mmios w2 M = (mmios w M)\<lparr>rwlock := b, radixlog := r\<rparr>" by (simp add: m2 m1)
    show "idxs w2 = (idxs w)(e1 := (idxs w e1)\<lparr>rwlockp := l\<rparr>, e2 := (idxs w e2)\<lparr>rwlockp := l\<rparr>)"
      using tD(10) by (simp add: fa(7) f2(7) q1)
  qed (simp_all add: fa(1,2,5) f2(1,2,5) q1 s1)
qed

lemma write_two_end:
  assumes lv: "leaves_ok w M" and h: "read_held t M w" and ne: "e1 \<noteq> e2" and l: "trylock k RWLOCK_INIT = Some l"
    and lk: "rwlockp (idxs w e1) = l" "rwlockp (idxs w e2) = l"
    and free: "\<And>x q. x < mapped_len (mmios w M) \<Longrightarrow> entry_at w M x = Some q \<Longrightarrow> q \<notin> {e1, e2} \<Longrightarrow> rwlockp (idxs w q) = RWLOCK_INIT"
  obtains w1 w2 b where "UNLOCK_ENTRIES [e2, e1] w = Inr w1" and "mm_read_unlock t M w1 = Inr w2" and "calm t w2 M"
    and "entry_at w2 M = entry_at w M" and "leaf_size w2 M = leaf_size w M" and "mem w2 = mem w"
    and "mmios w2 M = (mmios w M)\<lparr>rwlock := b\<rparr>"
    and "idxs w2 = (idxs w)(e1 := (idxs w e1)\<lparr>rwlockp := RWLOCK_INIT\<rparr>, e2 := (idxs w e2)\<lparr>rwlockp := RWLOCK_INIT\<rparr>)"
proof -
  define w1 where "w1 = upd_entry e1 (\<lambda>x. x\<lparr>rwlockp := RWLOCK_INIT\<rparr>) (upd_entry e2 (\<lambda>x. x\<lparr>rwlockp := RWLOCK_INIT\<rparr>) w)"
  have ul: "UNLOCK_ENTRIES [e2, e1] w = Inr w1"
    using UNLOCK_ENTRIES_Cons [of k w e2 "[e1]"] UNLOCK_ENTRIES_Cons [of k "upd_entry e2 (\<lambda>x. x\<lparr>rwlockp := RWLOCK_INIT\<rparr>) w" e1 "[]"] l ne
    by (simp add: UNLOCK_ENTRIES_Nil w1_def lk)
  have "read_held t M w1" using h read_held_cong [of w1 w M t] by (simp add: w1_def)
  then obtain w2 where w2: "mm_read_unlock t M w1 = Inr w2" "relocked M w1 w2" "lock_idle t M w2" by (rule mm_read_unlock_held)
  note s = relocked_world [OF w2(2)] and q = same_index_eqs [OF relocked_world(1) [OF w2(2)]]
  obtain b where m: "mmios w2 M = (mmios w M)\<lparr>rwlock := b\<rparr>" using w2(2) by (auto simp: relocked_def w1_def)
  have i: "idxs w2 = (idxs w)(e1 := (idxs w e1)\<lparr>rwlockp := RWLOCK_INIT\<rparr>, e2 := (idxs w e2)\<lparr>rwlockp := RWLOCK_INIT\<rparr>)"
    using ne by (simp add: q w1_def fun_eq_iff)
  have tr: "tables w2 = tables w" "table_pool w2 = table_pool w" "radixlog (mmios w2 M) = radixlog (mmios w M)"
    using s(1) by (simp_all add: same_index_def Let_def w1_def)
  have ml: "mapped_len (mmios w2 M) = mapped_len (mmios w M)" by (simp add: m mapped_len_def)
  note st = same_tree [OF tr(1,3)]
  have "rwlockp (idxs w2 e) = RWLOCK_INIT" if "x < mapped_len (mmios w M)" "entry_at w M x = Some e" for x e
    using free [OF that] by (auto simp: i)
  then have "calm t w2 M" using w2(3) lv by (simp add: calm_def unlocked_but_def st(1) st(3) [OF tr(2) ml] ml)
  then show thesis using that [OF ul w2(1) _ st(1,2) _ m i] s(2) by (simp add: w1_def)
qed

lemma mmio_write_two:
  assumes E: "pmem_copies E" and rdy: "ready LA t w M" and p: "policy (mmios w M) = REDO" and tb: "two_blocks w M off e1 e2"
    and S: "bsize w M off = S" and buf: "user_buffer LA w M buf (2 * S)"
  obtains w' where "mmio_write E t M fd off buf (2 * S) w = Inr (2 * S, w')"
    and "full_log w' e1 (start (mmios w M) + off + S) (\<lambda>i. bytes (mem w) (buf + S + i))"
    and "full_log w' e2 (start (mmios w M) + off) (\<lambda>i. bytes (mem w) (buf + i))"
    and "calm t w' M" and "entry_at w' M = entry_at w M" and "leaf_size w' M = leaf_size w M"
    and "regions (mem w') = regions (mem w)" and "\<forall>q. log (idxs w' q) = log (idxs w q) \<and> log_size (idxs w' q) = log_size (idxs w q)"
    and "start (mmios w' M) = start (mmios w M)" and "policy (mmios w' M) = REDO" and "int off + int (2 * S) \<le> fsize (mmios w' M)"
    and "mapped_len (mmios w' M) = mapped_len (mmios w M)"
proof -
  have inv: "file_inv LA w M" and u: "unlocked_but None w M" using rdy by (simp_all add: ready_def)
  note tD = two_blocksD [OF tb inv, unfolded S]
  obtain w1 w2 l b r where w1: "mm_read_lock t M w = Inr w1" and ne: "\<not> check_expend (mmios w1 M) off (2 * S)"
    and lk: "LOCK_ENTRIES WR t M (int (2 * S)) off [] w1 = Inr ([e2, e1], w2)" and l: "trylock WR RWLOCK_INIT = Some l"
    and inv2: "file_inv LA w2 M" and at2: "entry_at w2 M = entry_at w M" "leaf_size w2 M = leaf_size w M" "mem w2 = mem w"
    and h2: "read_held t M w2" and m2: "mmios w2 M = (mmios w M)\<lparr>rwlock := b, radixlog := r\<rparr>"
    and i2: "idxs w2 = (idxs w)(e1 := (idxs w e1)\<lparr>rwlockp := l\<rparr>, e2 := (idxs w e2)\<lparr>rwlockp := l\<rparr>)"
    by (rule write_two_begin [OF rdy tb S])
  have ci: "c_int (int (2 * S)) = int (2 * S)" using tD(2) by (intro c_int_small) simp_all
  have ml2: "mapped_len (mmios w2 M) = mapped_len (mmios w M)" by (simp add: m2 mapped_len_def)
  have pre: "policy (mmios w2 M) = REDO" "two_blocks w2 M off e1 e2" "bsize w2 M off = S" "user_buffer LA w2 M buf (2 * S)"
    using p tb S buf two_blocks_cong [OF at2(1,2) ml2] by (simp_all add: m2 bsize_def at2 user_buffer_def)
  obtain wb w3 where lp: "write_loop E M [e2, e1] off (start (mmios w2 M) + off) buf (2 * S) 0 w2 = Inr (2 * S, w3)"
    and tt: "touches_only e2 (start (mmios w2 M) + off + S) S w2 wb" "touches_only e1 (start (mmios w2 M) + off) S wb w3"
    and fl: "full_log w3 e1 (start (mmios w2 M) + off + S) (\<lambda>i. bytes (mem w2) (buf + S + i))"
      "full_log w3 e2 (start (mmios w2 M) + off) (\<lambda>i. bytes (mem w2) (buf + i))"
    by (rule write_loop_two [OF E inv2 pre])
  note tw = touches_only_world [OF tt(1)] touches_only_world [OF tt(2)]
  have o3: "bravo w3 = bravo w2" "mmios w3 = mmios w2" "\<And>q. rwlockp (idxs w3 q) = rwlockp (idxs w2 q)"
    using tt by (auto simp: touches_only_def only_entry_def Let_def) metis
  have at3: "entry_at w3 M = entry_at w M" "leaf_size w3 M = leaf_size w M" "leaves_ok w3 M"
    using inv2 by (simp_all only: tw at2 file_inv_def)
  define w5 where "w5 = upd_mmio M (\<lambda>m. if fsize m < int off + int (2 * S) then m\<lparr>fsize := int off + int (2 * S)\<rparr> else m)
     (FENCE (upd_mmio M (\<lambda>m. m\<lparr>write_cnt := increase_counter (write_cnt m)\<rparr>) w3))"
  have s5: "same_index M w3 w5" by (simp add: same_index_def Let_def w5_def)
  have i5: "idxs w5 = idxs w3" "mem w5 = mem w3" by (simp_all add: w5_def)
  have m5: "start (mmios w5 M) = start (mmios w M)" "policy (mmios w5 M) = REDO" "int off + int (2 * S) \<le> fsize (mmios w5 M)"
    "mapped_len (mmios w5 M) = mapped_len (mmios w M)" using p by (simp_all add: w5_def o3 m2 mapped_len_def)
  have at5: "entry_at w5 M = entry_at w M" "leaf_size w5 M = leaf_size w M" "leaves_ok w5 M"
    using same_index_eqs(1,2) [OF s5] at3 same_tree(3) [of w5 w3 M] s5 by (simp_all add: same_index_def Let_def mapped_len_def)
  have "read_held t M w5" using h2 read_held_cong [of w5 w2 M t] by (simp add: w5_def o3)
  moreover have "rwlockp (idxs w5 e1) = l" "rwlockp (idxs w5 e2) = l" using tD(10) by (simp_all add: i5 o3 i2)
  moreover have "rwlockp (idxs w5 q) = RWLOCK_INIT" if "x < mapped_len (mmios w5 M)" "entry_at w5 M x = Some q" "q \<notin> {e1, e2}" for x q
    using u that by (auto simp: i5 o3 i2 at5 m5 unlocked_but_def)
  ultimately obtain w6 w7 b' where e: "UNLOCK_ENTRIES [e2, e1] w5 = Inr w6" "mm_read_unlock t M w6 = Inr w7" "calm t w7 M"
      "entry_at w7 M = entry_at w5 M" "leaf_size w7 M = leaf_size w5 M" "mem w7 = mem w5" "mmios w7 M = (mmios w5 M)\<lparr>rwlock := b'\<rparr>"
    and i7: "idxs w7 = (idxs w5)(e1 := (idxs w5 e1)\<lparr>rwlockp := RWLOCK_INIT\<rparr>, e2 := (idxs w5 e2)\<lparr>rwlockp := RWLOCK_INIT\<rparr>)"
    by (rule write_two_end [OF at5(3) _ tD(10) l])
  define n where "n = 2 * S"
  have run: "mmio_write E t M fd off buf (2 * S) w = Inr (2 * S, w7)"
    using w1 ne ci lk lp e(1,2) pre(1) o3(2) unfolding mmio_write_def Let_def w5_def n_def [symmetric]
    by (simp del: write_loop.simps)
  have full: "full_log w7 e d f = full_log w3 e d f" for e d f by (simp add: full_log_def Let_def i7 i5 e(6))
  have "\<forall>q. log (idxs w7 q) = log (idxs w q) \<and> log_size (idxs w7 q) = log_size (idxs w q)" by (simp add: i7 i5 tw i2)
  moreover have "regions (mem w7) = regions (mem w)" by (simp add: e(6) i5 tw at2)
  moreover have "start (mmios w2 M) = start (mmios w M)" by (simp add: m2)
  ultimately show thesis using that [OF run] fl m5 e(3-5,7) at5 by (simp add: full at2 mapped_len_def)
qed

text \<open>Reading back the first of the two blocks: the whole log is copied to the buffer.\<close>

lemma read_entry_full:
  assumes f: "full_log w e d' f" and S: "LOG_SIZE (log_size (idxs w e)) = S" and off: "S dvd off"
    and acc: "accessible (mem w) d S" "accessible (mem w) (log (idxs w e)) S"
  shows "read_entry e d fa off S w = Inr (d + S, off + S, 0, filled d S f w)"
proof -
  have S0: "0 < S" unfolding S [symmetric] by simp
  have "LOG_OFFSET off (log_size (idxs w e)) = 0" using off S by (simp add: LOG_OFFSET_mod)
  from read_entry_eq [OF this, of S fa "fa + off" d] have "read_entry e d fa off S w =
      bindE (w_memcpy d (log (idxs w e)) S w) (\<lambda>w. Inr (d + S, off + S, 0, w))"
    using f S S0 by (cases "w_memcpy d (log (idxs w e)) S w") (simp_all add: full_log_def Let_def)
  also have "w_memcpy d (log (idxs w e)) S w = Inr (filled d S f w)"
    using w_memcpy_filled [OF acc] f S filled_cong [of S "\<lambda>j. bytes (mem w) (log (idxs w e) + j)" f d w]
    by (simp add: full_log_def Let_def)
  finally show ?thesis by simp
qed

lemma mmio_read_full:
  assumes c: "calm t w M" and f: "full_log w e d f" and at: "entry_at w M off = Some e" and S: "bsize w M off = S"
    and ls: "log_size (idxs w e) = leaf_size w M off" and off: "S dvd off" "off < mapped_len (mmios w M)" and S31: "S < 2 ^ 31"
    and p: "policy (mmios w M) = REDO" and fs: "int off + int S \<le> fsize (mmios w M)"
    and acc: "accessible (mem w) buf S" "accessible (mem w) (log (idxs w e)) S"
  shows "\<exists>w'. mmio_read t M off buf S w = Inr (S, w') \<and> (\<forall>i < S. bytes (mem w') (buf + i) = f i)"
proof -
  have lv: "leaves_ok w M" and u: "unlocked_but None w M" and idle: "lock_idle t M w" using c by (simp_all add: calm_def)
  obtain w1 where w1: "mm_read_lock t M w = Inr w1" "relocked M w w1" "read_held t M w1" by (rule mm_read_lock_idle [OF idle])
  note s1 = relocked_world [OF w1(2)] and q1 = same_index_eqs [OF relocked_world(1) [OF w1(2)]]
  have S0: "0 < S" unfolding S [symmetric] by (simp add: bsize_def)
  have ci: "c_int (int S) = int S" using S31 by (intro c_int_small) simp_all
  obtain l where l: "trylock RD RWLOCK_INIT = Some l" using trylock_init by blast
  have fr: "rwlockp (idxs w1 e) = RWLOCK_INIT" using u at off(2) by (auto simp: unlocked_but_def q1)
  have "leaves_ok w1 M = leaves_ok w M" using s1(1) by (intro same_tree(3)) (simp_all add: same_index_def Let_def mapped_len_def)
  then have at1: "leaves_ok w1 M" "entry_at w1 M off = Some e" "log_size (idxs w1 e) = leaf_size w1 M off" "bsize w1 M off = S"
    using lv at ls S by (simp_all add: q1)
  obtain w2 where lk: "LOCK_ENTRIES RD t M (int S) off [] w1 =
      LOCK_ENTRIES RD t M (int S - int (S - off mod S)) (ul (off + (S - off mod S))) [e] w2" "locked_old M e l w1 w2"
    by (rule LOCK_ENTRIES_old [OF at1(1-3), of RD l "int S" "[]" t]) (use l fr S0 in \<open>simp_all add: at1(4)\<close>)
  have lk2: "LOCK_ENTRIES RD t M (int S) off [] w1 = Inr ([e], w2)"
    unfolding lk(1) by (rule LOCK_ENTRIES_done) (use off(1) in simp)
  note f2 = locked_old_fields [OF lk(2)]
  obtain r where m2: "mmios w2 M = (mmios w1 M)\<lparr>radixlog := r\<rparr>" using lk(2) by (auto simp: locked_old_def)
  have i2: "idxs w2 e = (idxs w e)\<lparr>rwlockp := l\<rparr>" "mem w2 = mem w" by (simp_all add: f2(5,7) q1 s1)
  have fl: "full_log w2 e d f" using f by (simp add: full_log_def Let_def i2)
  have sz: "LOG_SIZE (log_size (idxs w e)) = S" using ls S by (simp add: bsize_def)
  have rd: "read_entry e buf (start (mmios w2 M)) off S w2 = Inr (buf + S, off + S, 0, filled buf S f w2)"
    by (rule read_entry_full [OF fl]) (use sz off(1) acc i2 in simp_all)
  have nf: "\<not> check_fsize (mmios w2 M) off S" and pw: "policy (mmios w2 M) = REDO" using fs p by (simp_all add: check_fsize_def m2 q1 s1)
  define w4 where "w4 = upd_mmio M (\<lambda>m. m\<lparr>read_cnt := increase_counter (read_cnt m)\<rparr>) (filled buf S f w2)"
  define w5 where "w5 = upd_entry e (\<lambda>x. x\<lparr>rwlockp := RWLOCK_INIT\<rparr>) w4"
  have ul: "UNLOCK_ENTRIES [e] w4 = Inr w5"
    using UNLOCK_ENTRIES_Cons [of RD w4 e "[]"] l by (simp add: UNLOCK_ENTRIES_Nil w5_def) (simp add: w4_def filled_def i2)
  have "read_held t M w5" using w1(3) read_held_cong [of w5 w1 M t] f2(6) by (simp add: w5_def w4_def filled_def m2)
  then obtain w6 where w6: "mm_read_unlock t M w5 = Inr w6" "relocked M w5 w6" by (rule mm_read_unlock_held)
  have "mmio_read t M off buf S w = Inr (S, w6)"
    unfolding mmio_read_def Let_def by (simp add: w1(1) ci lk2 nf pw rd w4_def [symmetric] ul w6(1))
  moreover have "bytes (mem w6) (buf + i) = f i" if "i < S" for i
    using that relocked_world(2) [OF w6(2)] by (simp add: w5_def w4_def filled_def overlay_def)
  ultimately show ?thesis by blast
qed

lemma aligned_div:
  fixes x i S :: nat
  assumes "S dvd x" and "i < S"
  shows "(x + i) div S = x div S" and "(x + i) mod S = i"
  using assms by (auto elim!: dvdE)

text \<open>
  C16: A redo-logged write of two whole neighbouring blocks that both have an entry
  (\<^verbatim>\<open>mmio_write\<close> with \<^verbatim>\<open>LOCK_ENTRIES\<close>) returns the whole length, but exchanges the two halves:
  the list of locked entries is in the order of a stack, and the copies go through it while
  the offset goes upwards. The log of the first block then holds the second half of the
  buffer, with the destination of the second block, and the other way round; so every byte
  of the two blocks reads as the byte of the other half, and a read of the first block
  (\<^verbatim>\<open>mmio_read\<close>) into any accessible buffer returns the second half of what was written. Only
  a checkpoint, which follows the recorded destinations, puts the halves where they belong.
\<close>

theorem mmio_write_two_blocks:
  assumes "pmem_copies E" and "ready LA t w M" and "policy (mmios w M) = REDO" and "two_blocks w M off e1 e2"
    and "S = bsize w M off" and "user_buffer LA w M buf (2 * S)" and "accessible (mem w) buf' S"
  shows "\<exists>w'. mmio_write E t M fd off buf (2 * S) w = Inr (2 * S, w') \<and>
    (\<forall>i < S. content w' M (off + i) = bytes (mem w) (buf + S + i) \<and> content w' M (off + S + i) = bytes (mem w) (buf + i)) \<and>
    dst (idxs w' e1) = start (mmios w M) + off + S \<and> dst (idxs w' e2) = start (mmios w M) + off \<and>
    (\<exists>w2. mmio_read t M off buf' S w' = Inr (S, w2) \<and> (\<forall>i < S. bytes (mem w2) (buf' + i) = bytes (mem w) (buf + S + i)))"
proof -
  have S: "bsize w M off = S" using assms(5) by simp
  have inv: "file_inv LA w M" using assms(2) by (simp add: ready_def)
  note t = two_blocksD [OF assms(4) inv, unfolded S]
  obtain w' where w': "mmio_write E t M fd off buf (2 * S) w = Inr (2 * S, w')"
    and f: "full_log w' e1 (start (mmios w M) + off + S) (\<lambda>i. bytes (mem w) (buf + S + i))"
      "full_log w' e2 (start (mmios w M) + off) (\<lambda>i. bytes (mem w) (buf + i))"
    and c: "calm t w' M" and at: "entry_at w' M = entry_at w M" "leaf_size w' M = leaf_size w M"
    and m: "regions (mem w') = regions (mem w)" "\<forall>q. log (idxs w' q) = log (idxs w q) \<and> log_size (idxs w' q) = log_size (idxs w q)"
      "start (mmios w' M) = start (mmios w M)" "policy (mmios w' M) = REDO" "int off + int (2 * S) \<le> fsize (mmios w' M)"
      "mapped_len (mmios w' M) = mapped_len (mmios w M)"
    by (rule mmio_write_two [OF assms(1-4) S assms(6), of fd])
  have o: "off < mapped_len (mmios w M)" "off + S < mapped_len (mmios w M)" using t(1,4) by linarith+
  have b': "bsize w' M x = bsize w M x" for x by (simp add: bsize_def at)
  have same: "entry_at w M (off + i) = Some e1" "bsize w M (off + i) = S" "entry_at w M (off + S + i) = Some e2" "bsize w M (off + S + i) = S"
    if "i < S" for i
  proof -
    have d: "(off + i) div S = off div S" "(off + S + i) div S = (off + S) div S" and l: "off + i < mapped_len (mmios w M)" "off + S + i < mapped_len (mmios w M)"
      using aligned_div [OF t(3) that] aligned_div [OF _ that, of "off + S"] that t(3,4) by simp_all
    note b1 = same_block_entry [OF inv o(1) t(5) l(1)] and b2 = same_block_entry [OF inv o(2) t(6) l(2)]
    show "entry_at w M (off + i) = Some e1" "bsize w M (off + i) = S" using b1 d(1) S by (simp_all add: bsize_def)
    show "entry_at w M (off + S + i) = Some e2" "bsize w M (off + S + i) = S" using b2 d(2) t(7) by (simp_all add: bsize_def)
  qed
  have "content w' M (off + i) = bytes (mem w) (buf + S + i) \<and> content w' M (off + S + i) = bytes (mem w) (buf + i)" if "i < S" for i
  proof -
    have "(off + i) mod S = i" "(off + S + i) mod S = i" using aligned_div(2) [OF _ that] t(3) by simp_all
    then show ?thesis using same [OF that] that t(8,9) m(2) full_log_view [OF f(1), of i] full_log_view [OF f(2), of i]
      by (simp add: content_def at b')
  qed
  moreover have "\<exists>w2. mmio_read t M off buf' S w' = Inr (S, w2) \<and> (\<forall>i < S. bytes (mem w2) (buf' + i) = bytes (mem w) (buf + S + i))"
  proof (rule mmio_read_full [OF c f(1)])
    show "log_size (idxs w' e1) = leaf_size w' M off" using block_entry(3) [OF inv o(1) t(5)] m(2) at by simp
    show "accessible (mem w') (log (idxs w' e1)) S" "accessible (mem w') buf' S"
      using t(8,11) assms(7) m(1,2) by (simp_all add: entry_inv_def entry_ok_def Let_def accessible_def)
  qed (use t(2,3,5) o m at b' S in simp_all)
  moreover have "dst (idxs w' e1) = start (mmios w M) + off + S" "dst (idxs w' e2) = start (mmios w M) + off"
    using f by (simp_all add: full_log_def Let_def)
  ultimately show ?thesis using w' by blast
qed

subsection \<open>An example\<close>

text \<open>The example file with a second entry (address 71), for the second block of the file.\<close>

definition ex_table2 :: log_table where
  "ex_table2 = ex_table\<lparr>entries := (\<lambda>_. None)(0 := Some 70, 1 := Some 71)\<rparr>"

definition ex_two :: world where
  "ex_two = (ex_world REDO)\<lparr>tables := (tables (ex_world REDO))(50 := ex_table2),
     idxs := (\<lambda>e. ex_entry\<lparr>log := if e = 71 then 2 ^ 14 + 4096 else 2 ^ 14\<rparr>),
     mem := (mem (ex_world REDO))\<lparr>bytes := \<lambda>a. of_nat (a div 4096)\<rparr>\<rparr>"

lemma ex_two_sel [simp]:
  "e_epoch (idxs ex_two e) = 0" "e_offset (idxs ex_two e) = 0" "e_len (idxs ex_two e) = 0" "e_policy (idxs ex_two e) = UNDO"
  "log (idxs ex_two e) = (if e = 71 then 2 ^ 14 + 4096 else 2 ^ 14)" "log_size (idxs ex_two e) = 0"
  "rwlockp (idxs ex_two e) = RWLOCK_INIT" "mmios ex_two = mmios (ex_world REDO)" "regions (mem ex_two) = [(0, 2 ^ 22)]"
  "bytes (mem ex_two) a = of_nat (a div 4096)" "tables ex_two 50 = ex_table2" "x \<noteq> 50 \<Longrightarrow> entries (tables ex_two x) = (\<lambda>_. None)"
  "table_pool ex_two = two_objects" "idx_pool ex_two = empty_pool NR_NODE_FILL" "log_pool ex_two s = empty_pool NR_NODE_FILL"
  "bravo ex_two = bravo (ex_world REDO)"
  by (simp_all add: ex_two_def ex_entry_def e_epoch_def e_offset_def e_len_def e_policy_def bf_get_def)

lemma ex_two_index [simp]:
  "find_log_table ex_two ex_root off = Some 50" "leaf_size ex_two M off = 0" "bsize ex_two M off = 4096"
  "entry_at ex_two M off = (if TABLE_INDEX 0 off = 0 then Some 70 else if TABLE_INDEX 0 off = 1 then Some 71 else None)"
  by (simp_all add: find_log_table_def leaf_size_def entry_at_def child_def bsize_def LOG_SIZE_eq)
    (simp_all add: ex_table2_def ex_table_def NR_LOG_SIZES_def child_def)

lemma ex_block: "off < 2 ^ 21 \<Longrightarrow> TABLE_INDEX 0 off = off div 4096"
  using TABLE_INDEX_eq [of 0 off] by (simp add: NR_LOG_SIZES_def LOG_SIZE_eq)

lemma ex_boff:
  assumes "off div 4096 = Suc 0"
  shows "off - off mod 4096 = (4096::nat)" and "2097152 + off - off mod 4096 = (2101248::nat)"
  using assms div_mult_mod_eq [of off 4096] by linarith+

lemma ex_two_ready: "ready ex_logs 5 ex_two 1"
proof -
  have "map_ok ex_logs ex_two 1"
    by (simp add: map_ok_def Let_def accessible_def) (auto simp: ex_logs_def)
  moreover have "tables_ok ex_two 50 0"
    by (auto simp: tables_ok_def tree_inj_def reached_def two_objects_inv)
  then have "radix_inv ex_two ex_root" by (simp add: radix_inv_def TABLE_MASK_def ex_table2_def ex_table_def depth_def)
  then have "leaves_ok ex_two 1"
    by (simp add: leaves_ok_def Let_def start_type_def) (simp add: ex_table2_def ex_table_def capacity_def depth_def NR_LOG_SIZES_def)
  moreover have "entries_ok ex_logs ex_two 1"
    by (auto simp: entries_ok_def entry_fits_def entry_inv_def entry_ok_def Let_def boff_def bpart_def logs_disjoint_def ex_block ex_boff
        accessible_def disjoint_ranges_def LOG_SIZE_eq NR_LOG_SIZES_def ex_logs_def split: if_splits)
  moreover have "spares_ok ex_logs ex_two 1" by (simp add: spares_ok_def NR_NODE_FILL_def)
  ultimately show ?thesis
    by (simp add: ready_def file_inv_def unlocked_but_def lock_idle_def bravo_rwlock_init_def RWLOCK_INIT_def)
qed

theorem mmio_write_two_blocks_witness:
  "\<exists>w' w2. mmio_write ex_env 5 1 3 0 (2 ^ 15) 8192 ex_two = Inr (8192, w') \<and> mmio_read 5 1 0 (2 ^ 15) 4096 w' = Inr (4096, w2) \<and>
     bytes (mem ex_two) (2 ^ 15) = 8 \<and> bytes (mem ex_two) (2 ^ 15 + 4096) = 9 \<and> content w' 1 0 = 9 \<and> bytes (mem w2) (2 ^ 15) = 9"
proof -
  have "two_blocks ex_two 1 0 70 71" by (simp add: two_blocks_def Let_def ex_block)
  moreover have "user_buffer ex_logs ex_two 1 (2 ^ 15) (2 * 4096)" "accessible (mem ex_two) (2 ^ 15) 4096"
    by (auto simp: user_buffer_def accessible_def disjoint_ranges_def ex_logs_def)
  moreover have "policy (mmios ex_two 1) = REDO" "(4096::nat) = bsize ex_two 1 0" "(0::nat) < 4096" by simp_all
  ultimately obtain w' w2 where "mmio_write ex_env 5 1 3 0 (2 ^ 15) (2 * 4096) ex_two = Inr (2 * 4096, w')"
    and c: "\<forall>i < 4096. content w' 1 (0 + i) = bytes (mem ex_two) (2 ^ 15 + 4096 + i) \<and> content w' 1 (0 + 4096 + i) = bytes (mem ex_two) (2 ^ 15 + i)"
    and "mmio_read 5 1 0 (2 ^ 15) 4096 w' = Inr (4096, w2)"
    and r: "\<forall>i < 4096. bytes (mem w2) (2 ^ 15 + i) = bytes (mem ex_two) (2 ^ 15 + 4096 + i)"
    using mmio_write_two_blocks [OF ex_env_copies ex_two_ready, of 0 70 71 4096 "2 ^ 15" "2 ^ 15" 3] by blast
  moreover have "content w' 1 0 = 9" using c [rule_format, of 0] by simp
  moreover have "bytes (mem w2) (2 ^ 15) = 9" using r [rule_format, of 0] by simp
  ultimately show ?thesis by simp
qed

end
